(* ===== verification/Prelude.thy ===== *)
theory Prelude
  imports Main "HOL-Library.Word"
begin

text \<open>
  Shared vocabulary of the development: the machine types of the C code, the
  checked loops, byte-addressed memory with its 32-bit accesses, and the rewrite
  collections the component theories extend.

    \<^item> \<open>mem_simps\<close> holds what reads see after writes and the facts about packed words;
    \<^item> \<open>loop\<close> is a C \<open>for\<close> loop over a list of index values whose body may fail
      (\<open>None\<close>: an access outside an object), with a total-correctness rule.
\<close>

unbundle bit_operations_syntax

named_theorems mem_simps \<open>reads after writes, packed header words\<close>

type_synonym byte = "8 word"
type_synonym u32 = "32 word"
type_synonym u64 = "64 word"

abbreviation (input) NULL :: nat where "NULL \<equiv> 0"

section \<open>Unsigned 32-bit arithmetic on sizes\<close>

text \<open>\<open>size_t\<close> and pointers are 32 bits wide (the Makefile compiles with \<open>-m32\<close>); a size
  computation that exceeds them wraps.\<close>

definition wrap32 :: "nat \<Rightarrow> nat" where
  "wrap32 n = n mod 2 ^ 32"

lemma wrap32_id [simp]: "n < 2 ^ 32 \<Longrightarrow> wrap32 n = n"
  by (simp add: wrap32_def)

lemma wrap32_less [simp]: "wrap32 n < 4294967296"
  by (simp add: wrap32_def)

section \<open>Characters\<close>

text \<open>\<open>isspace\<close> of the C library, in the C locale.\<close>

definition isspace :: "char \<Rightarrow> bool" where
  "isspace c \<longleftrightarrow> c \<in> {CHR '' '', CHR 0x09, CHR 0x0A, CHR 0x0B, CHR 0x0C, CHR 0x0D}"

section \<open>Loops whose body may fail\<close>

fun loop :: "'i list \<Rightarrow> ('i \<Rightarrow> 's \<Rightarrow> 's option) \<Rightarrow> 's \<Rightarrow> 's option" where
  "loop [] f s = Some s"
| "loop (i # is) f s = (case f i s of None \<Rightarrow> None | Some s' \<Rightarrow> loop is f s')"

lemma loop_append: "loop (xs @ ys) f s = (case loop xs f s of None \<Rightarrow> None | Some s' \<Rightarrow> loop ys f s')"
  by (induction xs arbitrary: s) (auto split: option.splits)

text \<open>Total correctness: an invariant of the number of finished rounds that every round
  establishes for the next one holds at the end, and no round fails.\<close>

lemma loop_rule:
  assumes "I 0 s"
    and "\<And>k s. k < length xs \<Longrightarrow> I k s \<Longrightarrow> \<exists>s'. f (xs ! k) s = Some s' \<and> I (Suc k) s'"
  shows "\<exists>s'. loop xs f s = Some s' \<and> I (length xs) s'"
  using assms
proof (induction xs arbitrary: I s)
  case Nil
  then show ?case by simp
next
  case (Cons x xs)
  from Cons.prems(2) [of 0 s] Cons.prems(1)
  obtain s' where s': "f x s = Some s'" "I (Suc 0) s'" by auto
  have "\<exists>t. loop xs f s' = Some t \<and> I (Suc (length xs)) t"
  proof (rule Cons.IH [of "\<lambda>k. I (Suc k)"])
    show "I (Suc 0) s'" by (rule s')
  next
    fix k t
    assume "k < length xs" "I (Suc k) t"
    then show "\<exists>t'. f (xs ! k) t = Some t' \<and> I (Suc (Suc k)) t'"
      using Cons.prems(2) [of "Suc k" t] by simp
  qed
  then show ?case by (simp add: s')
qed

text \<open>The instance for \<open>for (i = a; i < b; i++)\<close>.\<close>

lemma loop_upt_rule:
  assumes "I a s" and "a \<le> b"
    and "\<And>i s. a \<le> i \<Longrightarrow> i < b \<Longrightarrow> I i s \<Longrightarrow> \<exists>s'. f i s = Some s' \<and> I (Suc i) s'"
  shows "\<exists>s'. loop [a..<b] f s = Some s' \<and> I b s'"
proof -
  have "\<exists>s'. loop [a..<b] f s = Some s' \<and> I (a + length [a..<b]) s'"
    by (rule loop_rule [where I = "\<lambda>k. I (a + k)"]) (use assms in auto)
  with assms(2) show ?thesis by simp
qed

section \<open>Byte-addressed memory\<close>

type_synonym mem = "nat \<Rightarrow> byte"

definition rd32 :: "mem \<Rightarrow> nat \<Rightarrow> u32" where
  "rd32 m a = ucast (m a) OR push_bit 8 (ucast (m (a + 1)))
     OR push_bit 16 (ucast (m (a + 2))) OR push_bit 24 (ucast (m (a + 3)))"

definition wr32 :: "mem \<Rightarrow> nat \<Rightarrow> u32 \<Rightarrow> mem" where
  "wr32 m a v = m(a := ucast v, a + 1 := ucast (drop_bit 8 v),
     a + 2 := ucast (drop_bit 16 v), a + 3 := ucast (drop_bit 24 v))"

lemma rd32_wr32_same [mem_simps]: "rd32 (wr32 m a v) a = v"
proof (rule bit_word_eqI)
  fix n assume "n < LENGTH(32)"
  then consider "n < 8" | "8 \<le> n" "n < 16" | "16 \<le> n" "n < 24" | "24 \<le> n" "n < 32" by force
  then show "bit (rd32 (wr32 m a v) a) n = bit v n"
    by cases (auto simp: bit_simps rd32_def wr32_def)
qed

lemma wr32_outside [mem_simps]: "x < a \<or> a + 4 \<le> x \<Longrightarrow> wr32 m a v x = m x"
  by (auto simp: wr32_def)

lemma rd32_cong: "(\<And>x. a \<le> x \<Longrightarrow> x < a + 4 \<Longrightarrow> m x = m' x) \<Longrightarrow> rd32 m a = rd32 m' a"
  by (simp add: rd32_def)

lemma rd32_wr32_far: "b + 4 \<le> a \<or> a + 4 \<le> b \<Longrightarrow> rd32 (wr32 m a v) b = rd32 m b"
  by (rule rd32_cong) (auto simp: wr32_outside)

text \<open>On aligned addresses a write is a function update as far as reads can tell.\<close>

lemma rd32_wr32 [mem_simps]:
  assumes "4 dvd a" and "4 dvd b"
  shows "rd32 (wr32 m a v) b = (if a = b then v else rd32 m b)"
proof (cases "a = b")
  case False
  from assms obtain i j where "a = 4 * i" "b = 4 * j" by (auto elim!: dvdE)
  with False have "b + 4 \<le> a \<or> a + 4 \<le> b" by auto
  with False show ?thesis by (simp add: rd32_wr32_far)
qed (simp add: rd32_wr32_same)

lemma wr32_commute:
  assumes "a + 4 \<le> b \<or> b + 4 \<le> a"
  shows "wr32 (wr32 m a v) b w = wr32 (wr32 m b w) a v"
proof
  fix x
  show "wr32 (wr32 m a v) b w x = wr32 (wr32 m b w) a v x"
    using assms by (auto simp: wr32_def)
qed

definition bytes :: "mem \<Rightarrow> nat \<Rightarrow> nat \<Rightarrow> byte list" where
  "bytes m a n = map m [a..<a + n]"

lemma length_bytes [simp]: "length (bytes m a n) = n"
  by (simp add: bytes_def)

lemma nth_bytes [simp]: "i < n \<Longrightarrow> bytes m a n ! i = m (a + i)"
  by (simp add: bytes_def)

lemma bytes_cong: "(\<And>x. a \<le> x \<Longrightarrow> x < a + n \<Longrightarrow> m x = m' x) \<Longrightarrow> bytes m a n = bytes m' a n"
  by (simp add: bytes_def)

lemma take_bytes: "k \<le> n \<Longrightarrow> take k (bytes m a n) = bytes m a k"
  by (simp add: bytes_def take_map)

text \<open>\<open>memmove\<close>, and \<open>memcpy\<close> on ranges that do not overlap: all source bytes are read
  before any is written.\<close>

definition memmove :: "nat \<Rightarrow> nat \<Rightarrow> nat \<Rightarrow> mem \<Rightarrow> mem" where
  "memmove dst src n m = (\<lambda>x. if dst \<le> x \<and> x < dst + n then m (src + (x - dst)) else m x)"

definition memset :: "nat \<Rightarrow> byte \<Rightarrow> nat \<Rightarrow> mem \<Rightarrow> mem" where
  "memset dst c n m = (\<lambda>x. if dst \<le> x \<and> x < dst + n then c else m x)"

lemma memmove_outside [mem_simps]: "x < dst \<or> dst + n \<le> x \<Longrightarrow> memmove dst src n m x = m x"
  by (auto simp: memmove_def)

lemma memset_outside [mem_simps]: "x < dst \<or> dst + n \<le> x \<Longrightarrow> memset dst c n m x = m x"
  by (auto simp: memset_def)

lemma bytes_memmove: "bytes (memmove dst src n m) dst n = bytes m src n"
  by (rule nth_equalityI) (auto simp: memmove_def)

lemma bytes_memset: "bytes (memset dst c n m) dst n = replicate n c"
  by (rule nth_equalityI) (auto simp: memset_def)

end
