(* ===== verification/MemLib.thy ===== *)
theory MemLib
  imports Prelude
begin

text \<open>
  The simulated memory system of \<open>malloclab-handout/src/memlib.c\<close> and the word-access
  macros every allocator of the lab starts from.  Addresses are natural numbers; the
  arena is the byte memory together with the three pointers the C file keeps.  Memory
  outside the arena is part of the same byte map, so that what an allocator does not touch
  can be stated.
\<close>

section \<open>memlib.c\<close>

record arena =
  mem :: mem
  mem_start_brk :: nat
  mem_brk :: nat
  mem_max_addr :: nat

definition MAX_HEAP :: nat where
  "MAX_HEAP = 20 * 2 ^ 20"

text \<open>\<open>(void *)-1\<close>.\<close>

definition MINUS1 :: nat where
  "MINUS1 = 2 ^ 32 - 1"

text \<open>\<open>base\<close> is what \<open>malloc(MAX_HEAP)\<close> returned; \<open>None\<close> is \<open>exit(1)\<close>.\<close>

definition mem_init :: "nat \<Rightarrow> 'a arena_scheme \<Rightarrow> 'a arena_scheme option" where
  "mem_init base s =
     (if base = NULL then None
      else Some (s\<lparr>mem_start_brk := base, mem_max_addr := base + MAX_HEAP, mem_brk := base\<rparr>))"

definition mem_reset_brk :: "'a arena_scheme \<Rightarrow> 'a arena_scheme" where
  "mem_reset_brk s = s\<lparr>mem_brk := mem_start_brk s\<rparr>"

definition mem_sbrk :: "int \<Rightarrow> 'a arena_scheme \<Rightarrow> nat \<times> 'a arena_scheme" where
  "mem_sbrk incr s =
     (let old_brk = mem_brk s in
      if incr < 0 \<or> int (mem_brk s) + incr > int (mem_max_addr s) then (MINUS1, s)
      else (old_brk, s\<lparr>mem_brk := nat (int (mem_brk s) + incr)\<rparr>))"

definition mem_heap_lo :: "'a arena_scheme \<Rightarrow> nat" where
  "mem_heap_lo s = mem_start_brk s"

definition mem_heap_hi :: "'a arena_scheme \<Rightarrow> nat" where
  "mem_heap_hi s = mem_brk s - 1"

definition mem_heapsize :: "'a arena_scheme \<Rightarrow> nat" where
  "mem_heapsize s = mem_brk s - mem_start_brk s"

text \<open>Passing a \<open>size_t\<close> to the \<open>int\<close> parameter of \<open>mem_sbrk\<close> reinterprets its 32 bits.\<close>

definition to_int32 :: "nat \<Rightarrow> int" where
  "to_int32 n = (let w = wrap32 n in if w < 2 ^ 31 then int w else int w - 2 ^ 32)"

lemma to_int32_small: "n < 2 ^ 31 \<Longrightarrow> to_int32 n = int n"
  by (simp add: to_int32_def)

lemma to_int32_big: "2 ^ 31 \<le> n \<Longrightarrow> n < 2 ^ 32 \<Longrightarrow> to_int32 n < 0"
  by (simp add: to_int32_def)

text \<open>What a caller may rely on: a successful call returns the old break and moves it by
  the increment; a failing one changes nothing.\<close>

lemma mem_sbrk_ok:
  "n < 2 ^ 31 \<Longrightarrow> mem_brk s + n \<le> mem_max_addr s \<Longrightarrow>
   mem_sbrk (to_int32 n) s = (mem_brk s, s\<lparr>mem_brk := mem_brk s + n\<rparr>)"
  by (simp add: mem_sbrk_def to_int32_small Let_def nat_add_distrib)

lemma mem_sbrk_fails:
  "n < 2 ^ 32 \<Longrightarrow> 2 ^ 31 \<le> n \<or> mem_max_addr s < mem_brk s + n \<Longrightarrow> mem_sbrk (to_int32 n) s = (MINUS1, s)"
  using to_int32_small [of n] to_int32_big [of n] by (cases "n < 2 ^ 31") (auto simp: mem_sbrk_def)

text \<open>Nothing but \<open>mem_init\<close> moves the arena.\<close>

definition same_arena :: "'a arena_scheme \<Rightarrow> 'a arena_scheme \<Rightarrow> bool" where
  "same_arena s s' \<longleftrightarrow> mem_start_brk s' = mem_start_brk s \<and> mem_max_addr s' = mem_max_addr s"

lemma same_arena_refl [simp]: "same_arena s s" "same_arena s (mem_reset_brk s)"
  by (simp_all add: same_arena_def mem_reset_brk_def)

lemma same_arena_trans [trans]: "same_arena a b \<Longrightarrow> same_arena b c \<Longrightarrow> same_arena a c"
  by (simp add: same_arena_def)

lemma arena_mem [simp]: "same_arena s (t\<lparr>mem := m\<rparr>) = same_arena s t"
  by (simp add: same_arena_def)

lemma arena_sbrk: "same_arena s t \<Longrightarrow> same_arena s (snd (mem_sbrk i t))"
  by (auto simp: mem_sbrk_def Let_def same_arena_def)

section \<open>The word macros\<close>

definition ALIGNMENT :: nat where "ALIGNMENT = 8"
definition WSIZE :: nat where "WSIZE = 4"
definition DSIZE :: nat where "DSIZE = 8"
definition CHUNKSIZE :: nat where "CHUNKSIZE = 2 ^ 12"

lemmas sizes = ALIGNMENT_def WSIZE_def DSIZE_def CHUNKSIZE_def

definition ALIGN :: "nat \<Rightarrow> nat" where
  "ALIGN sz = unat ((of_nat sz + (of_nat ALIGNMENT - 1) :: u32) AND NOT 7)"

definition PACK :: "nat \<Rightarrow> nat \<Rightarrow> u32" where
  "PACK sz alloc = of_nat sz OR of_nat alloc"

definition GET :: "'a arena_scheme \<Rightarrow> nat \<Rightarrow> u32" where
  "GET s p = rd32 (mem s) p"

definition PUT :: "nat \<Rightarrow> u32 \<Rightarrow> 'a arena_scheme \<Rightarrow> 'a arena_scheme" where
  "PUT p val s = s\<lparr>mem := wr32 (mem s) p val\<rparr>"

definition GET_SIZE :: "'a arena_scheme \<Rightarrow> nat \<Rightarrow> nat" where
  "GET_SIZE s p = unat (GET s p AND NOT 7)"

definition GET_ALLOC :: "'a arena_scheme \<Rightarrow> nat \<Rightarrow> nat" where
  "GET_ALLOC s p = unat (GET s p AND 1)"

definition HDRP :: "nat \<Rightarrow> nat" where
  "HDRP bp = bp - WSIZE"

definition FTRP :: "'a arena_scheme \<Rightarrow> nat \<Rightarrow> nat" where
  "FTRP s bp = bp + GET_SIZE s (HDRP bp) - DSIZE"

definition NEXT_BLKP :: "'a arena_scheme \<Rightarrow> nat \<Rightarrow> nat" where
  "NEXT_BLKP s bp = bp + GET_SIZE s (bp - WSIZE)"

definition PREV_BLKP :: "'a arena_scheme \<Rightarrow> nat \<Rightarrow> nat" where
  "PREV_BLKP s bp = bp - GET_SIZE s (bp - DSIZE)"

lemmas macros = HDRP_def FTRP_def NEXT_BLKP_def PREV_BLKP_def

text \<open>\<open>size_t\<close> subtraction.\<close>

definition sub32 :: "nat \<Rightarrow> nat \<Rightarrow> nat" where
  "sub32 a b = wrap32 (a + 2 ^ 32 - b)"

lemma sub32_le [simp]: "b \<le> a \<Longrightarrow> a < 2 ^ 32 \<Longrightarrow> sub32 a b = a - b"
proof -
  assume "b \<le> a" "a < 2 ^ 32"
  then have "a + 2 ^ 32 - b = (a - b) + 2 ^ 32" by simp
  then have "sub32 a b = (a - b) mod 2 ^ 32" unfolding sub32_def wrap32_def by (simp only: mod_add_self2)
  also have "\<dots> = a - b" using \<open>a < 2 ^ 32\<close> by (intro mod_less) linarith
  finally show ?thesis .
qed

section \<open>Facts about the macros\<close>

lemma clear_low3: "unat (w AND NOT 7 :: u32) = unat w div 8 * 8"
proof -
  have "(7 :: u32) = mask 3" by (simp add: mask_eq_exp_minus_1)
  then have "unat (w AND NOT 7 :: u32) = unat (w AND NOT (mask 3))" by (simp only:)
  also have "\<dots> = push_bit 3 (drop_bit 3 (unat w))"
    by (intro bit_eqI) (auto simp: bit_simps dest: bit_imp_le_length)
  finally show ?thesis by (simp add: push_bit_eq_mult drop_bit_eq_div)
qed

lemma of_nat_or1: "8 dvd s \<Longrightarrow> s < 2 ^ 32 \<Longrightarrow> (of_nat s OR 1 :: u32) = of_nat (s + 1)"
  by (subst or_one_eq) (auto elim!: dvdE)

lemma unat_PACK:
  assumes "8 dvd s" and "s < 2 ^ 32" and "a \<le> 1"
  shows "unat (PACK s a) = s + a"
proof -
  from assms have b: "s + 1 < 2 ^ 32" by (auto elim!: dvdE)
  from assms(3) consider "a = 0" | "a = 1" by linarith
  then show ?thesis
  proof cases
    case 1
    with assms show ?thesis by (simp add: PACK_def unat_of_nat)
  next
    case 2
    then have "PACK s a = of_nat (s + 1)"
      using of_nat_or1 [OF assms(1,2)] by (simp only: PACK_def of_nat_1)
    moreover from b have "unat (of_nat (s + 1) :: u32) = s + 1"
      by (simp add: unat_of_nat del: of_nat_add of_nat_Suc)
    ultimately show ?thesis using 2 by simp
  qed
qed

lemma PACK_size [mem_simps]:
  assumes "8 dvd s" and "s < 2 ^ 32" and "a \<le> 1"
  shows "unat (PACK s a AND NOT 7) = s"
proof -
  from assms(1) obtain k where "s = 8 * k" by (auto elim: dvdE)
  with assms(3) have "(s + a) div 8 * 8 = s" by simp
  then show ?thesis by (simp only: clear_low3 unat_PACK [OF assms])
qed

lemma PACK_alloc [mem_simps]:
  assumes "8 dvd s" and "s < 2 ^ 32" and "a \<le> 1"
  shows "unat (PACK s a AND 1) = a"
proof -
  from assms(1) obtain k where "s = 8 * k" by (auto elim: dvdE)
  then have "s + a = a + 2 * (4 * k)" by simp
  then have "(s + a) mod 2 = a mod 2" by (simp only: mod_mult_self2)
  also have "\<dots> = a" using assms(3) by simp
  finally show ?thesis by (simp add: and_one_eq unat_mod unat_PACK [OF assms])
qed

lemma ALIGN_eq: "n + 7 < 2 ^ 32 \<Longrightarrow> ALIGN n = (n + 7) div 8 * 8"
  unfolding ALIGN_def clear_low3 by (simp add: ALIGNMENT_def unat_word_ariths unat_of_nat)

lemma ALIGN_bounds:
  assumes "n + 7 < 2 ^ 32"
  shows "n \<le> ALIGN n" and "ALIGN n < n + 8" and "8 dvd ALIGN n"
  using assms by (auto simp: ALIGN_eq)

lemma GET_PUT [mem_simps]:
  "4 dvd p \<Longrightarrow> 4 dvd q \<Longrightarrow> GET (PUT p v s) q = (if p = q then v else GET s q)"
  by (simp add: GET_def PUT_def mem_simps)

lemma PUT_fields [mem_simps]:
  "mem_start_brk (PUT p v s) = mem_start_brk s"
  "mem_brk (PUT p v s) = mem_brk s"
  "mem_max_addr (PUT p v s) = mem_max_addr s"
  "mem (PUT p v s) = wr32 (mem s) p v"
  by (simp_all add: PUT_def)

lemma arena_PUT [simp]: "same_arena s (PUT p v t) = same_arena s t"
  by (simp add: PUT_def)

lemma GET_PACK:
  assumes "rd32 (mem s) p = PACK sz a" and "8 dvd sz" and "sz < 2 ^ 32" and "a \<le> 1"
  shows "GET_SIZE s p = sz" and "GET_ALLOC s p = a"
  using assms by (simp_all only: GET_SIZE_def GET_ALLOC_def GET_def PACK_size PACK_alloc)

lemma GET_SIZE_PUT: "4 dvd p \<Longrightarrow> 4 dvd q \<Longrightarrow> p \<noteq> q \<Longrightarrow> GET_SIZE (PUT p v s) q = GET_SIZE s q"
  by (simp add: GET_SIZE_def GET_PUT)

end
