(* ===== verification/MmExplicit.thy ===== *)
theory MmExplicit
  imports MemLib
begin

text \<open>
  The explicit-free-list allocator \<open>malloclab-handout/src/mm.c\<close> (the same text as
  \<open>mm-final.c\<close>), one definition per function.  A block pointer \<open>bp\<close> points at the
  payload; the word before it is the header, the last word of the block the footer, both
  packing the block size and the allocated bit.  A free block keeps the successor and the
  predecessor of the free list in its first two payload words.

  Every definition threads the state in the order of the C statements: a macro is
  evaluated in the state it is evaluated in by the C code.
\<close>

record mm = arena +
  prol_bp :: nat
  root_bp :: nat

definition MIN_BSIZE :: nat where "MIN_BSIZE = 2 * DSIZE"

definition SUCCP :: "nat \<Rightarrow> nat" where "SUCCP bp = bp"

definition PREDP :: "nat \<Rightarrow> nat" where "PREDP bp = bp + WSIZE"

definition NEXT_FREEBLKP :: "'a arena_scheme \<Rightarrow> nat \<Rightarrow> nat" where
  "NEXT_FREEBLKP s bp = unat (GET s (SUCCP bp))"

definition PREV_FREEBLKP :: "'a arena_scheme \<Rightarrow> nat \<Rightarrow> nat" where
  "PREV_FREEBLKP s bp = unat (GET s (PREDP bp))"

lemmas link_macros = SUCCP_def PREDP_def NEXT_FREEBLKP_def PREV_FREEBLKP_def

section \<open>The free list\<close>

definition set_root :: "nat \<Rightarrow> mm \<Rightarrow> nat \<times> mm" where
  "set_root bp s =
     (if bp = root_bp s then (bp, s)
      else let s = PUT (PREDP (root_bp s)) (of_nat bp) s;
               s = PUT (SUCCP bp) (of_nat (root_bp s)) s;
               s = PUT (PREDP bp) 0 s
           in (bp, s\<lparr>root_bp := bp\<rparr>))"

definition cut_out :: "nat \<Rightarrow> mm \<Rightarrow> mm" where
  "cut_out bp s =
     (if bp = root_bp s
      then let s = s\<lparr>root_bp := NEXT_FREEBLKP s bp\<rparr>
           in PUT (PREDP (root_bp s)) 0 s
      else let s = PUT (SUCCP (PREV_FREEBLKP s bp)) (GET s (SUCCP bp)) s
           in PUT (PREDP (NEXT_FREEBLKP s bp)) (GET s (PREDP bp)) s)"

section \<open>Coalescing, splitting, growing\<close>

definition coalesce :: "nat \<Rightarrow> mm \<Rightarrow> nat \<times> mm" where
  "coalesce bp s =
     (let prev_alloc = GET_ALLOC s (FTRP s (PREV_BLKP s bp));
          next_alloc = GET_ALLOC s (HDRP (NEXT_BLKP s bp));
          sz = GET_SIZE s (HDRP bp)
      in if prev_alloc \<noteq> 0 \<and> next_alloc \<noteq> 0 then (bp, s)
         else if prev_alloc \<noteq> 0 \<and> next_alloc = 0 then
           let s = cut_out (NEXT_BLKP s bp) s;
               sz = wrap32 (sz + GET_SIZE s (FTRP s (NEXT_BLKP s bp)));
               s = PUT (HDRP bp) (PACK sz 0) s;
               s = PUT (FTRP s bp) (PACK sz 0) s
           in (bp, s)
         else if prev_alloc = 0 \<and> next_alloc \<noteq> 0 then
           let s = cut_out (PREV_BLKP s bp) s;
               sz = wrap32 (sz + GET_SIZE s (HDRP (PREV_BLKP s bp)));
               s = PUT (FTRP s bp) (PACK sz 0) s;
               s = PUT (HDRP (PREV_BLKP s bp)) (PACK sz 0) s
           in (PREV_BLKP s bp, s)
         else
           let s = cut_out (PREV_BLKP s bp) s;
               s = cut_out (NEXT_BLKP s bp) s;
               sz = wrap32 (sz + (GET_SIZE s (HDRP (PREV_BLKP s bp))
                      + GET_SIZE s (FTRP s (NEXT_BLKP s bp))));
               s = PUT (HDRP (PREV_BLKP s bp)) (PACK sz 0) s;
               s = PUT (FTRP s (NEXT_BLKP s bp)) (PACK sz 0) s
           in (PREV_BLKP s bp, s))"

definition place :: "nat \<Rightarrow> nat \<Rightarrow> mm \<Rightarrow> mm" where
  "place bp bsize s =
     (let initsize = GET_SIZE s (HDRP bp);
          s = cut_out bp s
      in if initsize < wrap32 (bsize + MIN_BSIZE) then
           let s = PUT (HDRP bp) (PACK initsize 1) s
           in PUT (FTRP s bp) (PACK initsize 1) s
         else
           let s = PUT (HDRP bp) (PACK bsize 1) s;
               s = PUT (FTRP s bp) (PACK bsize 1) s;
               s = PUT (HDRP (NEXT_BLKP s bp)) (PACK (sub32 initsize bsize) 0) s;
               s = PUT (FTRP s (NEXT_BLKP s bp)) (PACK (sub32 initsize bsize) 0) s
           in snd (set_root (NEXT_BLKP s bp) s))"

definition extend_heap :: "nat \<Rightarrow> mm \<Rightarrow> nat \<times> mm" where
  "extend_heap words s =
     (let sz = (if words mod 2 \<noteq> 0 then wrap32 ((words + 1) * WSIZE) else wrap32 (words * WSIZE));
          (bp, s) = mem_sbrk (to_int32 sz) s
      in if bp = MINUS1 then (NULL, s)
         else let s = PUT (HDRP bp) (PACK sz 0) s;
                  s = PUT (FTRP s bp) (PACK sz 0) s;
                  s = PUT (HDRP (NEXT_BLKP s bp)) (PACK 0 1) s;
                  (bp, s) = coalesce bp s
              in set_root bp s)"

section \<open>The search\<close>

text \<open>The \<open>for\<close> loop of \<open>find_fit\<close> from \<open>bp\<close> on; \<open>None\<close> if it never ends.\<close>

partial_function (option) find_fit_from :: "nat \<Rightarrow> nat \<Rightarrow> mm \<Rightarrow> nat option" where
  "find_fit_from bp bsize s =
     (if bp = prol_bp s then Some NULL
      else if bsize \<le> GET_SIZE s (HDRP bp) then Some bp
      else find_fit_from (NEXT_FREEBLKP s bp) bsize s)"

definition find_fit :: "nat \<Rightarrow> mm \<Rightarrow> nat option" where
  "find_fit bsize s = find_fit_from (root_bp s) bsize s"

section \<open>The interface\<close>

text \<open>\<open>mm_init\<close> returns 0 or -1.\<close>

definition mm_init :: "mm \<Rightarrow> int \<times> mm" where
  "mm_init s =
     (let (p, s) = mem_sbrk (to_int32 (6 * WSIZE)) s;
          s = s\<lparr>prol_bp := p\<rparr>
      in if p = MINUS1 then (-1, s)
         else
           let s = PUT (prol_bp s) 0 s;
               s = s\<lparr>prol_bp := prol_bp s + 2 * WSIZE\<rparr>;
               s = PUT (HDRP (prol_bp s)) (PACK MIN_BSIZE 1) s;
               s = PUT (FTRP s (prol_bp s)) (PACK MIN_BSIZE 1) s;
               s = PUT (SUCCP (prol_bp s)) 0 s;
               s = PUT (PREDP (prol_bp s)) (of_nat (NEXT_BLKP s (prol_bp s))) s;
               s = PUT (HDRP (NEXT_BLKP s (prol_bp s))) (PACK 0 1) s;
               s = s\<lparr>root_bp := prol_bp s\<rparr>;
               (bp, s) = extend_heap (CHUNKSIZE div WSIZE) s
           in if bp = NULL then (-1, s) else (0, s))"

definition mm_malloc :: "nat \<Rightarrow> mm \<Rightarrow> (nat \<times> mm) option" where
  "mm_malloc sz s =
     (if sz = 0 then Some (NULL, s)
      else
        let bsize = wrap32 (ALIGN sz + DSIZE)
        in case find_fit bsize s of
             None \<Rightarrow> None
           | Some bp \<Rightarrow>
               if bp \<noteq> NULL then Some (bp, place bp bsize s)
               else
                 let extendsize = (if bsize > CHUNKSIZE then bsize else CHUNKSIZE);
                     (bp, s) = extend_heap (extendsize div WSIZE) s
                 in if bp = NULL then Some (NULL, s)
                    else Some (bp, place bp bsize s))"

definition mm_free :: "nat \<Rightarrow> mm \<Rightarrow> mm" where
  "mm_free ptr s =
     (if ptr = NULL then s
      else
        let sz = GET_SIZE s (HDRP ptr);
            s = PUT (HDRP ptr) (PACK sz 0) s;
            s = PUT (FTRP s ptr) (PACK sz 0) s;
            (bp, s) = coalesce ptr s
        in snd (set_root bp s))"

text \<open>The last arm of \<open>mm_realloc\<close>: a new block, a copy, and the old block freed.\<close>

definition realloc_move :: "nat \<Rightarrow> nat \<Rightarrow> nat \<Rightarrow> nat \<Rightarrow> mm \<Rightarrow> (nat \<times> mm) option" where
  "realloc_move ptr sz oldbsize newbsize s =
     (case mm_malloc sz s of
        None \<Rightarrow> None
      | Some (newptr, s) \<Rightarrow>
          if newptr = NULL then Some (NULL, s)
          else
            let copysize = sub32 (if oldbsize > newbsize then newbsize else oldbsize) DSIZE;
                s = s\<lparr>mem := memmove newptr ptr copysize (mem s)\<rparr>
            in Some (newptr, mm_free ptr s))"

definition mm_realloc :: "nat \<Rightarrow> nat \<Rightarrow> mm \<Rightarrow> (nat \<times> mm) option" where
  "mm_realloc ptr sz s =
     (if ptr = NULL then mm_malloc sz s
      else if sz = 0 then Some (NULL, mm_free ptr s)
      else
        let oldbsize = GET_SIZE s (HDRP ptr);
            newbsize = wrap32 (ALIGN sz + DSIZE);
            prevsize = GET_SIZE s (FTRP s (PREV_BLKP s ptr));
            nextsize = GET_SIZE s (FTRP s (NEXT_BLKP s ptr))
        in if wrap32 (newbsize + MIN_BSIZE) \<le> oldbsize then
             let s = PUT (HDRP ptr) (PACK newbsize 1) s;
                 s = PUT (FTRP s ptr) (PACK newbsize 1) s;
                 s = PUT (HDRP (NEXT_BLKP s ptr)) (PACK (sub32 oldbsize newbsize) 0) s;
                 s = PUT (FTRP s (NEXT_BLKP s ptr)) (PACK (sub32 oldbsize newbsize) 0) s;
                 (bp, s) = coalesce (NEXT_BLKP s ptr) s
             in Some (ptr, snd (set_root bp s))
           else if oldbsize = newbsize then Some (ptr, s)
           else if GET_ALLOC s (FTRP s (PREV_BLKP s ptr)) = 0
                \<and> wrap32 (newbsize + MIN_BSIZE) \<le> wrap32 (oldbsize + prevsize) then
             let totalbsize = wrap32 (oldbsize + prevsize);
                 newptr = PREV_BLKP s ptr;
                 s = cut_out newptr s;
                 s = s\<lparr>mem := memmove newptr ptr (sub32 newbsize DSIZE) (mem s)\<rparr>;
                 s = PUT (HDRP newptr) (PACK newbsize 1) s;
                 s = PUT (FTRP s newptr) (PACK newbsize 1) s;
                 s = PUT (HDRP (NEXT_BLKP s newptr)) (PACK (sub32 totalbsize newbsize) 0) s;
                 s = PUT (FTRP s (NEXT_BLKP s newptr)) (PACK (sub32 totalbsize newbsize) 0) s;
                 (bp, s) = coalesce (NEXT_BLKP s newptr) s
             in Some (newptr, snd (set_root bp s))
           else if GET_ALLOC s (HDRP (NEXT_BLKP s ptr)) = 0
                \<and> wrap32 (newbsize + MIN_BSIZE) \<le> wrap32 (oldbsize + nextsize) then
             let totalbsize = wrap32 (oldbsize + nextsize);
                 s = cut_out (NEXT_BLKP s ptr) s;
                 s = PUT (HDRP ptr) (PACK newbsize 1) s;
                 s = PUT (FTRP s ptr) (PACK newbsize 1) s;
                 s = PUT (HDRP (NEXT_BLKP s ptr)) (PACK (sub32 totalbsize newbsize) 0) s;
                 s = PUT (FTRP s (NEXT_BLKP s ptr)) (PACK (sub32 totalbsize newbsize) 0) s
             in Some (ptr, snd (set_root (NEXT_BLKP s ptr) s))
           else realloc_move ptr sz oldbsize newbsize s)"

section \<open>The checker\<close>

text \<open>What \<open>mm_check\<close> prints: the heap range, one entry per block from the prologue up to the
  epilogue, and one per listed block from the end of the free list back to its root.\<close>

partial_function (option) check_heap :: "nat \<Rightarrow> mm \<Rightarrow> (nat \<times> nat \<times> nat) list option" where
  "check_heap bp s =
     (if GET_SIZE s (HDRP bp) = 0 then Some []
      else Option.bind (check_heap (NEXT_BLKP s bp) s)
             (\<lambda>r. Some ((bp, GET_SIZE s (HDRP bp), GET_ALLOC s (HDRP bp)) # r)))"

partial_function (option) check_list :: "nat \<Rightarrow> mm \<Rightarrow> (nat \<times> nat) list option" where
  "check_list bp s =
     (if bp = NULL then Some []
      else Option.bind (check_list (PREV_FREEBLKP s bp) s)
             (\<lambda>r. Some ((bp, GET_SIZE s (HDRP bp)) # r)))"

definition mm_check :: "mm \<Rightarrow> ((nat \<times> nat) \<times> (nat \<times> nat \<times> nat) list \<times> (nat \<times> nat) list) option" where
  "mm_check s =
     (case (check_heap (prol_bp s) s, check_list (PREV_FREEBLKP s (prol_bp s)) s) of
        (Some h, Some l) \<Rightarrow> Some ((mem_heap_lo s, mem_heap_hi s), h, l)
      | _ \<Rightarrow> None)"

end
