(* ===== verification/HeapModel.thy ===== *)
theory HeapModel
  imports MemLib
begin

text \<open>
  What the bytes of a heap mean.  A heap is a sequence of blocks; a block is its size and
  either \<open>Free\<close> or \<open>Used\<close> with the bytes of its payload.  \<open>chain m p bs\<close> says that the
  memory \<open>m\<close> holds exactly the blocks \<open>bs\<close> from block pointer \<open>p\<close> on: headers, footers,
  alignment and payloads.  Both allocators of the lab use this boundary-tag layout.

  The main lemma is \<open>chain_replace\<close>: memory that differs only inside a segment of blocks
  holds the old blocks around the segment and whatever the segment holds now.
\<close>

datatype bstat = Free | Used "byte list"

type_synonym block = "nat \<times> bstat"

fun alloc_bit :: "bstat \<Rightarrow> nat" where
  "alloc_bit Free = 0"
| "alloc_bit (Used c) = 1"

lemma alloc_bit_le [simp]: "alloc_bit st \<le> Suc 0"
  by (cases st) auto

lemma alloc_bit_0 [simp]: "alloc_bit st = 0 \<longleftrightarrow> st = Free"
  by (cases st) auto

lemma alloc_bit_pos [simp]: "0 < alloc_bit st \<longleftrightarrow> st \<noteq> Free"
  by (cases st) auto

definition blk_ok :: "mem \<Rightarrow> nat \<Rightarrow> block \<Rightarrow> bool" where
  "blk_ok m p b \<longleftrightarrow>
     8 dvd fst b \<and> 16 \<le> fst b \<and>
     rd32 m (p - 4) = PACK (fst b) (alloc_bit (snd b)) \<and>
     rd32 m (p + fst b - 8) = PACK (fst b) (alloc_bit (snd b)) \<and>
     (case snd b of Free \<Rightarrow> True | Used c \<Rightarrow> c = bytes m p (fst b - 8))"

primrec chain :: "mem \<Rightarrow> nat \<Rightarrow> block list \<Rightarrow> bool" where
  "chain m p [] \<longleftrightarrow> True"
| "chain m p (b # bs) \<longleftrightarrow> blk_ok m p b \<and> chain m (p + fst b) bs"

definition len :: "block list \<Rightarrow> nat" where
  "len bs = sum_list (map fst bs)"

lemma len_simps [simp]: "len [] = 0" "len (b # bs) = fst b + len bs"
  "len (xs @ ys) = len xs + len ys"
  by (simp_all add: len_def)

primrec frees :: "nat \<Rightarrow> block list \<Rightarrow> nat list" where
  "frees p [] = []"
| "frees p (b # bs) = (if snd b = Free then [p] else []) @ frees (p + fst b) bs"

primrec live :: "nat \<Rightarrow> block list \<Rightarrow> nat \<rightharpoonup> byte list" where
  "live p [] = Map.empty"
| "live p (b # bs) =
     (case snd b of Free \<Rightarrow> live (p + fst b) bs | Used c \<Rightarrow> (live (p + fst b) bs)(p \<mapsto> c))"

lemma chain_append [simp]: "chain m p (xs @ ys) \<longleftrightarrow> chain m p xs \<and> chain m (p + len xs) ys"
  by (induction xs arbitrary: p) (auto simp: add.assoc)

lemma frees_append [simp]: "frees p (xs @ ys) = frees p xs @ frees (p + len xs) ys"
  by (induction xs arbitrary: p) (auto simp: add.assoc)

lemma live_append [simp]: "live p (xs @ ys) = live (p + len xs) ys ++ live p xs"
  by (induction xs arbitrary: p) (auto simp: add.assoc split: bstat.splits)

lemma chain_sizes:
  assumes "chain m p bs" and "b \<in> set bs"
  shows "16 \<le> fst b" and "8 dvd fst b"
proof -
  have "16 \<le> fst b \<and> 8 dvd fst b"
    using assms by (induction bs arbitrary: p) (auto simp: blk_ok_def)
  then show "16 \<le> fst b" "8 dvd fst b" by auto
qed

lemma len_dvd: "chain m p bs \<Longrightarrow> 8 dvd len bs"
  by (induction bs arbitrary: p) (auto simp: blk_ok_def)

lemma frees_bounds:
  "chain m p bs \<Longrightarrow> a \<in> set (frees p bs) \<Longrightarrow> p \<le> a \<and> a + 16 \<le> p + len bs"
  by (induction bs arbitrary: p) (fastforce simp: blk_ok_def split: if_splits)+

lemma frees_aligned: "chain m p bs \<Longrightarrow> 8 dvd p \<Longrightarrow> a \<in> set (frees p bs) \<Longrightarrow> 8 dvd a"
  by (induction bs arbitrary: p) (auto simp: blk_ok_def split: if_splits)

lemma distinct_frees: "chain m p bs \<Longrightarrow> distinct (frees p bs)"
proof (induction bs arbitrary: p)
  case (Cons b bs)
  then show ?case using frees_bounds [of m "p + fst b" bs p] by (auto simp: blk_ok_def)
qed simp

lemma live_bounds:
  "chain m p bs \<Longrightarrow> live p bs a = Some c \<Longrightarrow>
   p \<le> a \<and> a + length c + 8 \<le> p + len bs \<and> c = bytes m a (length c) \<and> 8 \<le> length c"
proof (induction bs arbitrary: p)
  case (Cons b bs)
  show ?case
  proof (cases "a = p \<and> snd b \<noteq> Free")
    case True
    with Cons.prems show ?thesis by (auto simp: blk_ok_def split: bstat.splits)
  next
    case False
    with Cons.prems have "chain m (p + fst b) bs" "live (p + fst b) bs a = Some c"
      by (auto split: bstat.splits if_splits)
    from Cons.IH [OF this] show ?thesis by simp
  qed
qed simp

lemma live_aligned: "chain m p bs \<Longrightarrow> 8 dvd p \<Longrightarrow> live p bs a = Some c \<Longrightarrow> 8 dvd a"
  by (induction bs arbitrary: p) (auto simp: blk_ok_def split: bstat.splits if_splits)

lemma live_split:
  assumes "live p bs a = Some c"
  shows "\<exists>xs sz ys. bs = xs @ (sz, Used c) # ys \<and> a = p + len xs"
  using assms
proof (induction bs arbitrary: p)
  case (Cons b bs)
  show ?case
  proof (cases "a = p \<and> snd b \<noteq> Free")
    case True
    with Cons.prems have "b # bs = [] @ (fst b, Used c) # bs" "a = p + len []"
      by (auto split: bstat.splits intro: prod_eqI)
    then show ?thesis by blast
  next
    case False
    with Cons.prems have "live (p + fst b) bs a = Some c" by (auto split: bstat.splits if_splits)
    from Cons.IH [OF this] obtain xs sz ys
      where "bs = xs @ (sz, Used c) # ys" "a = p + fst b + len xs" by blast
    then have "b # bs = (b # xs) @ (sz, Used c) # ys" "a = p + len (b # xs)" by simp_all
    then show ?thesis by blast
  qed
qed simp

lemma frees_split:
  assumes "a \<in> set (frees p bs)"
  shows "\<exists>xs sz ys. bs = xs @ (sz, Free) # ys \<and> a = p + len xs"
  using assms
proof (induction bs arbitrary: p)
  case (Cons b bs)
  show ?case
  proof (cases "a = p \<and> snd b = Free")
    case True
    then have "b # bs = [] @ (fst b, Free) # bs" "a = p + len []" by (auto intro: prod_eqI)
    then show ?thesis by blast
  next
    case False
    with Cons.prems have "a \<in> set (frees (p + fst b) bs)" by (auto split: if_splits)
    from Cons.IH [OF this] obtain xs sz ys
      where "bs = xs @ (sz, Free) # ys" "a = p + fst b + len xs" by blast
    then have "b # bs = (b # xs) @ (sz, Free) # ys" "a = p + len (b # xs)" by simp_all
    then show ?thesis by blast
  qed
qed simp

text \<open>Outside the payloads of a segment nothing of it is live.\<close>

lemma live_None: "chain m p bs \<Longrightarrow> a < p \<or> p + len bs \<le> a \<Longrightarrow> live p bs a = None"
  using live_bounds [of m p bs a] by (cases "live p bs a") fastforce+

lemma live_disjoint_aux:
  assumes "chain m p (xs @ (sz, Used c) # ys)" and "live p (xs @ (sz, Used c) # ys) b = Some d"
    and "b \<noteq> p + len xs"
  shows "b + length d \<le> p + len xs \<or> p + len xs + length c \<le> b"
proof -
  from assms have "live p xs b = Some d \<or> live (p + len xs + sz) ys b = Some d"
    by (auto simp: map_add_Some_iff)
  moreover from assms(1) have "length c = sz - 8" by (auto simp: blk_ok_def)
  ultimately show ?thesis
    using assms(1) live_bounds [of m p xs b d] live_bounds [of m "p + len xs + sz" ys b d] by fastforce
qed

lemma live_disjoint:
  assumes "chain m p bs" and "live p bs a = Some c" and "live p bs b = Some d" and "a \<noteq> b"
  shows "b + length d \<le> a \<or> a + length c \<le> b"
proof -
  from live_split [OF assms(2)] obtain xs sz ys
    where "bs = xs @ (sz, Used c) # ys" "a = p + len xs" by blast
  with assms live_disjoint_aux show ?thesis by metis
qed

text \<open>The address of a free block is not live.\<close>

lemma live_free_None:
  assumes "chain m p (xs @ (n, Free) # ys)"
  shows "live p (xs @ (n, Free) # ys) (p + len xs) = None"
  using assms live_None [of m p xs "p + len xs"] live_None [of m "p + len xs + n" ys "p + len xs"]
  by (auto simp: map_add_None blk_ok_def)

lemma live_used:
  assumes "chain m p (xs @ (n, Used c) # ys)"
  shows "live p (xs @ (n, Used c) # ys) = (live (p + len xs + n) ys ++ live p xs)(p + len xs \<mapsto> c)"
  using assms live_None [of m p xs "p + len xs"]
  by (auto simp: fun_eq_iff map_add_def split: option.splits)

section \<open>Memory that agrees on a range\<close>

lemma blk_ok_cong:
  assumes "blk_ok m p b" and "4 \<le> p"
    and "\<And>x. p - 4 \<le> x \<Longrightarrow> x < p + fst b - 4 \<Longrightarrow> m' x = m x"
  shows "blk_ok m' p b"
proof -
  from assms(1) have 16: "16 \<le> fst b" by (simp add: blk_ok_def)
  have "rd32 m' (p - 4) = rd32 m (p - 4)"
    by (rule rd32_cong, rule assms(3)) (use 16 assms(2) in auto)
  moreover have "rd32 m' (p + fst b - 8) = rd32 m (p + fst b - 8)"
    by (rule rd32_cong, rule assms(3)) (use 16 assms(2) in auto)
  moreover have "bytes m' p (fst b - 8) = bytes m p (fst b - 8)"
    by (rule bytes_cong, rule assms(3)) (use 16 assms(2) in auto)
  ultimately show ?thesis using assms(1) by (simp add: blk_ok_def split: bstat.splits)
qed

lemma chain_cong:
  assumes "chain m p bs" and "4 \<le> p"
    and "\<And>x. p - 4 \<le> x \<Longrightarrow> x < p + len bs - 4 \<Longrightarrow> m' x = m x"
  shows "chain m' p bs"
  using assms
proof (induction bs arbitrary: p)
  case (Cons b bs)
  from Cons.prems(1) have 16: "16 \<le> fst b" by (simp add: blk_ok_def)
  have "blk_ok m' p b"
    by (rule blk_ok_cong [of m]) (use Cons.prems 16 in auto)
  moreover have "chain m' (p + fst b) bs"
    by (rule Cons.IH) (use Cons.prems 16 in auto)
  ultimately show ?case by simp
qed simp

lemma chain_replace:
  assumes "chain m p (xs @ mid @ ys)" and "4 \<le> p" and "len mid' = len mid"
    and "\<And>x. x < p + len xs - 4 \<or> p + len xs + len mid - 4 \<le> x \<Longrightarrow> m' x = m x"
    and "chain m' (p + len xs) mid'"
  shows "chain m' p (xs @ mid' @ ys)"
proof -
  have "chain m' p xs"
    by (rule chain_cong [of m]) (use assms(1,2,4) in auto)
  moreover have "chain m' (p + len xs + len mid) ys"
    by (rule chain_cong [of m]) (use assms(1,2,4) in auto)
  ultimately show ?thesis using assms(3,5) by simp
qed

text \<open>The first two words of a free block may be written at will.\<close>

lemma chain_links:
  assumes "chain m p bs" and "4 \<le> p" and "a \<in> set (frees p bs)"
    and "\<And>x. x < a \<or> a + 8 \<le> x \<Longrightarrow> m' x = m x"
  shows "chain m' p bs"
proof -
  from frees_split [OF assms(3)] obtain xs sz ys
    where bs: "bs = xs @ [(sz, Free)] @ ys" and a: "a = p + len xs" by auto
  from assms(1) have ok: "blk_ok m a (sz, Free)" by (simp add: bs a)
  then have 16: "16 \<le> sz" by (simp add: blk_ok_def)
  have "rd32 m' (a - 4) = rd32 m (a - 4)" "rd32 m' (a + sz - 8) = rd32 m (a + sz - 8)"
    by (rule rd32_cong, rule assms(4), use 16 assms(2) a in auto)+
  with ok have ok': "chain m' (p + len xs) [(sz, Free)]" by (simp add: blk_ok_def a)
  have "m' x = m x" if "x < p + len xs - 4 \<or> p + len xs + len [(sz, Free)] - 4 \<le> x" for x
    by (rule assms(4)) (use that 16 a in auto)
  from chain_replace [OF assms(1) [unfolded bs] assms(2) refl this ok']
  show ?thesis by (simp only: bs)
qed

end
