(* ===== verification/FreeList.thy ===== *)
theory FreeList
  imports HeapModel
begin

text \<open>
  The doubly linked free list of \<open>mm.c\<close> as it lies in memory.  \<open>dllseg m pv as nx\<close>: the
  blocks \<open>as\<close> are linked one after the other, the predecessor word of the first holds
  \<open>pv\<close> and the successor word of the last holds \<open>nx\<close>.  \<open>dll m pv as q\<close> adds the end
  marker \<open>q\<close> (the prologue block), whose predecessor word closes the list.
\<close>

primrec dllseg :: "mem \<Rightarrow> nat \<Rightarrow> nat list \<Rightarrow> nat \<Rightarrow> bool" where
  "dllseg m pv [] nx \<longleftrightarrow> True"
| "dllseg m pv (a # as) nx \<longleftrightarrow>
     rd32 m (a + 4) = of_nat pv \<and> rd32 m a = of_nat (hd (as @ [nx])) \<and> dllseg m a as nx"

definition dll :: "mem \<Rightarrow> nat \<Rightarrow> nat list \<Rightarrow> nat \<Rightarrow> bool" where
  "dll m pv as q \<longleftrightarrow> dllseg m pv as q \<and> rd32 m (q + 4) = of_nat (last (pv # as))"

lemma dll_simps [simp]:
  "dll m pv [] q \<longleftrightarrow> rd32 m (q + 4) = of_nat pv"
  "dll m pv (a # as) q \<longleftrightarrow>
     rd32 m (a + 4) = of_nat pv \<and> rd32 m a = of_nat (hd (as @ [q])) \<and> dll m a as q"
  by (auto simp: dll_def)

lemma dllseg_append:
  "dllseg m pv (xs @ ys) nx \<longleftrightarrow> dllseg m pv xs (hd (ys @ [nx])) \<and> dllseg m (last (pv # xs)) ys nx"
  by (induction xs arbitrary: pv) (auto simp: hd_append split: if_splits)

lemma dll_append:
  "dll m pv (xs @ ys) q \<longleftrightarrow> dllseg m pv xs (hd (ys @ [q])) \<and> dll m (last (pv # xs)) ys q"
  by (auto simp: dll_def dllseg_append)

lemma dllseg_cong:
  assumes "dllseg m pv as nx"
    and "\<And>a. a \<in> set as \<Longrightarrow> rd32 m' a = rd32 m a \<and> rd32 m' (a + 4) = rd32 m (a + 4)"
  shows "dllseg m' pv as nx"
  using assms by (induction as arbitrary: pv) auto

lemma dll_cong:
  assumes "dll m pv as q"
    and "\<And>a. a \<in> set as \<Longrightarrow> rd32 m' a = rd32 m a \<and> rd32 m' (a + 4) = rd32 m (a + 4)"
    and "rd32 m' (q + 4) = rd32 m (q + 4)"
  shows "dll m' pv as q"
  using assms dllseg_cong [of m pv as q m'] by (simp add: dll_def)

text \<open>Aligned blocks never share a link word.\<close>

lemma link_words_differ:
  assumes "8 dvd a" and "8 dvd (b::nat)"
  shows "a + 4 \<noteq> b" and "b \<noteq> a + 4"
  using assms by presburger+

lemma dvd8_dvd4 [simp]: "8 dvd (a::nat) \<Longrightarrow> 4 dvd a" "8 dvd a \<Longrightarrow> 4 dvd a + 4"
  by presburger+

text \<open>Rewriting the predecessor word of the first block, and the successor word of the last.\<close>

lemma dll_repred:
  assumes "dll m pv as q" and "\<forall>a\<in>set as. 8 dvd a" and "8 dvd q" and "distinct as" and "q \<notin> set as"
  shows "dll (wr32 m (hd (as @ [q]) + 4) (of_nat pv')) pv' as q"
proof (cases as)
  case Nil
  then show ?thesis by (simp add: mem_simps)
next
  case (Cons a bs)
  let ?m = "wr32 m (a + 4) (of_nat pv')"
  have "dll ?m a bs q"
    by (rule dll_cong [of m])
       (use assms Cons in \<open>auto simp: mem_simps link_words_differ\<close>)
  moreover have "rd32 ?m a = rd32 m a"
    using assms(2) Cons by (simp add: mem_simps)
  ultimately show ?thesis using assms(1) Cons by (simp add: mem_simps)
qed

lemma dllseg_resucc:
  assumes "dllseg m pv (xs @ [b]) nx" and "\<forall>a\<in>set (xs @ [b]). 8 dvd a" and "distinct (xs @ [b])"
  shows "dllseg (wr32 m b (of_nat nx')) pv (xs @ [b]) nx'"
proof -
  let ?m = "wr32 m b (of_nat nx')"
  from assms(1) have 1: "dllseg m pv xs b" "rd32 m (b + 4) = of_nat (last (pv # xs))"
    by (auto simp: dllseg_append)
  have "dllseg ?m pv xs b"
    by (rule dllseg_cong [OF 1(1)])
       (use assms(2,3) in \<open>auto simp: mem_simps link_words_differ\<close>)
  moreover have "rd32 ?m (b + 4) = rd32 m (b + 4)"
    using assms(2) by (simp add: mem_simps)
  ultimately show ?thesis using 1 by (simp add: dllseg_append mem_simps)
qed

text \<open>The two list operations on memory: push at the front, and unlink anywhere.\<close>

lemma dll_push:
  assumes d: "as \<noteq> [] \<Longrightarrow> dll m 0 as q" and "\<forall>x\<in>set as. 8 dvd x" and "8 dvd q" and "8 dvd a"
    and "distinct as" and "q \<notin> set as" and "a \<notin> set as" and "a \<noteq> q"
  shows "dll (wr32 (wr32 (wr32 m (hd (as @ [q]) + 4) (of_nat a)) a (of_nat (hd (as @ [q]))))
           (a + 4) 0) 0 (a # as) q"
proof -
  let ?m1 = "wr32 m (hd (as @ [q]) + 4) (of_nat a)"
  let ?m2 = "wr32 ?m1 a (of_nat (hd (as @ [q])))"
  let ?m3 = "wr32 ?m2 (a + 4) 0"
  have "dll ?m1 a as q"
  proof (cases "as = []")
    case True
    then show ?thesis by (simp add: mem_simps)
  next
    case False
    from dll_repred [OF d [OF False] assms(2,3,5,6)] show ?thesis .
  qed
  then have "dll ?m3 a as q"
    by (rule dll_cong)
       (use assms(2-) in \<open>auto simp: mem_simps link_words_differ\<close>)
  moreover have "rd32 ?m3 a = of_nat (hd (as @ [q]))" "rd32 ?m3 (a + 4) = 0"
    using assms(4) by (simp_all add: mem_simps)
  ultimately show ?thesis by simp
qed

lemma dll_pop:
  assumes "dll m 0 (a # as) q" and "\<forall>x\<in>set as. 8 dvd x" and "8 dvd q"
    and "distinct as" and "q \<notin> set as"
  shows "dll (wr32 m (hd (as @ [q]) + 4) 0) 0 as q"
  using dll_repred [of m a as q 0] assms by simp

lemma dll_unlink:
  assumes "dll m 0 (xs @ b # a # as) q"
    and "\<forall>x\<in>set (xs @ b # a # as). 8 dvd x" and "8 dvd q"
    and "distinct (xs @ b # a # as)" and "q \<notin> set (xs @ b # a # as)"
  shows "dll (wr32 (wr32 m b (of_nat (hd (as @ [q])))) (hd (as @ [q]) + 4) (of_nat b))
           0 ((xs @ [b]) @ as) q"
proof -
  let ?n = "hd (as @ [q])"
  let ?m1 = "wr32 m b (of_nat ?n)"
  let ?m2 = "wr32 ?m1 (?n + 4) (of_nat b)"
  have n: "?n \<notin> set (xs @ [b])" "8 dvd ?n" using assms(2-5) by (cases as, auto)+
  from assms(1) have seg: "dllseg m 0 (xs @ [b]) a" and as: "dll m a as q"
    using dll_append [of m 0 "xs @ [b]" "a # as" q] by (auto simp: dllseg_append)
  from seg have "dllseg ?m1 0 (xs @ [b]) ?n"
    by (rule dllseg_resucc) (use assms(2,4) in auto)
  then have 1: "dllseg ?m2 0 (xs @ [b]) ?n"
    by (rule dllseg_cong) (use assms(2) n in \<open>auto simp: mem_simps link_words_differ\<close>)
  have "dll ?m1 a as q"
    by (rule dll_cong [OF as]) (use assms(2-5) in \<open>auto simp: mem_simps link_words_differ\<close>)
  then have "dll ?m2 b as q"
    by (rule dll_repred) (use assms(2-5) in auto)
  with 1 show ?thesis by (simp only: dll_append) simp
qed

end
