(* ===== verification/BoundaryTags.thy ===== *)
theory BoundaryTags
  imports HeapModel
begin

text \<open>
  The layout every allocator of the lab starts from, whatever else it keeps: a prologue, blocks with
  boundary tags, an epilogue.  What the macros read in it, and what the writes of headers and footers,
  the split of a block and the growth of the heap make of it.
\<close>

section \<open>The heap between prologue and epilogue\<close>

text \<open>\<open>tagged k lo hi g s bs\<close>: the arena \<open>lo..<hi\<close> starts with a prologue block of \<open>k\<close> bytes, the blocks
  \<open>bs\<close> follow, an epilogue header ends them, and bytes outside the arena are those of \<open>g\<close>.\<close>

definition tagged :: "nat \<Rightarrow> nat \<Rightarrow> nat \<Rightarrow> mem \<Rightarrow> 'a arena_scheme \<Rightarrow> block list \<Rightarrow> bool" where
  "tagged k lo hi g s bs \<longleftrightarrow>
     (k = 8 \<or> k = 16) \<and> 8 dvd lo \<and> 0 < lo \<and> hi < MINUS1 \<and>
     mem_start_brk s = lo \<and> mem_max_addr s = hi \<and>
     rd32 (mem s) (lo + 4) = PACK k 1 \<and> rd32 (mem s) (lo + k) = PACK k 1 \<and>
     chain (mem s) (lo + (8 + k)) bs \<and> mem_brk s = lo + (8 + k) + len bs \<and> mem_brk s \<le> hi \<and>
     rd32 (mem s) (lo + (4 + k) + len bs) = PACK 0 1 \<and>
     (\<forall>x. x < lo \<or> hi \<le> x \<longrightarrow> mem s x = g x)"

lemma tagged_bounds:
  assumes "tagged k lo hi g s (xs @ (sz, st) # ys)"
  shows "16 \<le> sz" "8 dvd sz" "8 dvd lo" "8 dvd len xs" "8 dvd len ys"
    "lo + (8 + k) + len xs + sz + len ys \<le> hi" "hi < 2 ^ 32 - 1"
proof -
  from assms have c: "chain (mem s) (lo + (8 + k)) (xs @ (sz, st) # ys)"
    by (simp add: tagged_def)
  then show "16 \<le> sz" "8 dvd sz" "8 dvd len xs" "8 dvd len ys"
    using len_dvd by (auto simp: blk_ok_def)
  show "8 dvd lo" "lo + (8 + k) + len xs + sz + len ys \<le> hi" "hi < 2 ^ 32 - 1"
    using assms by (auto simp: tagged_def MINUS1_def)
qed

lemma tagged_blk:
  assumes "tagged k lo hi g s (xs @ (sz, st) # ys)" and "q = lo + (8 + k) + len xs"
  shows "GET_SIZE s (HDRP q) = sz" "GET_ALLOC s (HDRP q) = alloc_bit st"
    "NEXT_BLKP s q = q + sz" "FTRP s q = q + sz - 8"
    "GET_SIZE s (q + sz - 8) = sz" "GET_ALLOC s (q + sz - 8) = alloc_bit st"
proof -
  note b = tagged_bounds [OF assms(1)]
  from assms have ok: "blk_ok (mem s) q (sz, st)"
    by (simp add: tagged_def add.assoc)
  from b have "sz < 2 ^ 32" by linarith
  note pack = GET_PACK [OF _ b(2) this, where a = "alloc_bit st"]
  from ok show s: "GET_SIZE s (HDRP q) = sz" "GET_ALLOC s (HDRP q) = alloc_bit st"
    "GET_SIZE s (q + sz - 8) = sz" "GET_ALLOC s (q + sz - 8) = alloc_bit st"
    by (simp_all add: blk_ok_def HDRP_def sizes pack)
  from s show "NEXT_BLKP s q = q + sz" "FTRP s q = q + sz - 8"
    by (simp_all add: macros sizes)
qed

text \<open>The block before block \<open>length xs\<close>: the prologue if there is none.\<close>

definition before :: "nat \<Rightarrow> block list \<Rightarrow> nat" where
  "before k xs = (if xs = [] then k else fst (last xs))"

definition prev_bit :: "block list \<Rightarrow> nat" where
  "prev_bit xs = (if xs = [] then 1 else alloc_bit (snd (last xs)))"

definition next_bit :: "block list \<Rightarrow> nat" where
  "next_bit ys = (if ys = [] then 1 else alloc_bit (snd (hd ys)))"

lemma tagged_prev:
  assumes "tagged k lo hi g s (xs @ ys)" and "q = lo + (8 + k) + len xs"
  shows "PREV_BLKP s q = q - before k xs" "FTRP s (PREV_BLKP s q) = q - 8"
    "GET_ALLOC s (q - 8) = prev_bit xs" "GET_SIZE s (q - 8) = before k xs"
    "GET_SIZE s (HDRP (PREV_BLKP s q)) = before k xs"
proof -
  have *: "GET_SIZE s (q - 8) = before k xs \<and> GET_ALLOC s (q - 8) = prev_bit xs \<and>
        GET_SIZE s (HDRP (q - before k xs)) = before k xs \<and> before k xs \<le> q \<and> 8 \<le> before k xs"
  proof (cases xs rule: rev_cases)
    case Nil
    from assms(1) have "rd32 (mem s) (lo + 4) = PACK k 1" "rd32 (mem s) (lo + k) = PACK k 1" "k = 8 \<or> k = 16"
      by (simp_all only: tagged_def)
    then have "GET_SIZE s (lo + 4) = k" "GET_SIZE s (lo + k) = k" "GET_ALLOC s (lo + k) = 1" "8 \<le> k"
      using GET_PACK [of s "lo + 4" k 1] GET_PACK [of s "lo + k" k 1] by auto
    then show ?thesis
      using assms(2) by (simp add: Nil before_def prev_bit_def HDRP_def sizes add.commute)
  next
    case (snoc zs b)
    obtain sz st where b: "b = (sz, st)" by force
    from assms(1) have c: "tagged k lo hi g s (zs @ (sz, st) # ys)" by (simp add: snoc b)
    let ?p = "lo + (8 + k) + len zs"
    have "q = ?p + sz" by (simp add: assms(2) snoc b)
    then show ?thesis
      using tagged_blk [OF c refl] tagged_bounds [OF c]
      by (simp add: snoc b before_def prev_bit_def)
  qed
  then show p: "PREV_BLKP s q = q - before k xs" "GET_ALLOC s (q - 8) = prev_bit xs"
    "GET_SIZE s (q - 8) = before k xs"
    by (simp_all add: PREV_BLKP_def sizes)
  show "GET_SIZE s (HDRP (PREV_BLKP s q)) = before k xs" using * by (simp add: p)
  with * show "FTRP s (PREV_BLKP s q) = q - 8" by (simp add: p FTRP_def sizes)
qed

lemma tagged_next:
  assumes "tagged k lo hi g s (xs @ (sz, st) # ys)" and "q = lo + (8 + k) + len xs"
  shows "GET_ALLOC s (HDRP (NEXT_BLKP s q)) = next_bit ys"
proof (cases ys)
  case Nil
  from assms(1) have "rd32 (mem s) (lo + (4 + k) + len (xs @ [(sz, st)])) = PACK 0 1"
    unfolding Nil by (simp only: tagged_def)
  then have "GET_ALLOC s (lo + (4 + k) + len (xs @ [(sz, st)])) = 1"
    by (rule GET_PACK) simp_all
  moreover have "HDRP (NEXT_BLKP s q) = lo + (4 + k) + len (xs @ [(sz, st)])"
    using tagged_blk(3) [OF assms] assms(2) by (simp add: HDRP_def sizes)
  ultimately show ?thesis by (simp add: Nil next_bit_def)
next
  case (Cons b zs)
  obtain sz' st' where b: "b = (sz', st')" by force
  from assms(1) have c: "tagged k lo hi g s ((xs @ [(sz, st)]) @ (sz', st') # zs)"
    by (simp add: Cons b)
  from tagged_blk(2) [OF c refl] tagged_blk(3) [OF assms] show ?thesis
    by (simp add: assms(2) Cons b next_bit_def add.assoc)
qed

section \<open>Changing a segment of blocks\<close>

lemma tagged_replace:
  assumes c: "tagged k lo hi g s (xs @ mid @ ys)"
    and q: "q = lo + (8 + k) + len xs"
    and m: "\<And>x. x < q - 4 \<or> q + len mid - 4 \<le> x \<Longrightarrow> m' x = mem s x"
    and mid': "chain m' q mid'" "len mid' = len mid"
  shows "tagged k lo hi g (s\<lparr>mem := m'\<rparr>) (xs @ mid' @ ys)"
proof -
  let ?bs = "xs @ mid @ ys"
  from c have k: "k = 8 \<or> k = 16" and ch: "chain (mem s) (lo + (8 + k)) ?bs"
    and f: "mem_brk s = lo + (8 + k) + len ?bs" "mem_brk s \<le> hi"
    and t: "rd32 (mem s) (lo + 4) = PACK k 1" "rd32 (mem s) (lo + k) = PACK k 1"
      "rd32 (mem s) (lo + (4 + k) + len ?bs) = PACK 0 1"
    and out: "\<forall>x. x < lo \<or> hi \<le> x \<longrightarrow> mem s x = g x"
    unfolding tagged_def by blast+
  have ch': "chain m' (lo + (8 + k)) (xs @ mid' @ ys)"
    by (rule chain_replace [OF ch _ mid'(2)]) (use m mid'(1) q in auto)
  have same: "rd32 m' a = rd32 (mem s) a" if "a + 4 \<le> q - 4 \<or> q + len mid - 4 \<le> a" for a
    by (rule rd32_cong, rule m) (use that in auto)
  have "rd32 m' (lo + 4) = PACK k 1" "rd32 m' (lo + k) = PACK k 1"
    using t same q k by auto
  moreover have "rd32 m' (lo + (4 + k) + len (xs @ mid' @ ys)) = PACK 0 1"
    using t(3) same [of "lo + (4 + k) + len ?bs"] q mid'(2) by simp
  moreover have "m' x = g x" if "x < lo \<or> hi \<le> x" for x
    using m [of x] out that q f by auto
  ultimately show ?thesis
    using c ch' mid'(2) unfolding tagged_def by simp
qed

text \<open>Writing the header and the footer of a block.\<close>

definition tags :: "nat \<Rightarrow> nat \<Rightarrow> nat \<Rightarrow> mem \<Rightarrow> mem" where
  "tags q sz a m = wr32 (wr32 m (q - 4) (PACK sz a)) (q + sz - 8) (PACK sz a)"

lemma tags_apart:
  assumes "x < q - 4 \<or> q \<le> x" and "x < q + sz - 8 \<or> q + sz - 4 \<le> x" and "4 \<le> q" and "16 \<le> sz"
  shows "tags q sz a m x = m x"
proof -
  from assms have 1: "x < q - 4 \<or> q - 4 + 4 \<le> x" and 2: "x < q + sz - 8 \<or> q + sz - 8 + 4 \<le> x"
    by linarith+
  show ?thesis unfolding tags_def wr32_outside [OF 2] by (rule wr32_outside [OF 1])
qed

lemma tags_outside: "16 \<le> sz \<Longrightarrow> 4 \<le> q \<Longrightarrow> x < q - 4 \<or> q + sz - 4 \<le> x \<Longrightarrow> tags q sz a m x = m x"
  by (rule tags_apart) linarith+

lemma tags_payload: "16 \<le> sz \<Longrightarrow> 4 \<le> q \<Longrightarrow> n \<le> sz - 8 \<Longrightarrow> bytes (tags q sz a m) q n = bytes m q n"
  by (rule bytes_cong, rule tags_apart) linarith+

lemma tags_words:
  assumes "8 dvd q" "8 \<le> q" "8 dvd sz" "16 \<le> sz"
  shows "rd32 (tags q sz a m) (q - 4) = PACK sz a" "rd32 (tags q sz a m) (q + sz - 8) = PACK sz a"
proof -
  from assms obtain i j where "q = 8 * i" "sz = 8 * j" "1 \<le> i" "2 \<le> j" by (auto elim!: dvdE)
  then have "4 dvd q - 4" "4 dvd q + sz - 8" by presburger+
  then show "rd32 (tags q sz a m) (q - 4) = PACK sz a" "rd32 (tags q sz a m) (q + sz - 8) = PACK sz a"
    by (simp_all add: tags_def rd32_wr32)
qed

lemma tags_free:
  assumes "8 dvd q" "8 \<le> q" "8 dvd sz" "16 \<le> sz"
  shows "blk_ok (tags q sz 0 m) q (sz, Free)"
  using assms tags_words [OF assms, of 0 m] by (simp add: blk_ok_def)

lemma tags_used:
  assumes "8 dvd q" "8 \<le> q" "8 dvd sz" "16 \<le> sz"
  shows "blk_ok (tags q sz 1 m) q (sz, Used (bytes m q (sz - 8)))"
  using assms tags_words [OF assms, of 1 m] tags_payload [of sz q "sz - 8" 1 m]
  by (simp add: blk_ok_def)

lemma put_tags:
  assumes "8 dvd sz" "16 \<le> sz" "sz < 2 ^ 32" "a \<le> 1"
  shows "PUT (FTRP (PUT (HDRP q) (PACK sz a) s) q) (PACK sz a) (PUT (HDRP q) (PACK sz a) s)
    = s\<lparr>mem := tags q sz a (mem s)\<rparr>"
proof -
  let ?s = "PUT (HDRP q) (PACK sz a) s"
  have "rd32 (mem ?s) (HDRP q) = PACK sz a" by (simp add: PUT_def rd32_wr32_same)
  then have "GET_SIZE ?s (HDRP q) = sz" by (rule GET_PACK) fact+
  then have "FTRP ?s q = q + sz - 8" by (simp add: FTRP_def sizes)
  then show ?thesis by (simp add: PUT_def tags_def HDRP_def sizes)
qed

lemma next_tags:
  assumes "8 dvd q" "8 \<le> q" "8 dvd sz" "16 \<le> sz" "sz < 2 ^ 32" "a \<le> 1"
  shows "NEXT_BLKP (s\<lparr>mem := tags q sz a m\<rparr>) q = q + sz"
proof -
  from tags_words(1) [OF assms(1-4), of a m]
  have "rd32 (mem (s\<lparr>mem := tags q sz a m\<rparr>)) (q - 4) = PACK sz a" by simp
  then have "GET_SIZE (s\<lparr>mem := tags q sz a m\<rparr>) (q - 4) = sz" by (rule GET_PACK) fact+
  then show ?thesis by (simp add: NEXT_BLKP_def sizes)
qed

lemma tagged_aligned:
  assumes "tagged k lo hi g s (xs @ b # ys)" and "q = lo + (8 + k) + len xs"
  shows "8 dvd q" "8 \<le> q"
proof -
  have "k = 8 \<or> k = 16" using assms(1) by (simp add: tagged_def)
  then show "8 dvd q" using tagged_bounds [of k lo hi g s xs "fst b" "snd b" ys] assms by (auto simp: dvd_add)
  show "8 \<le> q" by (simp add: assms(2))
qed

text \<open>The segments the allocators write: one free block, one used block, a used and a free one.\<close>

lemma tagged_free:
  assumes c: "tagged k lo hi g s (xs @ mid @ ys)" and q: "q = lo + (8 + k) + len xs" and n: "len mid = n" "mid \<noteq> []"
  shows "tagged k lo hi g (s\<lparr>mem := tags q n 0 (mem s)\<rparr>) (xs @ (n, Free) # ys)"
proof -
  obtain b zs where mid: "mid = b # zs" using n(2) by (cases mid) auto
  from c have c': "tagged k lo hi g s (xs @ b # zs @ ys)" by (simp add: mid)
  note al = tagged_aligned [OF c' q]
  have ch: "chain (mem s) q mid" using c q by (simp add: tagged_def)
  have 16: "8 dvd n" "16 \<le> n" using len_dvd [OF ch] chain_sizes(1) [OF ch, of b] n(1) by (simp_all add: mid)
  have "tagged k lo hi g (s\<lparr>mem := tags q n 0 (mem s)\<rparr>) (xs @ [(n, Free)] @ ys)"
    by (rule tagged_replace [OF c q]) (use n 16 al tags_free [OF al 16] in \<open>auto simp: tags_outside\<close>)
  then show ?thesis by simp
qed

lemma tagged_used:
  assumes c: "tagged k lo hi g s (xs @ (n, st) # ys)" and q: "q = lo + (8 + k) + len xs"
  shows "tagged k lo hi g (s\<lparr>mem := tags q n 1 (mem s)\<rparr>) (xs @ (n, Used (bytes (mem s) q (n - 8))) # ys)"
proof -
  note al = tagged_aligned [OF c q] and b = tagged_bounds [OF c]
  from c have c': "tagged k lo hi g s (xs @ [(n, st)] @ ys)" by simp
  have "tagged k lo hi g (s\<lparr>mem := tags q n 1 (mem s)\<rparr>) (xs @ [(n, Used (bytes (mem s) q (n - 8)))] @ ys)"
    by (rule tagged_replace [OF c' q]) (use b al tags_used [OF al b(2,1)] in \<open>auto simp: tags_outside\<close>)
  then show ?thesis by simp
qed

lemma split_segment:
  assumes al: "8 dvd q" "8 \<le> q" and b: "8 dvd b" "16 \<le> b" "8 dvd r" "16 \<le> r"
  shows "chain (tags (q + b) r 0 (tags q b 1 m)) q [(b, Used (bytes m q (b - 8))), (r, Free)]"
    and "x < q - 4 \<or> q + (b + r) - 4 \<le> x \<Longrightarrow> tags (q + b) r 0 (tags q b 1 m) x = m x"
proof -
  let ?m = "tags (q + b) r 0 (tags q b 1 m)"
  have "blk_ok (tags q b 1 m) q (b, Used (bytes m q (b - 8)))" by (rule tags_used) fact+
  then have "blk_ok ?m q (b, Used (bytes m q (b - 8)))"
    by (rule blk_ok_cong) (use al b in \<open>auto simp: tags_outside\<close>)
  moreover have "blk_ok ?m (q + b) (r, Free)" by (rule tags_free) (use al b in \<open>auto simp: dvd_add\<close>)
  ultimately show "chain ?m q [(b, Used (bytes m q (b - 8))), (r, Free)]" by simp
  assume h: "x < q - 4 \<or> q + (b + r) - 4 \<le> x"
  have "?m x = tags q b 1 m x" by (rule tags_outside) (use h al b in auto)
  also have "\<dots> = m x" by (rule tags_outside) (use h al b in auto)
  finally show "?m x = m x" .
qed

lemma tagged_split:
  assumes c: "tagged k lo hi g s (xs @ (n, st) # ys)" and q: "q = lo + (8 + k) + len xs"
    and b: "8 dvd b" "16 \<le> b" "8 dvd r" "16 \<le> r" "n = b + r"
  shows "tagged k lo hi g (s\<lparr>mem := tags (q + b) r 0 (tags q b 1 (mem s))\<rparr>)
    (xs @ (b, Used (bytes (mem s) q (b - 8))) # (r, Free) # ys)"
proof -
  note al = tagged_aligned [OF c q]
  from c have c': "tagged k lo hi g s (xs @ [(n, st)] @ ys)" by simp
  have "tagged k lo hi g (s\<lparr>mem := tags (q + b) r 0 (tags q b 1 (mem s))\<rparr>)
      (xs @ [(b, Used (bytes (mem s) q (b - 8))), (r, Free)] @ ys)"
    by (rule tagged_replace [OF c' q]) (use split_segment [OF al b(1-4), where m = "mem s"] b(5) in auto)
  then show ?thesis by simp
qed

section \<open>Splitting and growing\<close>

text \<open>The four writes that split a block of \<open>b + r\<close> bytes, shared by the allocators.\<close>

definition split_block :: "nat \<Rightarrow> nat \<Rightarrow> nat \<Rightarrow> 'a arena_scheme \<Rightarrow> 'a arena_scheme" where
  "split_block q b r s =
     (let s = PUT (HDRP q) (PACK b 1) s;
          s = PUT (FTRP s q) (PACK b 1) s;
          s = PUT (HDRP (NEXT_BLKP s q)) (PACK r 0) s
      in PUT (FTRP s (NEXT_BLKP s q)) (PACK r 0) s)"

lemma split_block_eq:
  assumes "8 dvd q" "8 \<le> q" "8 dvd b" "16 \<le> b" "8 dvd r" "16 \<le> r" "b < 2 ^ 32" "r < 2 ^ 32"
  shows "split_block q b r s = s\<lparr>mem := tags (q + b) r 0 (tags q b 1 (mem s))\<rparr>"
    and "NEXT_BLKP (split_block q b r s) q = q + b"
proof -
  let ?s2 = "s\<lparr>mem := tags q b 1 (mem s)\<rparr>"
  let ?s3 = "PUT (HDRP (q + b)) (PACK r 0) ?s2"
  have 1: "PUT (FTRP (PUT (HDRP q) (PACK b 1) s) q) (PACK b 1) (PUT (HDRP q) (PACK b 1) s) = ?s2"
    by (rule put_tags) (use assms in auto)
  have n2: "NEXT_BLKP ?s2 q = q + b" by (rule next_tags) (use assms in auto)
  have al: "4 dvd q - 4" "4 dvd q + b - 4" "4 dvd q + b + r - 8" "q - 4 \<noteq> q + b - 4" "q - 4 \<noteq> q + b + r - 8"
    using assms by (auto elim!: dvdE)
  have "GET_SIZE ?s2 (q - 4) = b" using n2 by (simp add: NEXT_BLKP_def sizes)
  then have "GET_SIZE ?s3 (q - 4) = b"
    using al by (simp add: GET_SIZE_PUT HDRP_def sizes)
  then have n3: "NEXT_BLKP ?s3 q = q + b" by (simp add: NEXT_BLKP_def sizes)
  have 2: "PUT (FTRP ?s3 (q + b)) (PACK r 0) ?s3 = ?s2\<lparr>mem := tags (q + b) r 0 (mem ?s2)\<rparr>"
    by (rule put_tags) (use assms in auto)
  show eq: "split_block q b r s = s\<lparr>mem := tags (q + b) r 0 (tags q b 1 (mem s))\<rparr>"
    by (simp only: split_block_def Let_def 1 n2 n3 2) simp
  have "split_block q b r s = PUT (q + b + r - 8) (PACK r 0) ?s3"
    unfolding eq by (simp add: PUT_def tags_def HDRP_def sizes)
  then have "GET_SIZE (split_block q b r s) (q - 4) = b"
    using al \<open>GET_SIZE ?s3 (q - 4) = b\<close> by (simp add: GET_SIZE_PUT)
  then show "NEXT_BLKP (split_block q b r s) q = q + b" by (simp add: NEXT_BLKP_def sizes)
qed

text \<open>The writes of \<open>extend_heap\<close> before it coalesces: the old epilogue becomes the header
  of a free block of \<open>n\<close> bytes, and a new epilogue is written behind it.\<close>

definition grow :: "nat \<Rightarrow> 'a arena_scheme \<Rightarrow> 'a arena_scheme" where
  "grow n s =
     (let bp = mem_brk s;
          s = s\<lparr>mem_brk := mem_brk s + n\<rparr>;
          s = PUT (HDRP bp) (PACK n 0) s;
          s = PUT (FTRP s bp) (PACK n 0) s
      in PUT (HDRP (NEXT_BLKP s bp)) (PACK 0 1) s)"

lemma tagged_grow:
  assumes sh: "tagged k lo hi g s bs" and n: "8 dvd n" "16 \<le> n" "mem_brk s + n \<le> hi"
  shows "tagged k lo hi g (grow n s) (bs @ [(n, Free)])"
    and "\<And>x. x + 4 \<le> mem_brk s - 4 \<Longrightarrow> rd32 (mem (grow n s)) x = rd32 (mem s) x"
proof -
  let ?q = "mem_brk s" and ?s1 = "s\<lparr>mem_brk := mem_brk s + n\<rparr>"
  let ?m = "tags ?q n 0 (mem s)"
  let ?m' = "wr32 ?m (?q + n - 4) (PACK 0 1)"
  from sh have ch: "chain (mem s) (lo + (8 + k)) bs" and lo: "8 dvd lo" "0 < lo" and k: "k = 8 \<or> k = 16" and q: "?q = lo + (8 + k) + len bs"
    and hi: "hi < 2 ^ 32 - 1" by (auto simp: tagged_def MINUS1_def)
  have 8: "8 dvd ?q" "8 \<le> ?q" "n < 2 ^ 32" using len_dvd [OF ch] lo k q n hi by (auto simp: dvd_add)
  have 1: "PUT (FTRP (PUT (HDRP ?q) (PACK n 0) ?s1) ?q) (PACK n 0) (PUT (HDRP ?q) (PACK n 0) ?s1)
      = ?s1\<lparr>mem := ?m\<rparr>"
    using put_tags [of n 0 ?q ?s1] n 8 by simp
  have 2: "NEXT_BLKP (?s1\<lparr>mem := ?m\<rparr>) ?q = ?q + n"
    by (rule next_tags) (use n 8 in auto)
  have "grow n s = PUT (HDRP (?q + n)) (PACK 0 1) (?s1\<lparr>mem := ?m\<rparr>)"
    by (simp only: grow_def Let_def 1 2)
  then have eq: "grow n s = ?s1\<lparr>mem := ?m'\<rparr>"
    by (simp add: PUT_def HDRP_def sizes)
  have out: "?m' x = mem s x" if "x < ?q - 4 \<or> ?q + n \<le> x" for x
  proof -
    have "?m' x = ?m x" by (rule wr32_outside) (use that n 8 in auto)
    also have "\<dots> = mem s x" by (rule tags_outside) (use that n 8 in auto)
    finally show ?thesis .
  qed
  show same: "rd32 (mem (grow n s)) x = rd32 (mem s) x" if "x + 4 \<le> ?q - 4" for x
  proof -
    have "rd32 ?m' x = rd32 (mem s) x" by (rule rd32_cong, rule out) (use that in auto)
    then show ?thesis by (simp add: eq)
  qed
  have "chain ?m' (lo + (8 + k)) bs" by (rule chain_cong [OF ch]) (use out q in auto)
  moreover have "blk_ok ?m' ?q (n, Free)"
    by (rule blk_ok_cong [OF tags_free]) (use n 8 in \<open>auto simp: wr32_outside\<close>)
  moreover have "rd32 ?m' (lo + (4 + k) + len (bs @ [(n, Free)])) = PACK 0 1"
  proof -
    have "?q + n - 4 = lo + (4 + k) + len (bs @ [(n, Free)])" using q n by simp
    then show ?thesis using rd32_wr32_same [of ?m "?q + n - 4" "PACK 0 1"] by (simp only:)
  qed
  moreover have "rd32 (mem (grow n s)) (lo + 4) = PACK k 1" "rd32 (mem (grow n s)) (lo + k) = PACK k 1"
  proof -
    have "rd32 (mem (grow n s)) (lo + 4) = rd32 (mem s) (lo + 4)"
      by (rule same) (use q k in auto)
    then show "rd32 (mem (grow n s)) (lo + 4) = PACK k 1" using sh by (simp add: tagged_def)
    have "rd32 ?m' (lo + k) = rd32 (mem s) (lo + k)"
      by (rule rd32_cong, rule out) (use q k in auto)
    then show "rd32 (mem (grow n s)) (lo + k) = PACK k 1" using sh by (simp add: tagged_def eq)
  qed
  moreover have "?m' x = g x" if "x < lo \<or> hi \<le> x" for x
    using out [of x] that q n sh by (auto simp: tagged_def)
  ultimately show "tagged k lo hi g (grow n s) (bs @ [(n, Free)])"
    using sh n q unfolding tagged_def eq by (simp add: add.commute)
qed


text \<open>Between two calls no two free blocks are neighbours.\<close>

fun noadj :: "block list \<Rightarrow> bool" where
  "noadj (b # c # bs) \<longleftrightarrow> \<not> (snd b = Free \<and> snd c = Free) \<and> noadj (c # bs)"
| "noadj _ \<longleftrightarrow> True"

lemma noadj_Cons: "noadj (b # bs) \<longleftrightarrow> noadj bs \<and> (bs = [] \<or> snd b \<noteq> Free \<or> snd (hd bs) \<noteq> Free)"
  by (cases bs) auto

lemma noadj_append:
  "noadj (xs @ ys) \<longleftrightarrow> noadj xs \<and> noadj ys \<and>
     (xs = [] \<or> ys = [] \<or> snd (last xs) \<noteq> Free \<or> snd (hd ys) \<noteq> Free)"
  by (induction xs) (auto simp: noadj_Cons simp del: noadj.simps(1))

section \<open>Live blocks\<close>

lemma tagged_live:
  assumes t: "tagged k lo hi g s bs" and L: "live (lo + (8 + k)) bs p = Some c"
  shows "8 dvd p" "lo + (8 + k) \<le> p" "p + length c + 8 \<le> mem_brk s" "mem_brk s \<le> hi" "c = bytes (mem s) p (length c)"
proof -
  from t have ch: "chain (mem s) (lo + (8 + k)) bs" and k: "k = 8 \<or> k = 16" and lo: "8 dvd lo"
    and brk: "mem_brk s = lo + (8 + k) + len bs" "mem_brk s \<le> hi" by (simp_all add: tagged_def)
  have "8 dvd lo + (8 + k)" using k lo by (auto simp: dvd_add)
  with live_bounds [OF ch L] live_aligned [OF ch this L] brk
  show "8 dvd p" "lo + (8 + k) \<le> p" "p + length c + 8 \<le> mem_brk s" "mem_brk s \<le> hi" "c = bytes (mem s) p (length c)" by auto
qed

lemma tagged_write:
  assumes t: "tagged k lo hi g s (xs @ (sz, Used c) # ys)" and q: "q = lo + (8 + k) + len xs"
    and m: "\<And>x. x < q \<or> q + length c \<le> x \<Longrightarrow> m' x = mem s x"
  shows "tagged k lo hi g (s\<lparr>mem := m'\<rparr>) (xs @ (sz, Used (bytes m' q (length c))) # ys)"
proof -
  from t have t': "tagged k lo hi g s (xs @ [(sz, Used c)] @ ys)" by simp
  have ok: "blk_ok (mem s) q (sz, Used c)" using t q by (simp add: tagged_def add.assoc)
  note al = tagged_aligned [OF t q]
  have lc: "length c = sz - 8" "16 \<le> sz" using ok by (auto simp: blk_ok_def)
  have "rd32 m' (q - 4) = rd32 (mem s) (q - 4)" "rd32 m' (q + sz - 8) = rd32 (mem s) (q + sz - 8)"
    by (rule rd32_cong, rule m, use lc al in auto)+
  then have ok': "blk_ok m' q (sz, Used (bytes m' q (length c)))" using ok lc by (simp add: blk_ok_def)
  have out: "m' x = mem s x" if "x < q - 4 \<or> q + len [(sz, Used c)] - 4 \<le> x" for x
    by (rule m) (use that lc in auto)
  have "tagged k lo hi g (s\<lparr>mem := m'\<rparr>) (xs @ [(sz, Used (bytes m' q (length c)))] @ ys)"
    by (rule tagged_replace [OF t' q out]) (use ok' in auto)
  then show ?thesis by simp
qed

section \<open>The size of a request\<close>

definition bsize_of :: "nat \<Rightarrow> nat" where
  "bsize_of n = wrap32 (ALIGN n + DSIZE)"

text \<open>No memory for \<open>n\<close> bytes: every free block is too small for the block they need, and the arena has no room to
  grow by a chunk or by that block (or the block is too large for the \<open>int\<close> that \<open>mem_sbrk\<close> takes).\<close>

definition no_fit :: "nat \<Rightarrow> 'a arena_scheme \<Rightarrow> block list \<Rightarrow> nat \<Rightarrow> bool" where
  "no_fit hi s bs n \<longleftrightarrow> (\<forall>sz. (sz, Free) \<in> set bs \<longrightarrow> sz < bsize_of n) \<and>
     (hi < mem_brk s + max (bsize_of n) CHUNKSIZE \<or> 2 ^ 31 \<le> bsize_of n)"

lemma bsize_of:
  assumes "0 < n" "n \<le> 2 ^ 32 - 16"
  shows "8 dvd bsize_of n" "16 \<le> bsize_of n" "n + 8 \<le> bsize_of n" "bsize_of n < n + 16"
    "bsize_of n \<le> 2 ^ 32 - 8" "bsize_of n = ALIGN n + 8"
proof -
  have "n + 7 < 2 ^ 32" using assms by simp
  note b = ALIGN_bounds [OF this] ALIGN_eq [OF this]
  from b(3) obtain k where k: "ALIGN n = 8 * k" by (auto elim: dvdE)
  have "8 * k < 2 ^ 32 - 8" using b(2) k assms by presburger
  then have e: "bsize_of n = ALIGN n + 8" using k by (simp add: bsize_of_def sizes)
  with b k assms show "8 dvd bsize_of n" "16 \<le> bsize_of n" "n + 8 \<le> bsize_of n" "bsize_of n < n + 16"
    "bsize_of n \<le> 2 ^ 32 - 8" "bsize_of n = ALIGN n + 8" by auto
qed

end
