(* ===== verification/MmInv.thy ===== *)
theory MmInv
  imports MmExplicit FreeList BoundaryTags
begin

text \<open>
  The invariant of \<open>mm.c\<close> and what each internal function does to it.
  \<open>core lo hi g s bs fl\<close> relates a state to the blocks \<open>bs\<close> of its heap and to the free
  list \<open>fl\<close>: prologue, blocks, epilogue and list links are where the code expects them,
  the list holds only free blocks, and bytes outside the arena \<open>lo..<hi\<close> are those of \<open>g\<close>.
  \<open>inv\<close> adds what holds between calls: every free block is on the list and no two free
  blocks are neighbours.
\<close>

definition core :: "nat \<Rightarrow> nat \<Rightarrow> mem \<Rightarrow> mm \<Rightarrow> block list \<Rightarrow> nat list \<Rightarrow> bool" where
  "core lo hi g s bs fl \<longleftrightarrow>
     8 dvd lo \<and> 0 < lo \<and> hi < MINUS1 \<and>
     mem_start_brk s = lo \<and> mem_max_addr s = hi \<and> prol_bp s = lo + 8 \<and>
     rd32 (mem s) (lo + 4) = PACK 16 1 \<and> rd32 (mem s) (lo + 16) = PACK 16 1 \<and>
     chain (mem s) (lo + 24) bs \<and> mem_brk s = lo + 24 + len bs \<and> mem_brk s \<le> hi \<and>
     rd32 (mem s) (lo + 20 + len bs) = PACK 0 1 \<and>
     dll (mem s) 0 fl (lo + 8) \<and> root_bp s = hd (fl @ [lo + 8]) \<and>
     distinct fl \<and> set fl \<subseteq> set (frees (lo + 24) bs) \<and>
     (\<forall>x. x < lo \<or> hi \<le> x \<longrightarrow> mem s x = g x)"

text \<open>The part of \<open>core\<close> that does not mention the free list.\<close>

definition shape :: "nat \<Rightarrow> nat \<Rightarrow> mem \<Rightarrow> mm \<Rightarrow> block list \<Rightarrow> bool" where
  "shape lo hi g s bs \<longleftrightarrow>
     8 dvd lo \<and> 0 < lo \<and> hi < MINUS1 \<and>
     mem_start_brk s = lo \<and> mem_max_addr s = hi \<and> prol_bp s = lo + 8 \<and>
     rd32 (mem s) (lo + 4) = PACK 16 1 \<and> rd32 (mem s) (lo + 16) = PACK 16 1 \<and>
     chain (mem s) (lo + 24) bs \<and> mem_brk s = lo + 24 + len bs \<and> mem_brk s \<le> hi \<and>
     rd32 (mem s) (lo + 20 + len bs) = PACK 0 1 \<and>
     (\<forall>x. x < lo \<or> hi \<le> x \<longrightarrow> mem s x = g x)"

lemma core_shape:
  "core lo hi g s bs fl \<longleftrightarrow>
     shape lo hi g s bs \<and> dll (mem s) 0 fl (lo + 8) \<and> root_bp s = hd (fl @ [lo + 8]) \<and>
     distinct fl \<and> set fl \<subseteq> set (frees (lo + 24) bs)"
  unfolding core_def shape_def by blast

lemmas core_imp_shape = core_shape [THEN iffD1, THEN conjunct1]

definition inv :: "nat \<Rightarrow> nat \<Rightarrow> mem \<Rightarrow> mm \<Rightarrow> block list \<Rightarrow> nat list \<Rightarrow> bool" where
  "inv lo hi g s bs fl \<longleftrightarrow>
     core lo hi g s bs fl \<and> set fl = set (frees (lo + 24) bs) \<and> noadj bs"

section \<open>Reading tags\<close>

lemma shape_tagged: "shape lo hi g s bs \<longleftrightarrow> tagged 16 lo hi g s bs \<and> prol_bp s = lo + 8"
  by (auto simp: shape_def tagged_def)

lemma prologue_end: "8 + 16 = (24 :: nat)" "4 + 16 = (20 :: nat)"
  by simp_all

lemmas shape_imp_tagged = shape_tagged [THEN iffD1, THEN conjunct1]
lemmas shape_bounds = tagged_bounds [where k = 16, unfolded prologue_end, OF shape_imp_tagged]
lemmas shape_blk = tagged_blk [where k = 16, unfolded prologue_end, OF shape_imp_tagged]
lemmas shape_prev = tagged_prev [where k = 16, unfolded prologue_end, OF shape_imp_tagged]
lemmas shape_next = tagged_next [where k = 16, unfolded prologue_end, OF shape_imp_tagged]

lemmas core_bounds = shape_bounds [OF core_imp_shape]
lemmas core_blk = shape_blk [OF core_imp_shape]
lemmas core_prev = shape_prev [OF core_imp_shape]
lemmas core_next = shape_next [OF core_imp_shape]

section \<open>Changing a segment of blocks\<close>

lemma frees_disjoint:
  assumes "chain m p (xs @ mid @ ys)" and "a \<in> set (frees p (xs @ mid @ ys))"
    and "a \<notin> set (frees (p + len xs) mid)"
  shows "a + 16 \<le> p + len xs \<or> p + len xs + len mid \<le> a"
  using assms frees_bounds [of m p xs a] frees_bounds [of m "p + len xs + len mid" ys a] by auto

lemma core_replace:
  assumes c: "core lo hi g s (xs @ mid @ ys) fl"
    and q: "q = lo + 24 + len xs"
    and fl: "set fl \<inter> set (frees q mid) = {}"
    and m: "\<And>x. x < q - 4 \<or> q + len mid - 4 \<le> x \<Longrightarrow> m' x = mem s x"
    and mid': "chain m' q mid'" "len mid' = len mid"
  shows "core lo hi g (s\<lparr>mem := m'\<rparr>) (xs @ mid' @ ys) fl"
proof -
  from c have ch: "chain (mem s) (lo + 24) (xs @ mid @ ys)" and d: "dll (mem s) 0 fl (lo + 8)"
    and f: "set fl \<subseteq> set (frees (lo + 24) (xs @ mid @ ys))" "distinct fl" "root_bp s = hd (fl @ [lo + 8])"
    and sh: "shape lo hi g s (xs @ mid @ ys)"
    unfolding core_shape shape_def by blast+
  have "tagged 16 lo hi g (s\<lparr>mem := m'\<rparr>) (xs @ mid' @ ys)"
    by (rule tagged_replace [OF shape_imp_tagged [OF sh] _ m mid']) (use q in auto)
  then have "shape lo hi g (s\<lparr>mem := m'\<rparr>) (xs @ mid' @ ys)" using sh by (simp add: shape_tagged)
  moreover have same: "rd32 m' a = rd32 (mem s) a" if "a + 4 \<le> q - 4 \<or> q + len mid - 4 \<le> a" for a
    by (rule rd32_cong, rule m) (use that in auto)
  have far: "a + 16 \<le> q \<or> q + len mid \<le> a" if "a \<in> set fl" for a
    using frees_disjoint [OF ch, of a] that f fl q by auto
  have "dll m' 0 fl (lo + 8)"
    by (rule dll_cong [OF d]) (use same far q in fastforce)+
  moreover have "set fl \<subseteq> set (frees (lo + 24) (xs @ mid' @ ys))"
    using f fl q mid'(2) by auto
  ultimately show ?thesis using f by (simp add: core_shape)
qed

end
