(* ===== verification/MmOps.thy ===== *)
theory MmOps
  imports MmInv
begin

text \<open>
  What the internal functions of \<open>mm.c\<close> do to a heap: \<open>set_root\<close> and \<open>cut_out\<close> change the
  free list only, \<open>coalesce\<close> followed by \<open>set_root\<close> turns a freed block into a free block of
  a heap that satisfies the invariant again, \<open>place\<close> allocates on a listed block,
  \<open>extend_heap\<close> grows the heap, and \<open>find_fit\<close> ends with the first block that is large enough.
\<close>

section \<open>Link words\<close>

lemma shape_root [simp]: "shape lo hi g (s\<lparr>root_bp := r\<rparr>) bs = shape lo hi g s bs"
  by (simp add: shape_def)

lemma shape_link:
  assumes s: "shape lo hi g s bs"
    and w: "w = lo + 12 \<or> (\<exists>a \<in> set (frees (lo + 24) bs). w = a \<or> w = a + 4)"
  shows "shape lo hi g (PUT w v s) bs"
proof -
  let ?m = "wr32 (mem s) w v"
  from s have ch: "chain (mem s) (lo + 24) bs" by (simp add: shape_def)
  from s have lo: "8 dvd lo" by (simp add: shape_def)
  have loc: "w = lo + 12 \<or> lo + 24 \<le> w \<and> w + 12 \<le> lo + 24 + len bs \<and> 4 dvd w"
  proof (cases "w = lo + 12")
    case False
    with w obtain a where a: "a \<in> set (frees (lo + 24) bs)" "w = a \<or> w = a + 4" by blast
    have "8 dvd lo + 24" using lo by (simp add: dvd_add)
    from frees_aligned [OF ch this a(1)] frees_bounds [OF ch a(1)] a(2) show ?thesis by auto
  qed simp
  have chain: "chain ?m (lo + 24) bs"
  proof (cases "w = lo + 12")
    case True
    show ?thesis by (rule chain_cong [OF ch]) (use True in \<open>auto simp: wr32_outside\<close>)
  next
    case False
    with w obtain a where a: "a \<in> set (frees (lo + 24) bs)" "w = a \<or> w = a + 4" by blast
    show ?thesis
      by (rule chain_links [OF ch _ a(1)]) (use a(2) in \<open>auto simp: wr32_outside\<close>)
  qed
  have same: "rd32 ?m x = rd32 (mem s) x" if "x = lo + 4 \<or> x = lo + 16 \<or> x = lo + 20 + len bs" for x
    by (rule rd32_wr32_far) (use that loc in auto)
  have out: "?m x = mem s x" if "x < lo \<or> hi \<le> x" for x
    by (rule wr32_outside) (use that loc s in \<open>auto simp: shape_def\<close>)
  show ?thesis
    using s chain same out by (simp add: shape_def PUT_def)
qed

lemma core_aligned:
  assumes "core lo hi g s bs fl"
  shows "\<forall>a\<in>set fl. 8 dvd a" "8 dvd lo + 8" "lo + 8 \<notin> set fl" "\<forall>a\<in>set fl. lo + 24 \<le> a \<and> a < 2 ^ 32"
proof -
  from assms have ch: "chain (mem s) (lo + 24) bs" and lo: "8 dvd lo"
    and sub: "set fl \<subseteq> set (frees (lo + 24) bs)"
    and hi: "lo + 24 + len bs \<le> hi" "hi < 2 ^ 32 - 1" by (auto simp: core_def MINUS1_def)
  from lo have lo24: "8 dvd lo + 24" by (simp add: dvd_add)
  show "\<forall>a\<in>set fl. 8 dvd a" using frees_aligned [OF ch lo24] sub by blast
  show "8 dvd lo + 8" using lo by (simp add: dvd_add)
  show b: "\<forall>a\<in>set fl. lo + 24 \<le> a \<and> a < 2 ^ 32" using frees_bounds [OF ch] sub hi by fastforce
  then show "lo + 8 \<notin> set fl" by fastforce
qed

lemma unat_addr: "a < 2 ^ 32 \<Longrightarrow> unat (of_nat a :: u32) = a"
  by (simp add: unat_of_nat)

text \<open>Reading the links of a listed block.\<close>

lemma core_links:
  assumes c: "core lo hi g s (bs :: block list) (xs @ a # ys)"
  shows "NEXT_FREEBLKP s a = hd (ys @ [lo + 8])"
    "xs \<noteq> [] \<Longrightarrow> PREV_FREEBLKP s a = last xs"
    "GET s (SUCCP a) = of_nat (hd (ys @ [lo + 8]))"
    "GET s (PREDP a) = of_nat (last (0 # xs))"
    "lo + 8 < 2 ^ 32"
proof -
  note al = core_aligned [OF c]
  from c have "dll (mem s) 0 (xs @ a # ys) (lo + 8)" by (simp add: core_def)
  then have r: "rd32 (mem s) (a + 4) = of_nat (last (0 # xs))" "rd32 (mem s) a = of_nat (hd (ys @ [lo + 8]))"
    by (simp_all add: dll_append)
  then show "GET s (SUCCP a) = of_nat (hd (ys @ [lo + 8]))" "GET s (PREDP a) = of_nat (last (0 # xs))"
    by (simp_all add: GET_def link_macros sizes)
  show lo: "lo + 8 < 2 ^ 32" using c by (simp add: core_def MINUS1_def)
  have "hd (ys @ [lo + 8]) < 2 ^ 32" using al(4) lo by (cases ys) auto
  then show "NEXT_FREEBLKP s a = hd (ys @ [lo + 8])"
    using r(2) by (simp add: GET_def link_macros unat_of_nat)
  assume "xs \<noteq> []"
  then have "last xs \<in> set (xs @ a # ys)" by simp
  with al(4) have "last xs < 2 ^ 32" by blast
  then show "PREV_FREEBLKP s a = last xs"
    using r(1) \<open>xs \<noteq> []\<close> by (simp add: GET_def link_macros sizes unat_of_nat)
qed

section \<open>set\_root and cut\_out\<close>

lemma set_root_shape:
  assumes sh: "shape lo hi g s bs" and root: "root_bp s = hd (fl @ [lo + 8])"
    and d: "fl \<noteq> [] \<Longrightarrow> dll (mem s) 0 fl (lo + 8)" and di: "distinct fl"
    and sub: "set fl \<subseteq> set (frees (lo + 24) bs)"
    and a: "a \<in> set (frees (lo + 24) bs)" and na: "a \<notin> set fl"
  obtains s' where "set_root a s = (a, s')" "core lo hi g s' bs (a # fl)"
proof
  let ?r = "hd (fl @ [lo + 8])"
  let ?s' = "(PUT (PREDP a) 0 (PUT (SUCCP a) (of_nat ?r) (PUT (PREDP ?r) (of_nat a) s)))\<lparr>root_bp := a\<rparr>"
  from sh have ch: "chain (mem s) (lo + 24) bs" and lo: "8 dvd lo + 24" "8 dvd lo + 8"
    by (auto simp: shape_def dvd_add)
  note al = frees_aligned [OF ch lo(1)] and fb = frees_bounds [OF ch]
  from fb [OF a] have "lo + 24 \<le> a" by simp
  then have ne: "a \<noteq> ?r" "a \<noteq> lo + 8" using na by (cases fl, auto)
  show "set_root a s = (a, ?s')"
    using ne(1) root by (simp add: set_root_def Let_def PUT_def)
  have "?r = lo + 8 \<or> ?r \<in> set (frees (lo + 24) bs)" using sub by (cases fl) auto
  then have "shape lo hi g ?s' bs"
    unfolding shape_root using sh a by (intro shape_link) (auto simp: link_macros sizes)
  moreover have "lo + 8 \<notin> set fl" using fb sub by fastforce
  then have "dll (mem ?s') 0 (a # fl) (lo + 8)"
    using dll_push [OF d _ lo(2) al [OF a] di _ na ne(2)] al sub
    by (simp add: PUT_def link_macros sizes subset_iff)
  ultimately show "core lo hi g ?s' bs (a # fl)"
    using di sub a na by (simp add: core_shape)
qed

lemma set_root_core:
  assumes c: "core lo hi g s bs fl" and a: "a \<in> set (frees (lo + 24) bs)" and na: "a \<notin> set fl"
  obtains s' where "set_root a s = (a, s')" "core lo hi g s' bs (a # fl)"
proof (rule set_root_shape [OF core_imp_shape [OF c] _ _ _ _ a na])
  show "root_bp s = hd (fl @ [lo + 8])" "dll (mem s) 0 fl (lo + 8)" "distinct fl"
    "set fl \<subseteq> set (frees (lo + 24) bs)" using c by (simp_all add: core_def)
qed (rule that)

lemma cut_out_core:
  assumes c: "core lo hi g s bs (xs @ a # ys)"
  obtains s' where "cut_out a s = s'" "core lo hi g s' bs (xs @ ys)"
proof
  note al = core_aligned [OF c] and l = core_links [OF c]
  let ?n = "hd (ys @ [lo + 8])"
  from c have sub: "set (xs @ a # ys) \<subseteq> set (frees (lo + 24) bs)" and sh: "shape lo hi g s bs"
    and d: "dll (mem s) 0 (xs @ a # ys) (lo + 8)" and root: "root_bp s = hd (xs @ a # ys @ [lo + 8])"
    and di: "distinct (xs @ a # ys)"
    by (auto simp: core_shape)
  have n: "?n = lo + 8 \<or> ?n \<in> set (frees (lo + 24) bs)" using sub by (cases ys) auto
  show "core lo hi g (cut_out a s) bs (xs @ ys)"
  proof (cases xs rule: rev_cases)
    case Nil
    let ?s' = "(PUT (?n + 4) 0 s)\<lparr>root_bp := ?n\<rparr>"
    have s': "cut_out a s = ?s'"
      using root l(1) Nil by (simp add: cut_out_def Let_def PUT_def PREDP_def sizes)
    have "shape lo hi g ?s' bs"
      unfolding shape_root by (rule shape_link [OF sh]) (use n in auto)
    moreover have "dll (mem ?s') 0 ys (lo + 8)"
      using dll_pop [of "mem s" a ys "lo + 8"] d al di Nil by (simp add: PUT_def)
    ultimately show ?thesis using di sub Nil by (simp add: core_shape s')
  next
    case (snoc zs b)
    let ?s' = "PUT (?n + 4) (of_nat b) (PUT b (of_nat ?n) s)"
    have ne: "a \<noteq> root_bp s" using root di by (cases zs) (auto simp: snoc)
    have b: "b \<in> set (frees (lo + 24) bs)" using sub by (simp add: snoc)
    have 8: "8 dvd a" "8 dvd b" "8 dvd lo + 8" "a \<noteq> b" using al(1,2) di by (auto simp: snoc)
    have get: "GET (PUT b v s) a = GET s a" "GET (PUT b v s) (a + 4) = GET s (a + 4)" for v
      using 8 link_words_differ [of a b] by (auto simp: GET_PUT)
    have s': "cut_out a s = ?s'"
      using ne l(2,3,4) snoc l(1) get
      by (simp add: cut_out_def Let_def NEXT_FREEBLKP_def SUCCP_def PREDP_def sizes)
    have "shape lo hi g ?s' bs"
      by (intro shape_link sh) (use n b in auto)
    moreover have "dll (mem ?s') 0 (xs @ ys) (lo + 8)"
      using dll_unlink [of "mem s" zs b a ys "lo + 8"] d al di by (simp add: snoc PUT_def)
    moreover have "root_bp ?s' = hd ((xs @ ys) @ [lo + 8])"
      using root by (simp add: PUT_def snoc hd_append)
    ultimately show ?thesis using di sub by (simp add: core_shape s')
  qed
qed simp

section \<open>coalesce\<close>

lemma core_merge:
  assumes c: "core lo hi g s (xs @ mid @ ys) fl" and p: "p = lo + 24 + len xs"
    and fl: "set fl \<inter> set (frees p mid) = {}" and ne: "mid \<noteq> []"
  shows "core lo hi g (s\<lparr>mem := tags p (len mid) 0 (mem s)\<rparr>) (xs @ (len mid, Free) # ys) fl"
proof -
  from c have ch: "chain (mem s) (lo + 24) (xs @ mid @ ys)" and lo: "8 dvd lo" by (auto simp: core_def)
  then have 8: "8 dvd len xs" "8 dvd len mid" using len_dvd by auto
  have 16: "16 \<le> len mid"
    using ne chain_sizes(1) [OF ch, of "hd mid"] by (cases mid) auto
  have "8 dvd p" using lo 8(1) p by (simp add: dvd_add)
  then have "core lo hi g (s\<lparr>mem := tags p (len mid) 0 (mem s)\<rparr>) (xs @ [(len mid, Free)] @ ys) fl"
    by (intro core_replace [OF c p fl]) (use 8 16 p in \<open>auto simp: tags_outside tags_free\<close>)
  then show ?thesis by simp
qed

lemma noadj_last: "noadj (xs @ [b]) \<Longrightarrow> noadj xs \<and> (xs = [] \<or> snd (last xs) \<noteq> Free \<or> snd b \<noteq> Free)"
  by (simp add: noadj_append)

text \<open>The result of a coalescing step: a free block at \<open>q'\<close> that is not on the list yet.\<close>

definition freed :: "nat \<Rightarrow> nat \<Rightarrow> mem \<Rightarrow> mm \<Rightarrow> block list \<Rightarrow> nat list \<Rightarrow> nat \<Rightarrow> nat \<Rightarrow> bool" where
  "freed lo hi g s bs fl q sz \<longleftrightarrow>
     core lo hi g s bs fl \<and> q \<notin> set fl \<and> set (frees (lo + 24) bs) = insert q (set fl) \<and> noadj bs \<and>
     (\<exists>xs sz' ys. bs = xs @ (sz', Free) # ys \<and> q = lo + 24 + len xs \<and> sz \<le> sz')"

lemma freedI:
  assumes "core lo hi g s (xs @ (sz', Free) # ys) fl" and "q = lo + 24 + len xs" and "q \<notin> set fl"
    and "set (frees (lo + 24) (xs @ (sz', Free) # ys)) = insert q (set fl)"
    and "noadj xs" and "noadj ys" and "sz \<le> sz'"
    and "xs = [] \<or> snd (last xs) \<noteq> Free" and "ys = [] \<or> snd (hd ys) \<noteq> Free"
  shows "freed lo hi g s (xs @ (sz', Free) # ys) fl q sz"
  using assms unfolding freed_def by (auto simp: noadj_append noadj_Cons)

lemma shape_coalesce_none:
  assumes c: "shape lo hi g s (xs @ (sz, Free) # ys)" and q: "q = lo + 24 + len xs"
    and "xs = [] \<or> snd (last xs) \<noteq> Free" and "ys = [] \<or> snd (hd ys) \<noteq> Free"
  shows "coalesce q s = (q, s)"
proof -
  have "prev_bit xs \<noteq> 0" "next_bit ys \<noteq> 0"
    using assms(3,4) by (auto simp: prev_bit_def next_bit_def)
  then show ?thesis
    using shape_prev [OF c q] shape_next [OF c q] by (simp add: coalesce_def)
qed

lemmas coalesce_none = shape_coalesce_none [OF core_imp_shape]

lemma coalesce_next:
  assumes c: "core lo hi g s (xs @ (sz, Free) # (n, Free) # ys) fl" and q: "q = lo + 24 + len xs"
    and prev: "xs = [] \<or> snd (last xs) \<noteq> Free"
    and fl: "fl = f1 @ (q + sz) # f2" and nq: "q \<notin> set fl"
  shows "\<exists>s'. coalesce q s = (q, s') \<and> core lo hi g s' (xs @ (sz + n, Free) # ys) (f1 @ f2)"
proof -
  have "prev_bit xs \<noteq> 0" using prev by (auto simp: prev_bit_def)
  then have bits: "GET_ALLOC s (FTRP s (PREV_BLKP s q)) \<noteq> 0" "GET_ALLOC s (HDRP (NEXT_BLKP s q)) = 0"
    using core_prev [OF c q] core_next [OF c q] by (simp_all add: next_bit_def)
  obtain s1 where s1: "cut_out (q + sz) s = s1" and c1: "core lo hi g s1 (xs @ (sz, Free) # (n, Free) # ys) (f1 @ f2)"
    by (rule cut_out_core [OF c [unfolded fl]])
  from c1 have c1': "core lo hi g s1 ((xs @ [(sz, Free)]) @ (n, Free) # ys) (f1 @ f2)" by simp
  note b = core_bounds [OF c1] and b' = core_bounds [OF c1']
  have n: "NEXT_BLKP s q = q + sz" "GET_SIZE s (HDRP q) = sz" "NEXT_BLKP s1 q = q + sz"
    using core_blk [OF c q] core_blk [OF c1 q] by auto
  have "GET_SIZE s1 (FTRP s1 (q + sz)) = n"
    using core_blk(4,5) [OF c1', of "q + sz"] q by simp
  moreover have "wrap32 (sz + n) = sz + n" using b b' by simp
  moreover have "PUT (FTRP (PUT (HDRP q) (PACK (sz + n) 0) s1) q) (PACK (sz + n) 0)
      (PUT (HDRP q) (PACK (sz + n) 0) s1) = s1\<lparr>mem := tags q (sz + n) 0 (mem s1)\<rparr>"
    by (rule put_tags) (use b b' in auto)
  ultimately have eq: "coalesce q s = (q, s1\<lparr>mem := tags q (sz + n) 0 (mem s1)\<rparr>)"
    using bits n s1 by (simp add: coalesce_def Let_def)
  have di: "distinct fl" using c by (simp add: core_def)
  have "core lo hi g (s1\<lparr>mem := tags q (len [(sz, Free), (n, Free)]) 0 (mem s1)\<rparr>)
      (xs @ (len [(sz, Free), (n, Free)], Free) # ys) (f1 @ f2)"
    by (rule core_merge [OF _ q]) (use c1 di fl nq in auto)
  then show ?thesis using eq by simp
qed

lemma coalesce_prev:
  assumes c: "core lo hi g s (xs @ (k, Free) # (sz, Free) # ys) fl" and p: "p = lo + 24 + len xs"
    and nxt: "ys = [] \<or> snd (hd ys) \<noteq> Free"
    and fl: "fl = f1 @ p # f2" and nq: "p + k \<notin> set fl"
  shows "\<exists>s'. coalesce (p + k) s = (p, s') \<and> core lo hi g s' (xs @ (k + sz, Free) # ys) (f1 @ f2)"
proof -
  let ?q = "p + k"
  have q: "?q = lo + 24 + len (xs @ [(k, Free)])" by (simp add: p)
  from c have cq: "core lo hi g s ((xs @ [(k, Free)]) @ (sz, Free) # ys) fl" by simp
  have "next_bit ys \<noteq> 0" using nxt by (auto simp: next_bit_def)
  then have bits: "GET_ALLOC s (FTRP s (PREV_BLKP s ?q)) = 0" "GET_ALLOC s (HDRP (NEXT_BLKP s ?q)) \<noteq> 0"
    using core_prev [OF cq q] core_next [OF cq q] by (simp_all add: prev_bit_def)
  obtain s1 where s1: "cut_out p s = s1" and c1: "core lo hi g s1 (xs @ (k, Free) # (sz, Free) # ys) (f1 @ f2)"
    by (rule cut_out_core [OF c [unfolded fl]])
  from c1 have c1': "core lo hi g s1 ((xs @ [(k, Free)]) @ (sz, Free) # ys) (f1 @ f2)" by simp
  note b = core_bounds [OF c1] and b' = core_bounds [OF c1']
  have prev: "PREV_BLKP s ?q = p" "PREV_BLKP s1 ?q = p"
    using core_prev(1) [OF cq q] core_prev(1) [OF c1' q] by (auto simp: before_def)
  have sz: "GET_SIZE s (HDRP ?q) = sz" "GET_SIZE s1 (HDRP p) = k" "FTRP s1 ?q = ?q + sz - 8"
    "GET_SIZE s1 (?q - 8) = k"
    using core_blk [OF cq q] core_blk [OF c1 p] core_blk [OF c1' q] by auto
  have al: "4 dvd ?q + sz - 8" "4 dvd p - 4" "4 dvd ?q - 8" "4 dvd ?q" "8 \<le> p"
  proof -
    from b b' obtain i j k' l where "lo = 8 * i" "len xs = 8 * j" "k = 8 * k'" "sz = 8 * l" "2 \<le> l" "2 \<le> k'"
      by (auto elim!: dvdE)
    then show "4 dvd ?q + sz - 8" "4 dvd p - 4" "4 dvd ?q - 8" "4 dvd ?q" "8 \<le> p"
      unfolding p by presburger+
  qed
  let ?P = "PACK (k + sz) 0"
  let ?s2 = "PUT (?q + sz - 8) ?P s1"
  let ?s3 = "PUT (p - 4) ?P ?s2"
  have "GET_SIZE ?s2 (?q - 8) = k" "GET_SIZE ?s3 (?q - 8) = k"
    using sz(4) al b b' by (simp_all add: GET_SIZE_PUT)
  then have prev2: "PREV_BLKP ?s2 ?q = p" "PREV_BLKP ?s3 ?q = p"
    by (simp_all add: PREV_BLKP_def sizes)
  moreover have "wrap32 (sz + k) = k + sz" using b b' by simp
  ultimately have eq: "coalesce ?q s = (p, ?s3)"
    using bits prev sz s1 by (simp add: coalesce_def Let_def HDRP_def sizes)
  have apart: "p - 4 + 4 \<le> ?q + sz - 8" using b(1) b'(1) al(5) by linarith
  have "?s3 = s1\<lparr>mem := tags p (k + sz) 0 (mem s1)\<rparr>"
    unfolding PUT_def tags_def
    using wr32_commute [OF disjI1 [OF apart], of "mem s1" ?P ?P] by (simp add: add.assoc)
  moreover have "core lo hi g (s1\<lparr>mem := tags p (len [(k, Free), (sz, Free)]) 0 (mem s1)\<rparr>)
      (xs @ (len [(k, Free), (sz, Free)], Free) # ys) (f1 @ f2)"
    by (rule core_merge [OF _ p]) (use c1 fl nq c in \<open>auto simp: core_def\<close>)
  ultimately show ?thesis using eq by simp
qed

lemma coalesce_both:
  assumes c: "core lo hi g s (xs @ (k, Free) # (sz, Free) # (n, Free) # ys) fl"
    and p: "p = lo + 24 + len xs"
    and fl: "p \<in> set fl" "p + k + sz \<in> set fl" and nq: "p + k \<notin> set fl"
  shows "\<exists>s' fl'. coalesce (p + k) s = (p, s') \<and> core lo hi g s' (xs @ (k + sz + n, Free) # ys) fl' \<and>
     set fl' = set fl - {p, p + k + sz}"
proof -
  let ?q = "p + k" and ?bs = "xs @ (k, Free) # (sz, Free) # (n, Free) # ys"
  have q: "?q = lo + 24 + len (xs @ [(k, Free)])" and r: "?q + sz = lo + 24 + len (xs @ [(k, Free), (sz, Free)])"
    by (simp_all add: p)
  have cs: "core lo hi g t ((xs @ [(k, Free)]) @ (sz, Free) # (n, Free) # ys) f"
    "core lo hi g t ((xs @ [(k, Free), (sz, Free)]) @ (n, Free) # ys) f"
    if "core lo hi g t ?bs f" for t f using that by simp_all
  from c have di: "distinct fl" by (simp add: core_def)
  note b = core_bounds [OF c] core_bounds [OF cs(1) [OF c]] core_bounds [OF cs(2) [OF c]]
  have bits: "GET_ALLOC s (FTRP s (PREV_BLKP s ?q)) = 0" "GET_ALLOC s (HDRP (NEXT_BLKP s ?q)) = 0"
    using core_prev [OF cs(1) [OF c] q] core_next [OF cs(1) [OF c] q]
    by (simp_all add: prev_bit_def next_bit_def)
  obtain f1 f2 where f: "fl = f1 @ p # f2" using fl(1) by (meson split_list)
  obtain s1 where s1: "cut_out p s = s1" and c1: "core lo hi g s1 ?bs (f1 @ f2)"
    by (rule cut_out_core [OF c [unfolded f]])
  have "p + k + sz \<in> set (f1 @ f2)" using fl(2) f b by auto
  then obtain h1 h2 where h: "f1 @ f2 = h1 @ (?q + sz) # h2" by (meson split_list)
  obtain s2 where s2: "cut_out (?q + sz) s1 = s2" and c2: "core lo hi g s2 ?bs (h1 @ h2)"
    by (rule cut_out_core [OF c1 [unfolded h]])
  have di2: "distinct (h1 @ (?q + sz) # h2)" unfolding h [symmetric] using di f by simp
  have sets: "set (h1 @ h2) = set fl - {p, p + k + sz}"
  proof -
    have "set (f1 @ f2) = set fl - {p}" using di f by auto
    moreover have "set (h1 @ h2) = set (f1 @ f2) - {?q + sz}" using di2 h by auto
    ultimately show ?thesis by auto
  qed
  have rd: "PREV_BLKP s ?q = p" "GET_SIZE s (HDRP ?q) = sz" "NEXT_BLKP s1 ?q = ?q + sz"
    "PREV_BLKP s2 ?q = p" "NEXT_BLKP s2 ?q = ?q + sz" "GET_SIZE s2 (HDRP p) = k"
    "GET_SIZE s2 (FTRP s2 (?q + sz)) = n" "GET_SIZE s2 (?q - 8) = k" "GET_SIZE s2 (?q - 4) = sz"
    "GET_SIZE s2 (?q + sz - 4) = n"
    using core_prev(1) [OF cs(1) [OF c] q] core_prev(1,4) [OF cs(1) [OF c2] q]
      core_blk(1,3) [OF cs(1) [OF c] q] core_blk(1,3) [OF cs(1) [OF c1] q] core_blk(1,3) [OF cs(1) [OF c2] q]
      core_blk(1) [OF c2 p] core_blk(1,4,5) [OF cs(2) [OF c2] r]
    by (auto simp: before_def HDRP_def sizes)
  have al: "4 dvd p - 4" "4 dvd ?q - 8" "4 dvd ?q - 4" "4 dvd ?q + sz - 4" "4 dvd ?q + sz + n - 8" "8 \<le> p" "8 dvd p"
    and s16: "16 \<le> k" "16 \<le> sz" "16 \<le> n" and d8: "8 dvd k + sz + n" and lt: "k + sz + n < 2 ^ 32"
  proof -
    from b obtain i j k' l n' where "lo = 8 * i" "len xs = 8 * j" "k = 8 * k'" "sz = 8 * l" "n = 8 * n'" "2 \<le> l" "2 \<le> k'" "2 \<le> n'"
      by (auto elim!: dvdE)
    then show "4 dvd p - 4" "4 dvd ?q - 8" "4 dvd ?q - 4" "4 dvd ?q + sz - 4" "4 dvd ?q + sz + n - 8" "8 \<le> p" "8 dvd p"
      "16 \<le> k" "16 \<le> sz" "16 \<le> n" "8 dvd k + sz + n"
      unfolding p by presburger+
    show "k + sz + n < 2 ^ 32" using b by simp
  qed
  let ?P = "PACK (k + sz + n) 0"
  let ?s3 = "PUT (p - 4) ?P s2"
  let ?s4 = "PUT (?q + sz + n - 8) ?P ?s3"
  have "GET_SIZE ?s3 (?q - 4) = sz" "GET_SIZE ?s3 (?q + sz - 4) = n"
    using rd al s16 by (simp_all add: GET_SIZE_PUT)
  then have ft: "FTRP ?s3 (NEXT_BLKP ?s3 ?q) = ?q + sz + n - 8"
    by (simp add: macros sizes)
  have "GET_SIZE ?s4 (?q - 8) = k"
    using rd al s16 by (simp add: GET_SIZE_PUT)
  then have pv: "PREV_BLKP ?s4 ?q = p" by (simp add: PREV_BLKP_def sizes)
  have "wrap32 (sz + (k + n)) = k + sz + n" using lt by (simp add: add.commute add.left_commute)
  then have eq: "coalesce ?q s = (p, ?s4)"
    using bits rd s1 s2 ft pv by (simp add: coalesce_def Let_def HDRP_def sizes)
  have s4: "?s4 = s2\<lparr>mem := tags p (k + sz + n) 0 (mem s2)\<rparr>"
    unfolding PUT_def tags_def by (simp add: add.assoc)
  have "core lo hi g (s2\<lparr>mem := tags p (len [(k, Free), (sz, Free), (n, Free)]) 0 (mem s2)\<rparr>)
      (xs @ (len [(k, Free), (sz, Free), (n, Free)], Free) # ys) (h1 @ h2)"
    by (rule core_merge [OF _ p]) (use c2 sets nq in auto)
  then have "core lo hi g ?s4 (xs @ (k + sz + n, Free) # ys) (h1 @ h2)"
    unfolding s4 by (simp add: add.assoc)
  with eq sets show ?thesis by blast
qed


text \<open>All four cases: whatever \<open>coalesce\<close> merges, the live blocks stay what they were.\<close>

lemma coalesce_core:
  assumes c: "core lo hi g s (xs @ (sz, Free) # ys) fl" and q: "q = lo + 24 + len xs" and nq: "q \<notin> set fl"
    and fr: "set (frees (lo + 24) (xs @ (sz, Free) # ys)) = insert q (set fl)"
    and adj: "noadj xs" "noadj ys"
  shows "\<exists>q' s' bs' fl'. coalesce q s = (q', s') \<and> freed lo hi g s' bs' fl' q' sz \<and>
     live (lo + 24) bs' = live (lo + 24) (xs @ (sz, Free) # ys)"
proof -
  have di: "distinct fl" and fl: "set fl = set (frees (lo + 24) (xs @ (sz, Free) # ys)) - {q}"
    using c fr nq by (auto simp: core_def)
  have dfr: "distinct (frees (lo + 24) (xs @ (sz, Free) # ys))"
    by (rule distinct_frees [of "mem s"]) (use c in \<open>simp add: core_def\<close>)
  have free_last: "\<exists>zs k. xs = zs @ [(k, Free)]" if "xs \<noteq> []" "snd (last xs) = Free"
    using that by (cases xs rule: rev_cases) (auto intro: prod_eqI)
  have free_hd: "\<exists>zs k. ys = (k, Free) # zs" if "ys \<noteq> []" "snd (hd ys) = Free"
    using that by (cases ys) (auto intro: prod_eqI)
  consider (none) "xs = [] \<or> snd (last xs) \<noteq> Free" "ys = [] \<or> snd (hd ys) \<noteq> Free"
    | (nxt) n zs where "xs = [] \<or> snd (last xs) \<noteq> Free" "ys = (n, Free) # zs"
    | (prv) k zs where "xs = zs @ [(k, Free)]" "ys = [] \<or> snd (hd ys) \<noteq> Free"
    | (both) k zs n ws where "xs = zs @ [(k, Free)]" "ys = (n, Free) # ws"
    using free_last free_hd by blast
  then show ?thesis
  proof cases
    case none
    then have "freed lo hi g s (xs @ (sz, Free) # ys) fl q sz"
      using c q nq fr adj by (intro freedI) auto
    with coalesce_none [OF c q none] show ?thesis by blast
  next
    case nxt
    have "q + sz \<in> set fl" using fl dfr by (auto simp: nxt(2) q)
    then obtain f1 f2 where f: "fl = f1 @ (q + sz) # f2" by (meson split_list)
    from coalesce_next [OF c [unfolded nxt(2)] q nxt(1) f nq] obtain s'
      where s': "coalesce q s = (q, s')" "core lo hi g s' (xs @ (sz + n, Free) # zs) (f1 @ f2)" by blast
    have fl': "set (f1 @ f2) = set fl - {q + sz}" using di f by auto
    have "set (frees (lo + 24) (xs @ (sz + n, Free) # zs)) = insert q (set (f1 @ f2))"
      unfolding fl' fl using dfr by (auto simp: nxt(2) q add.assoc)
    then have "freed lo hi g s' (xs @ (sz + n, Free) # zs) (f1 @ f2) q sz"
      using s'(2) q nq fl' adj nxt by (intro freedI) (auto simp: noadj_Cons)
    moreover have "live (lo + 24) (xs @ (sz + n, Free) # zs) = live (lo + 24) (xs @ (sz, Free) # ys)"
      by (simp add: nxt add.assoc)
    ultimately show ?thesis using s'(1) by blast
  next
    case prv
    let ?p = "lo + 24 + len zs"
    have q': "q = ?p + k" by (simp add: q prv(1))
    have "?p \<in> set fl" using fl dfr by (auto simp: prv(1) q')
    then obtain f1 f2 where f: "fl = f1 @ ?p # f2" by (meson split_list)
    from c have c': "core lo hi g s (zs @ (k, Free) # (sz, Free) # ys) fl" by (simp add: prv(1))
    from coalesce_prev [OF c' refl prv(2) f] nq obtain s'
      where s': "coalesce q s = (?p, s')" "core lo hi g s' (zs @ (k + sz, Free) # ys) (f1 @ f2)"
      by (auto simp: q')
    have fl': "set (f1 @ f2) = set fl - {?p}" using di f by auto
    have "set (frees (lo + 24) (zs @ (k + sz, Free) # ys)) = insert ?p (set (f1 @ f2))"
      unfolding fl' fl using dfr by (auto simp: prv q' add.assoc)
    then have "freed lo hi g s' (zs @ (k + sz, Free) # ys) (f1 @ f2) ?p sz"
      using s'(2) fl' adj prv by (intro freedI) (auto simp: noadj_append)
    moreover have "live (lo + 24) (zs @ (k + sz, Free) # ys) = live (lo + 24) (xs @ (sz, Free) # ys)"
      by (simp add: prv add.assoc)
    ultimately show ?thesis using s'(1) by blast
  next
    case both
    let ?p = "lo + 24 + len zs"
    have q': "q = ?p + k" by (simp add: q both(1))
    have in_fl: "?p \<in> set fl" "?p + k + sz \<in> set fl"
      using fl dfr by (auto simp: both q' add.assoc)
    from c have c': "core lo hi g s (zs @ (k, Free) # (sz, Free) # (n, Free) # ws) fl"
      by (simp add: both)
    from coalesce_both [OF c' refl in_fl] nq obtain s' fl'
      where s': "coalesce q s = (?p, s')" "core lo hi g s' (zs @ (k + sz + n, Free) # ws) fl'"
        "set fl' = set fl - {?p, ?p + k + sz}"
      by (auto simp: q')
    have "set (frees (lo + 24) (zs @ (k + sz + n, Free) # ws)) = insert ?p (set fl')"
      unfolding s'(3) fl using dfr by (auto simp: both q' add.assoc)
    then have "freed lo hi g s' (zs @ (k + sz + n, Free) # ws) fl' ?p sz"
      using s'(2,3) adj both by (intro freedI) (auto simp: noadj_append noadj_Cons)
    moreover have "live (lo + 24) (zs @ (k + sz + n, Free) # ws) = live (lo + 24) (xs @ (sz, Free) # ys)"
      by (simp add: both add.assoc)
    ultimately show ?thesis using s'(1) by blast
  qed
qed

text \<open>\<open>set_root(coalesce(bp))\<close> restores the invariant.\<close>

lemma release:
  assumes "core lo hi g s (xs @ (sz, Free) # ys) fl" and "q = lo + 24 + len xs" and "q \<notin> set fl"
    and "set (frees (lo + 24) (xs @ (sz, Free) # ys)) = insert q (set fl)" and "noadj xs" "noadj ys"
  shows "\<exists>q' s1 s' bs' fl'. coalesce q s = (q', s1) \<and> set_root q' s1 = (q', s') \<and>
     inv lo hi g s' bs' fl' \<and> q' \<in> set fl' \<and>
     live (lo + 24) bs' = live (lo + 24) (xs @ (sz, Free) # ys) \<and>
     (\<exists>xs' sz' ys'. bs' = xs' @ (sz', Free) # ys' \<and> q' = lo + 24 + len xs' \<and> sz \<le> sz')"
proof -
  from coalesce_core [OF assms] obtain q' s1 bs' fl'
    where 1: "coalesce q s = (q', s1)" "freed lo hi g s1 bs' fl' q' sz"
      "live (lo + 24) bs' = live (lo + 24) (xs @ (sz, Free) # ys)" by blast
  from 1(2) have c: "core lo hi g s1 bs' fl'" "q' \<in> set (frees (lo + 24) bs')" "q' \<notin> set fl'"
    by (auto simp: freed_def)
  obtain s' where "set_root q' s1 = (q', s')" "core lo hi g s' bs' (q' # fl')"
    by (rule set_root_core [OF c])
  moreover from this 1(2) have "inv lo hi g s' bs' (q' # fl')"
    by (simp add: inv_def freed_def)
  ultimately show ?thesis
    using 1 unfolding freed_def by (metis list.set_intros(1))
qed

section \<open>Allocating on a segment\<close>

lemma core_split:
  assumes c: "core lo hi g s (xs @ mid @ ys) fl" and q: "q = lo + 24 + len xs"
    and fl: "set fl \<inter> set (frees q mid) = {}"
    and m0: "\<And>x. x < q - 4 \<or> q + len mid - 4 \<le> x \<Longrightarrow> m0 x = mem s x"
    and b: "8 dvd b" "16 \<le> b" "8 dvd r" "16 \<le> r" "len mid = b + r"
  shows "core lo hi g (s\<lparr>mem := tags (q + b) r 0 (tags q b 1 m0)\<rparr>)
           (xs @ (b, Used (bytes m0 q (b - 8))) # (r, Free) # ys) fl"
proof -
  from c have "chain (mem s) (lo + 24) (xs @ mid @ ys)" and lo: "8 dvd lo" by (auto simp: core_def)
  then have "8 dvd len xs" using len_dvd by auto
  with lo have al: "8 dvd q" "8 \<le> q" using q by (auto simp: dvd_add)
  note sp = split_segment [OF al b(1-4), where m = m0]
  have "core lo hi g (s\<lparr>mem := tags (q + b) r 0 (tags q b 1 m0)\<rparr>)
      (xs @ [(b, Used (bytes m0 q (b - 8))), (r, Free)] @ ys) fl"
    by (rule core_replace [OF c q fl _ sp(1)]) (use sp(2) m0 b(5) in auto)
  then show ?thesis by simp
qed

lemma core_alloc:
  assumes c: "core lo hi g s (xs @ (n, Free) # ys) fl" and q: "q = lo + 24 + len xs" and fl: "q \<notin> set fl"
  shows "core lo hi g (s\<lparr>mem := tags q n 1 (mem s)\<rparr>) (xs @ (n, Used (bytes (mem s) q (n - 8))) # ys) fl"
proof -
  note b = core_bounds [OF c]
  have 8: "8 dvd q" "8 \<le> q" using b q by (auto simp: dvd_add)
  from c have c': "core lo hi g s (xs @ [(n, Free)] @ ys) fl" by simp
  have t: "blk_ok (tags q n 1 (mem s)) q (n, Used (bytes (mem s) q (n - 8)))"
    by (rule tags_used) (use 8 b in auto)
  have out: "tags q n 1 (mem s) x = mem s x" if "x < q - 4 \<or> q + len [(n, Free)] - 4 \<le> x" for x
    by (rule tags_outside) (use that 8 b in auto)
  have "core lo hi g (s\<lparr>mem := tags q n 1 (mem s)\<rparr>) (xs @ [(n, Used (bytes (mem s) q (n - 8)))] @ ys) fl"
    by (rule core_replace [OF c' q _ out]) (use t fl in auto)
  then show ?thesis by simp
qed

text \<open>\<open>place\<close> on a listed block.  The payload is what the block held.\<close>

lemma place_inv:
  assumes i: "inv lo hi g s (xs @ (n, Free) # ys) fl" and q: "q = lo + 24 + len xs"
    and b: "8 dvd b" "16 \<le> b" "b \<le> n"
  shows "\<exists>bs' fl' c. inv lo hi g (place q b s) bs' fl' \<and>
     live (lo + 24) bs' = (live (lo + 24) (xs @ (n, Free) # ys))(q \<mapsto> c) \<and> b \<le> length c + 8"
proof -
  let ?bs = "xs @ (n, Free) # ys"
  from i have c: "core lo hi g s ?bs fl" and fs: "set fl = set (frees (lo + 24) ?bs)" and na: "noadj ?bs"
    by (auto simp: inv_def)
  note bd = core_bounds [OF c]
  have dfr: "distinct (frees (lo + 24) ?bs)"
    by (rule distinct_frees [of "mem s"]) (use c in \<open>simp add: core_def\<close>)
  have "q \<in> set fl" using fs q by simp
  then obtain f1 f2 where f: "fl = f1 @ q # f2" by (meson split_list)
  obtain s1 where s1: "cut_out q s = s1" and c1: "core lo hi g s1 ?bs (f1 @ f2)"
    by (rule cut_out_core [OF c [unfolded f]])
  have di: "distinct fl" using c by (simp add: core_def)
  have fl': "set (f1 @ f2) = set fl - {q}" "q \<notin> set (f1 @ f2)" using di f by auto
  have live_bs: "live (lo + 24) (xs @ (k, Used c) # zs) = (live (lo + 24) ?bs)(q \<mapsto> c)"
    if "live (q + k) zs = live (q + n) ys" for k c zs
    using that q live_None [of "mem s" "lo + 24" xs q] c
    by (auto simp: core_def map_add_def fun_eq_iff split: option.splits)
  have sz: "GET_SIZE s (HDRP q) = n" using core_blk(1) [OF c q] .
  show ?thesis
  proof (cases "n < b + 16")
    case True
    let ?c = "bytes (mem s1) q (n - 8)"
    have "place q b s = s1\<lparr>mem := tags q n 1 (mem s1)\<rparr>"
      using put_tags [of n 1 q s1] sz s1 True bd b by (simp add: place_def Let_def MIN_BSIZE_def sizes)
    moreover have "core lo hi g (s1\<lparr>mem := tags q n 1 (mem s1)\<rparr>) (xs @ (n, Used ?c) # ys) (f1 @ f2)"
      by (rule core_alloc [OF c1 q fl'(2)])
    moreover have "set (f1 @ f2) = set (frees (lo + 24) (xs @ (n, Used ?c) # ys))"
      unfolding fl' fs using dfr by (auto simp: q)
    moreover have "noadj (xs @ (n, Used ?c) # ys)" using na by (auto simp: noadj_append noadj_Cons)
    ultimately have "inv lo hi g (place q b s) (xs @ (n, Used ?c) # ys) (f1 @ f2)" by (simp add: inv_def)
    moreover have "b \<le> length ?c + 8" using b by simp
    ultimately show ?thesis using live_bs [of n ys ?c] by blast
  next
    case False
    let ?c = "bytes (mem s1) q (b - 8)" and ?r = "n - b"
    have pre: "8 dvd q" "8 \<le> q" "8 dvd ?r" "16 \<le> ?r" "b < 2 ^ 32" "?r < 2 ^ 32" "sub32 n b = ?r" "wrap32 (b + 16) = b + 16"
      using bd b q False by (auto simp: dvd_add)
    note sp = split_block_eq [OF pre(1,2) b(1,2) pre(3-6), of s1]
    let ?s2 = "split_block q b ?r s1"
    let ?bs2 = "xs @ (b, Used ?c) # (?r, Free) # ys"
    have eq: "place q b s = snd (set_root (q + b) ?s2)"
      using sp(2) sz s1 False pre by (simp add: place_def split_block_def Let_def MIN_BSIZE_def sizes)
    from c1 have c1': "core lo hi g s1 (xs @ [(n, Free)] @ ys) (f1 @ f2)" by simp
    have c2: "core lo hi g ?s2 ?bs2 (f1 @ f2)"
      unfolding sp(1) by (rule core_split [OF c1' q]) (use pre b fl' False in auto)
    have qb: "q + b = lo + 24 + len (xs @ [(b, Used ?c)])" by (simp add: q)
    have in_fr: "q + b \<in> set (frees (lo + 24) ?bs2)" using qb by simp
    have dfr2: "distinct (frees (lo + 24) ?bs2)"
      by (rule distinct_frees [of "mem ?s2"]) (use c2 in \<open>simp add: core_def\<close>)
    have fr2: "set (frees (lo + 24) ?bs2) = insert (q + b) (set (f1 @ f2))"
      unfolding fl' fs using dfr False by (auto simp: q add.assoc)
    have nin: "q + b \<notin> set (f1 @ f2)"
      unfolding fl' fs using frees_bounds [of "mem s" "lo + 24" xs] frees_bounds [of "mem s" "q + n" ys] c False b q
      by (fastforce simp: core_def add.assoc)
    obtain s' where s': "set_root (q + b) ?s2 = (q + b, s')" "core lo hi g s' ?bs2 ((q + b) # f1 @ f2)"
      by (rule set_root_core [OF c2 in_fr nin])
    have "noadj ?bs2" using na by (auto simp: noadj_append noadj_Cons)
    with s' fr2 have "inv lo hi g (place q b s) ?bs2 ((q + b) # f1 @ f2)" by (simp add: inv_def eq)
    moreover have "live (q + b) ((?r, Free) # ys) = live (q + n) ys" using b by simp
    moreover have "b \<le> length ?c + 8" by simp
    ultimately show ?thesis using live_bs [of b "(?r, Free) # ys" ?c] by blast
  qed
qed

end
