(* ===== verification/MmGrow.thy ===== *)
theory MmGrow
  imports MmOps
begin

text \<open>
  \<open>extend_heap\<close> and \<open>find_fit\<close> of \<open>mm.c\<close>: how the heap grows by a block that is
  released at once, and what the first-fit search returns.
\<close>

section \<open>Growing the heap\<close>

lemma shape_grow:
  assumes sh: "shape lo hi g s bs" and n: "8 dvd n" "16 \<le> n" "mem_brk s + n \<le> hi"
  shows "shape lo hi g (grow n s) (bs @ [(n, Free)])" and "root_bp (grow n s) = root_bp s"
    and "\<And>x. x + 4 \<le> mem_brk s - 4 \<Longrightarrow> rd32 (mem (grow n s)) x = rd32 (mem s) x"
proof -
  note gr = tagged_grow [OF shape_imp_tagged [OF sh] n]
  have "prol_bp (grow n s) = prol_bp s" and r: "root_bp (grow n s) = root_bp s"
    by (simp_all add: grow_def Let_def PUT_def)
  with gr(1) sh show "shape lo hi g (grow n s) (bs @ [(n, Free)])" by (simp add: shape_tagged)
  show "root_bp (grow n s) = root_bp s" by (rule r)
  show "rd32 (mem (grow n s)) x = rd32 (mem s) x" if "x + 4 \<le> mem_brk s - 4" for x by (rule gr(2) [OF that])
qed

lemma core_grow:
  assumes c: "core lo hi g s bs fl" and n: "8 dvd n" "16 \<le> n" "mem_brk s + n \<le> hi"
  shows "core lo hi g (grow n s) (bs @ [(n, Free)]) fl"
proof -
  note gr = shape_grow [OF core_imp_shape [OF c] n]
  from c have ch: "chain (mem s) (lo + 24) bs" and q: "mem_brk s = lo + 24 + len bs"
    and sub: "set fl \<subseteq> set (frees (lo + 24) bs)" and d: "dll (mem s) 0 fl (lo + 8)"
    by (auto simp: core_def)
  have "dll (mem (grow n s)) 0 fl (lo + 8)"
    by (rule dll_cong [OF d])
       (use frees_bounds [OF ch] sub q gr(3) in \<open>fastforce+\<close>)
  then show ?thesis using gr c by (auto simp: core_shape)
qed

lemma extend_heap_fails:
  assumes "4 * w < 2 ^ 32" and "even w" and "mem_max_addr s < 2 ^ 32 - 1"
    and "2 ^ 31 \<le> 4 * w \<or> mem_max_addr s < mem_brk s + 4 * w"
  shows "extend_heap w s = (NULL, s)"
  using assms(1,2) mem_sbrk_fails [OF assms(1,4)]
  by (simp add: extend_heap_def Let_def sizes mult.commute even_iff_mod_2_eq_zero)

lemma extend_heap_grow:
  assumes "4 * w < 2 ^ 31" and "even w" and "mem_max_addr s < MINUS1" and "mem_brk s + 4 * w \<le> mem_max_addr s"
    and "mem_brk s \<noteq> 0"
  shows "extend_heap w s = (let (q', s1) = coalesce (mem_brk s) (grow (4 * w) s) in set_root q' s1)"
proof -
  have "mem_sbrk (to_int32 (4 * w)) s = (mem_brk s, s\<lparr>mem_brk := mem_brk s + 4 * w\<rparr>)"
    by (rule mem_sbrk_ok) (use assms in auto)
  moreover have "mem_brk s \<noteq> MINUS1" using assms by simp
  ultimately show ?thesis
    using assms(1,2)
    by (simp add: extend_heap_def Let_def sizes mult.commute even_iff_mod_2_eq_zero grow_def split: prod.splits)
qed

text \<open>\<open>extend_heap\<close> either reports failure and changes nothing, or yields a listed free block
  of at least the requested size, with every live block as it was.\<close>

lemma extend_heap_inv:
  assumes i: "inv lo hi g s bs fl" and w: "even w" "16 \<le> 4 * w" "4 * w < 2 ^ 32"
  shows "(4 * w < 2 ^ 31 \<and> mem_brk s + 4 * w \<le> hi) \<or> extend_heap w s = (NULL, s)"
    and "4 * w < 2 ^ 31 \<Longrightarrow> mem_brk s + 4 * w \<le> hi \<Longrightarrow>
      \<exists>q s' xs sz ys fl'. extend_heap w s = (q, s') \<and> q = lo + 24 + len xs \<and>
        inv lo hi g s' (xs @ (sz, Free) # ys) fl' \<and> 4 * w \<le> sz \<and>
        live (lo + 24) (xs @ (sz, Free) # ys) = live (lo + 24) bs"
proof -
  from i have c: "core lo hi g s bs fl" and fs: "set fl = set (frees (lo + 24) bs)" and na: "noadj bs"
    by (auto simp: inv_def)
  from c have hi: "mem_max_addr s = hi" "hi < 2 ^ 32 - 1" and q: "mem_brk s = lo + 24 + len bs"
    and ch: "chain (mem s) (lo + 24) bs" by (auto simp: core_def MINUS1_def)
  show "(4 * w < 2 ^ 31 \<and> mem_brk s + 4 * w \<le> hi) \<or> extend_heap w s = (NULL, s)"
    using extend_heap_fails [OF w(3,1)] hi by fastforce
  assume n: "4 * w < 2 ^ 31" "mem_brk s + 4 * w \<le> hi"
  have "8 dvd 4 * w" using w(1) by auto
  from core_grow [OF c this w(2) n(2)] have c2: "core lo hi g (grow (4 * w) s) (bs @ [(4 * w, Free)]) fl" .
  have nin: "mem_brk s \<notin> set fl" using fs frees_bounds [OF ch] q by fastforce
  have fr: "set (frees (lo + 24) (bs @ [(4 * w, Free)])) = insert (mem_brk s) (set fl)"
    using fs q by auto
  from release [OF c2 q nin fr na] obtain q' s1 s' xs sz ys fl'
    where r: "coalesce (mem_brk s) (grow (4 * w) s) = (q', s1)" "set_root q' s1 = (q', s')"
      "inv lo hi g s' (xs @ (sz, Free) # ys) fl'" "q' = lo + 24 + len xs" "4 * w \<le> sz"
      "live (lo + 24) (xs @ (sz, Free) # ys) = live (lo + 24) (bs @ [(4 * w, Free)])"
    by auto
  have "extend_heap w s = (q', s')"
    using extend_heap_grow [OF n(1) w(1)] n(2) hi q r(1,2) by (simp add: MINUS1_def)
  with r show "\<exists>q s' xs sz ys fl'. extend_heap w s = (q, s') \<and> q = lo + 24 + len xs \<and>
        inv lo hi g s' (xs @ (sz, Free) # ys) fl' \<and> 4 * w \<le> sz \<and>
        live (lo + 24) (xs @ (sz, Free) # ys) = live (lo + 24) bs"
    by (auto intro!: exI)
qed

section \<open>First fit\<close>

text \<open>The search ends; it yields a listed block that is large enough, or \<open>NULL\<close> when no
  listed block is.\<close>

definition fits :: "mm \<Rightarrow> nat \<Rightarrow> nat \<Rightarrow> bool" where
  "fits s b a \<longleftrightarrow> b \<le> GET_SIZE s (HDRP a)"

lemma find_fit_from_core:
  assumes c: "core lo hi g s bs (fs @ as)"
  shows "find_fit_from (hd (as @ [lo + 8])) b s =
    Some (case dropWhile (\<lambda>a. \<not> fits s b a) as of [] \<Rightarrow> NULL | a # _ \<Rightarrow> a)"
  using c
proof (induction as arbitrary: fs)
  case Nil
  then show ?case by (simp add: core_def find_fit_from.simps)
next
  case (Cons a as)
  have "a \<noteq> prol_bp s"
    using core_aligned(3) [OF Cons.prems] Cons.prems by (auto simp: core_def)
  moreover have "NEXT_FREEBLKP s a = hd (as @ [lo + 8])"
    by (rule core_links(1) [OF Cons.prems])
  moreover have "find_fit_from (hd (as @ [lo + 8])) b s =
      Some (case dropWhile (\<lambda>a. \<not> fits s b a) as of [] \<Rightarrow> NULL | a # _ \<Rightarrow> a)"
    by (rule Cons.IH [of "fs @ [a]"]) (use Cons.prems in simp)
  ultimately show ?case by (simp add: find_fit_from.simps [of a] fits_def)
qed

lemma find_fit_core:
  assumes c: "core lo hi g s bs fl"
  shows "find_fit b s = Some (case dropWhile (\<lambda>a. \<not> fits s b a) fl of [] \<Rightarrow> NULL | a # _ \<Rightarrow> a)"
  using find_fit_from_core [of lo hi g s bs "[]" fl b] c by (simp add: find_fit_def core_def)

lemma find_fit_found:
  assumes i: "inv lo hi g s bs fl" and f: "find_fit b s = Some q" "q \<noteq> NULL"
  shows "\<exists>xs sz ys. bs = xs @ (sz, Free) # ys \<and> q = lo + 24 + len xs \<and> b \<le> sz"
proof -
  from i have c: "core lo hi g s bs fl" and fs: "set fl = set (frees (lo + 24) bs)" by (auto simp: inv_def)
  from f find_fit_core [OF c, of b] obtain r where r: "dropWhile (\<lambda>a. \<not> fits s b a) fl = q # r"
    by (cases "dropWhile (\<lambda>a. \<not> fits s b a) fl") auto
  then have "fits s b q" "q \<in> set fl"
    by (simp add: dropWhile_eq_Cons_conv, metis list.set_intros(1) set_dropWhileD)
  with fs frees_split obtain xs sz ys where x: "bs = xs @ (sz, Free) # ys" "q = lo + 24 + len xs" by blast
  from core_blk(1) [OF c [unfolded x(1)] x(2)] \<open>fits s b q\<close> have "b \<le> sz" by (simp add: fits_def)
  with x show ?thesis by blast
qed

end
