(* ===== verification/MmCorrect.thy ===== *)
theory MmCorrect
  imports MmGrow
begin

text \<open>
  The contract of \<open>mm.c\<close>: \<open>mm_rel lo hi g s L\<close> says that the state \<open>s\<close> is a heap in the
  arena \<open>lo..<hi\<close> whose live blocks are \<open>L\<close>, a map from block pointers to payloads.
  Every function of the interface is specified by what it does to \<open>L\<close>.
\<close>

definition mm_rel :: "nat \<Rightarrow> nat \<Rightarrow> mem \<Rightarrow> mm \<Rightarrow> (nat \<rightharpoonup> byte list) \<Rightarrow> bool" where
  "mm_rel lo hi g s L \<longleftrightarrow> (\<exists>bs fl. inv lo hi g s bs fl \<and> L = live (lo + 24) bs)"

lemma mm_relI: "inv lo hi g s bs fl \<Longrightarrow> live (lo + 24) bs = L \<Longrightarrow> mm_rel lo hi g s L"
  by (auto simp: mm_rel_def)

lemma inv_core: "inv lo hi g s bs fl \<Longrightarrow> core lo hi g s bs fl"
  by (simp add: inv_def)

lemma inv_chain:
  assumes "inv lo hi g s bs fl"
  shows "chain (mem s) (lo + 24) bs" "8 dvd lo + 24" "lo + 24 + len bs \<le> hi" "hi < 2 ^ 32 - 1" "0 < lo"
  using assms by (auto simp: inv_def core_def MINUS1_def dvd_add)

text \<open>Blocks that are live do not overlap, are aligned and lie in the heap.\<close>

lemma mm_rel_live:
  assumes "mm_rel lo hi g s L" and "L p = Some c"
  shows "8 dvd p" "lo + 24 \<le> p" "p + length c + 8 \<le> mem_brk s" "mem_brk s \<le> hi" "c = bytes (mem s) p (length c)"
proof -
  from assms obtain bs fl where i: "inv lo hi g s bs fl" and L: "live (lo + 24) bs p = Some c"
    by (auto simp: mm_rel_def)
  note ch = inv_chain [OF i]
  from i show "mem_brk s \<le> hi" by (simp add: inv_def core_def)
  from i have "mem_brk s = lo + 24 + len bs" by (simp add: inv_def core_def)
  with live_bounds [OF ch(1) L] live_aligned [OF ch(1,2) L]
  show "8 dvd p" "lo + 24 \<le> p" "p + length c + 8 \<le> mem_brk s" "c = bytes (mem s) p (length c)" by auto
qed

lemma mm_rel_disjoint:
  assumes "mm_rel lo hi g s L" and "L p = Some c" and "L q = Some d" and "p \<noteq> q"
  shows "q + length d \<le> p \<or> p + length c \<le> q"
  using assms live_disjoint inv_chain(1) by (fastforce simp: mm_rel_def)

lemma mm_rel_outside: "mm_rel lo hi g s L \<Longrightarrow> x < lo \<or> hi \<le> x \<Longrightarrow> mem s x = g x"
  by (auto simp: mm_rel_def inv_def core_def)

section \<open>Writing into a payload\<close>

lemma mm_rel_write:
  assumes r: "mm_rel lo hi g s L" and p: "L p = Some c"
    and m: "\<And>x. x < p \<or> p + length c \<le> x \<Longrightarrow> m' x = mem s x"
  shows "mm_rel lo hi g (s\<lparr>mem := m'\<rparr>) (L(p \<mapsto> bytes m' p (length c)))"
proof -
  from r p obtain bs fl where i: "inv lo hi g s bs fl" and L: "L = live (lo + 24) bs"
    and "live (lo + 24) bs p = Some c" by (auto simp: mm_rel_def)
  from live_split [OF this(3)] obtain xs sz ys
    where bs: "bs = xs @ (sz, Used c) # ys" and q: "p = lo + 24 + len xs" by blast
  let ?c = "bytes m' p (length c)"
  from i have c: "core lo hi g s (xs @ [(sz, Used c)] @ ys) fl" and na: "noadj (xs @ (sz, Used c) # ys)"
    and fs: "set fl = set (frees (lo + 24) (xs @ (sz, Used c) # ys))"
    by (simp_all add: inv_def bs)
  from inv_chain(1) [OF i] have ok: "blk_ok (mem s) p (sz, Used c)" by (simp add: bs q)
  then have lc: "length c = sz - 8" "16 \<le> sz" by (auto simp: blk_ok_def)
  have "rd32 m' (p - 4) = rd32 (mem s) (p - 4)" "rd32 m' (p + sz - 8) = rd32 (mem s) (p + sz - 8)"
    by (rule rd32_cong, rule m, use lc q in auto)+
  with ok lc have ok': "blk_ok m' p (sz, Used ?c)" by (simp add: blk_ok_def)
  have out: "m' x = mem s x" if "x < p - 4 \<or> p + len [(sz, Used c)] - 4 \<le> x" for x
    by (rule m) (use that lc in auto)
  have "core lo hi g (s\<lparr>mem := m'\<rparr>) (xs @ [(sz, Used ?c)] @ ys) fl"
    by (rule core_replace [OF c q _ out]) (use ok' in auto)
  then have i': "inv lo hi g (s\<lparr>mem := m'\<rparr>) (xs @ (sz, Used ?c) # ys) fl"
    using na fs by (auto simp: inv_def noadj_append noadj_Cons)
  show ?thesis
    using i' live_used [OF inv_chain(1) [OF i']] live_used [OF inv_chain(1) [OF i [unfolded bs]]]
    by (auto simp: L bs q intro!: mm_relI)
qed

section \<open>mm\_free\<close>

lemma free_inv:
  assumes i: "inv lo hi g s (xs @ (sz, Used c) # ys) fl" and q: "q = lo + 24 + len xs"
  shows "\<exists>bs' fl'. inv lo hi g (mm_free q s) bs' fl' \<and>
    live (lo + 24) bs' = (live (lo + 24) (xs @ (sz, Used c) # ys))(q := None)"
proof -
  from i have c: "core lo hi g s (xs @ [(sz, Used c)] @ ys) fl" and na: "noadj xs" "noadj ys"
    and fs: "set fl = set (frees (lo + 24) (xs @ (sz, Used c) # ys))"
    by (auto simp: inv_def noadj_append noadj_Cons)
  note ch = inv_chain [OF i]
  note bd = core_bounds [OF inv_core [OF i]]
  have 8: "8 dvd q" "8 \<le> q" using bd q by (auto simp: dvd_add)
  let ?m = "tags q sz 0 (mem s)"
  have t: "blk_ok ?m q (sz, Free)" by (rule tags_free) (use 8 bd in auto)
  have out: "?m x = mem s x" if "x < q - 4 \<or> q + len [(sz, Used c)] - 4 \<le> x" for x
    by (rule tags_outside) (use that 8 bd in auto)
  have "core lo hi g (s\<lparr>mem := ?m\<rparr>) (xs @ [(sz, Free)] @ ys) fl"
    by (rule core_replace [OF c q _ out]) (use t in auto)
  then have c1: "core lo hi g (s\<lparr>mem := ?m\<rparr>) (xs @ (sz, Free) # ys) fl" by simp
  have nin: "q \<notin> set fl"
    unfolding fs using frees_bounds [of "mem s" "lo + 24" xs q] frees_bounds [of "mem s" "q + sz" ys q] ch(1) bd q
    by (auto simp: add.assoc)
  from release [OF c1 q nin _ na] fs q obtain q' s1 s' bs' fl'
    where r: "coalesce q (s\<lparr>mem := ?m\<rparr>) = (q', s1)" "set_root q' s1 = (q', s')" "inv lo hi g s' bs' fl'"
      "live (lo + 24) bs' = live (lo + 24) (xs @ (sz, Free) # ys)" by auto
  have "GET_SIZE s (HDRP q) = sz" using core_blk(1) [OF inv_core [OF i] q] .
  then have "mm_free q s = s'"
    using put_tags [of sz 0 q s] bd 8 r(1,2) by (simp add: mm_free_def Let_def)
  moreover have "live (lo + 24) (xs @ (sz, Free) # ys) = (live (lo + 24) (xs @ (sz, Used c) # ys))(q := None)"
    using live_used [OF ch(1)] live_free_None [of "mem (s\<lparr>mem := ?m\<rparr>)" "lo + 24" xs sz ys] c1 q
    by (auto simp: fun_eq_iff core_def)
  ultimately show ?thesis using r(3,4) by metis
qed

lemma mm_free_rel:
  assumes r: "mm_rel lo hi g s L" and p: "p \<in> dom L"
  shows "mm_rel lo hi g (mm_free p s) (L(p := None))"
proof -
  from r p obtain bs fl c where i: "inv lo hi g s bs fl" and L: "L = live (lo + 24) bs"
    and "live (lo + 24) bs p = Some c" by (auto simp: mm_rel_def)
  from live_split [OF this(3)] obtain xs sz ys
    where bs: "bs = xs @ (sz, Used c) # ys" and q: "p = lo + 24 + len xs" by blast
  from free_inv [OF i [unfolded bs] q] show ?thesis by (auto simp: L bs mm_rel_def)
qed

section \<open>mm\_malloc\<close>

lemma malloc_place:
  assumes i: "inv lo hi g s bs fl" and b: "8 dvd b" "16 \<le> b" "b \<le> sz"
    and bs: "bs = xs @ (sz, Free) # ys" and q: "q = lo + 24 + len xs"
  shows "\<exists>c. q \<noteq> NULL \<and> 8 dvd q \<and> live (lo + 24) bs q = None \<and> b \<le> length c + 8 \<and>
     mm_rel lo hi g (place q b s) ((live (lo + 24) bs)(q \<mapsto> c))"
proof -
  note ch = inv_chain [OF i [unfolded bs]]
  from place_inv [OF i [unfolded bs] q b] obtain bs' fl' c
    where "inv lo hi g (place q b s) bs' fl'" "b \<le> length c + 8"
      "live (lo + 24) bs' = (live (lo + 24) (xs @ (sz, Free) # ys))(q \<mapsto> c)" by blast
  then have "b \<le> length c + 8 \<and> mm_rel lo hi g (place q b s) ((live (lo + 24) bs)(q \<mapsto> c))"
    by (auto simp: mm_rel_def bs)
  moreover have "8 dvd q" using core_bounds [OF inv_core [OF i [unfolded bs]]] q by (simp add: dvd_add)
  moreover have "live (lo + 24) bs q = None" using live_free_None [OF ch(1)] by (simp add: bs q)
  ultimately show ?thesis using q by auto
qed

lemma mm_malloc_inv:
  assumes i: "inv lo hi g s bs fl" and n: "0 < n" "n \<le> 2 ^ 32 - 16"
  shows "(mm_malloc n s = Some (NULL, s) \<and> (\<forall>sz. (sz, Free) \<in> set bs \<longrightarrow> sz < bsize_of n) \<and>
           (hi < mem_brk s + max (bsize_of n) CHUNKSIZE \<or> 2 ^ 31 \<le> bsize_of n)) \<or>
     (\<exists>p c s'. mm_malloc n s = Some (p, s') \<and> p \<noteq> NULL \<and> 8 dvd p \<and> live (lo + 24) bs p = None \<and>
        bsize_of n \<le> length c + 8 \<and> mm_rel lo hi g s' ((live (lo + 24) bs)(p \<mapsto> c)))"
proof -
  note b = bsize_of [OF n]
  let ?b = "bsize_of n"
  from i have c: "core lo hi g s bs fl" and fs: "set fl = set (frees (lo + 24) bs)" by (auto simp: inv_def)
  obtain q where q: "find_fit ?b s = Some q" using find_fit_core [OF c] by blast
  show ?thesis
  proof (cases "q = NULL")
    case False
    from find_fit_found [OF i q False] obtain xs sz ys
      where x: "bs = xs @ (sz, Free) # ys" "q = lo + 24 + len xs" "?b \<le> sz" by blast
    have "mm_malloc n s = Some (q, place q ?b s)"
      using n q False by (simp add: mm_malloc_def bsize_of_def Let_def)
    with malloc_place [OF i b(1,2) x(3,1,2)] show ?thesis by blast
  next
    case True
    define w where "w = max ?b CHUNKSIZE div WSIZE"
    have w: "4 * w = max ?b CHUNKSIZE" "even w"
      using b(1) by (auto simp: w_def sizes max_def elim!: dvdE)
    have w2: "16 \<le> 4 * w" "4 * w < 2 ^ 32" using b(2,5) w by (auto simp: CHUNKSIZE_def)
    have eq: "mm_malloc n s = (let (bp, s) = extend_heap w s in
        if bp = NULL then Some (NULL, s) else Some (bp, place bp ?b s))"
      using n q True unfolding mm_malloc_def bsize_of_def w_def max_def Let_def by simp
    show ?thesis
    proof (cases "4 * w < 2 ^ 31 \<and> mem_brk s + 4 * w \<le> hi")
      case True
      with extend_heap_inv(2) [OF i w(2) w2] obtain q s' xs sz ys fl'
        where e: "extend_heap w s = (q, s')" "q = lo + 24 + len xs" "inv lo hi g s' (xs @ (sz, Free) # ys) fl'"
          "4 * w \<le> sz" "live (lo + 24) (xs @ (sz, Free) # ys) = live (lo + 24) bs" by blast
      have "?b \<le> sz" using e(4) w by simp
      from malloc_place [OF e(3) b(1,2) this refl e(2), unfolded e(5)] obtain c
        where p: "q \<noteq> NULL" "8 dvd q" "live (lo + 24) bs q = None" "?b \<le> length c + 8"
          "mm_rel lo hi g (place q ?b s') ((live (lo + 24) bs)(q \<mapsto> c))" by blast
      then have "mm_malloc n s = Some (q, place q ?b s')" using e(1) by (simp add: eq)
      with p show ?thesis by blast
    next
      case F: False
      with extend_heap_inv(1) [OF i w(2) w2] have "mm_malloc n s = Some (NULL, s)"
        by (auto simp: eq)
      moreover have "sz < ?b" if "(sz, Free) \<in> set bs" for sz
      proof -
        from that obtain xs ys where bs: "bs = xs @ (sz, Free) # ys" by (meson split_list)
        let ?a = "lo + 24 + len xs"
        from True q find_fit_core [OF c, of ?b] core_aligned(4) [OF c]
        have "dropWhile (\<lambda>a. \<not> fits s ?b a) fl = []"
          by (auto split: list.splits) (metis dropWhile_eq_Cons_conv list.set_intros(1) not_less_eq_eq set_dropWhileD zero_less_iff_neq_zero add_is_0 inv_chain(5) [OF i] not_gr_zero le_zero_eq)
        moreover have "?a \<in> set fl" by (simp add: fs bs)
        ultimately have "\<not> fits s ?b ?a" by (simp add: dropWhile_eq_Nil_conv)
        then show ?thesis using core_blk(1) [OF c [unfolded bs] refl] by (simp add: fits_def)
      qed
      ultimately show ?thesis using F w(1) by (auto simp: CHUNKSIZE_def)
    qed
  qed
qed
end
