(* ===== verification/MmRealloc.thy ===== *)
theory MmRealloc
  imports MmCorrect
begin

text \<open>
  \<open>mm_realloc\<close> of \<open>mm.c\<close>, arm by arm: shrinking in place, moving down into a free block
  before it, growing into a free block behind it, and copying to a new block.
\<close>


text \<open>The result of a successful reallocation of \<open>p\<close> to \<open>n\<close> bytes: \<open>p\<close> is dead, the new block is
  large enough and begins with the old contents.\<close>

definition moved :: "nat \<Rightarrow> nat \<Rightarrow> mem \<Rightarrow> (nat \<rightharpoonup> byte list) \<Rightarrow> nat \<Rightarrow> byte list \<Rightarrow> nat \<Rightarrow> nat \<Rightarrow> mm \<Rightarrow> bool" where
  "moved lo hi g L p c n p' s' \<longleftrightarrow>
     p' \<noteq> NULL \<and> 8 dvd p' \<and> (p' = p \<or> p' \<notin> dom L) \<and>
     (\<exists>c'. mm_rel lo hi g s' ((L(p := None))(p' \<mapsto> c')) \<and> n \<le> length c' \<and>
           take (min (length c) n) c' = take (min (length c) n) c)"

lemma movedI:
  assumes "mm_rel lo hi g s' ((L(p := None))(p' \<mapsto> bytes m p' k))"
    and "p' \<noteq> NULL" "8 dvd p'" "p' = p \<or> p' \<notin> dom L" "n \<le> k"
    and "\<And>i. i < length c \<Longrightarrow> i < n \<Longrightarrow> m (p' + i) = c ! i"
  shows "moved lo hi g L p c n p' s'"
proof -
  have "take (min (length c) n) (bytes m p' k) = take (min (length c) n) c"
    by (rule nth_equalityI) (use assms(5,6) in auto)
  moreover have "n \<le> length (bytes m p' k)" using assms(5) by simp
  ultimately show ?thesis unfolding moved_def using assms(1-4) by blast
qed

text \<open>The situation of a call: a used block at \<open>p\<close> inside the block list.\<close>

lemma realloc_sizes:
  assumes "n + 8 \<le> b" "b \<le> 2 ^ 32 - 24" "16 \<le> b"
  shows "wrap32 (b + MIN_BSIZE) = b + 16" "sub32 b DSIZE = b - 8"
  using assms by (simp_all add: MIN_BSIZE_def sizes)

lemma live_apart:
  assumes "chain m p (xs @ (sz, Used c) # ys)" and "a = p + len xs"
  shows "(live (a + sz) ys ++ live p xs) a = None"
  using assms live_None [of m p xs a] live_None [of m "a + sz" ys a]
  by (auto simp: map_add_None blk_ok_def)

lemma realloc_shrink:
  assumes i: "inv lo hi g s (xs @ (sz, Used c) # ys) fl" and q: "p = lo + 24 + len xs"
    and b: "8 dvd b" "16 \<le> b" "n + 8 \<le> b" "b + 16 \<le> sz"
  shows "\<exists>q' s1 s'. coalesce (p + b) (split_block p b (sz - b) s) = (q', s1) \<and> set_root q' s1 = (q', s') \<and>
     moved lo hi g (live (lo + 24) (xs @ (sz, Used c) # ys)) p c n p s'"
proof -
  let ?L = "live (lo + 24) (xs @ (sz, Used c) # ys)"
  let ?c = "bytes (mem s) p (b - 8)" and ?r = "sz - b"
  from i have c: "core lo hi g s (xs @ [(sz, Used c)] @ ys) fl" and na: "noadj xs" "noadj ys"
    and fs: "set fl = set (frees (lo + 24) (xs @ (sz, Used c) # ys))"
    by (auto simp: inv_def noadj_append noadj_Cons)
  note ch = inv_chain [OF i]
  note bd = core_bounds [OF inv_core [OF i]]
  have pre: "8 dvd p" "8 \<le> p" "8 dvd ?r" "16 \<le> ?r" "b < 2 ^ 32" "?r < 2 ^ 32"
    using bd b q by (auto simp: dvd_add)
  from ch(1) have cc: "c = bytes (mem s) p (sz - 8)" by (simp add: blk_ok_def q)
  note sp = split_block_eq [OF pre(1,2) b(1,2) pre(3-6), of s]
  have c2: "core lo hi g (split_block p b ?r s) (xs @ (b, Used ?c) # (?r, Free) # ys) fl"
    unfolding sp(1) by (rule core_split [OF c q]) (use pre b in auto)
  then have c3: "core lo hi g (split_block p b ?r s) ((xs @ [(b, Used ?c)]) @ (?r, Free) # ys) fl" by simp
  have nin: "p + b \<notin> set fl"
    unfolding fs using frees_bounds [of "mem s" "lo + 24" xs "p + b"] frees_bounds [of "mem s" "p + sz" ys "p + b"]
      ch(1) pre b q by (auto simp: add.assoc)
  have fr: "set (frees (lo + 24) ((xs @ [(b, Used ?c)]) @ (?r, Free) # ys)) = insert (p + b) (set fl)"
    unfolding fs using b q by (auto simp: add.assoc)
  from release [OF c3 _ nin fr _ na(2)] q na b obtain q' s1 s' bs' fl'
    where r: "coalesce (p + b) (split_block p b ?r s) = (q', s1)" "set_root q' s1 = (q', s')"
      "inv lo hi g s' bs' fl'" "live (lo + 24) bs' = live (lo + 24) ((xs @ [(b, Used ?c)]) @ (?r, Free) # ys)"
    by (auto simp: noadj_append)
  have "live (lo + 24) bs' = (?L(p := None))(p \<mapsto> ?c)"
    unfolding r(4) using live_used [OF ch(1)] live_None [of "mem s" "lo + 24" xs p] ch(1) b q
    by (auto simp: fun_eq_iff map_add_def add.assoc split: option.splits)
  with r(3) have rel: "mm_rel lo hi g s' ((?L(p := None))(p \<mapsto> ?c))" by (auto simp: mm_rel_def)
  have "moved lo hi g ?L p c n p s'"
    by (rule movedI [OF rel]) (use pre b cc in auto)
  with r show ?thesis by blast
qed

lemma realloc_next:
  assumes i: "inv lo hi g s (xs @ (sz, Used c) # (k, Free) # ys) fl" and q: "p = lo + 24 + len xs"
    and b: "8 dvd b" "16 \<le> b" "n + 8 \<le> b" "b + 16 \<le> sz + k"
  shows "\<exists>s1 s'. cut_out (p + sz) s = s1 \<and>
     set_root (p + b) (split_block p b (sz + k - b) s1) = (p + b, s') \<and>
     coalesce (p + b) (split_block p b (sz + k - b) s1) = (p + b, split_block p b (sz + k - b) s1) \<and>
     moved lo hi g (live (lo + 24) (xs @ (sz, Used c) # (k, Free) # ys)) p c n p s'"
proof -
  let ?bs = "xs @ (sz, Used c) # (k, Free) # ys"
  let ?L = "live (lo + 24) ?bs"
  from i have c: "core lo hi g s ?bs fl" and na: "noadj ?bs"
    and fs: "set fl = set (frees (lo + 24) ?bs)" by (auto simp: inv_def)
  have dfr: "distinct (frees (lo + 24) ?bs)"
    by (rule distinct_frees [of "mem s"]) (use c in \<open>simp add: core_def\<close>)
  have "p + sz \<in> set fl" by (simp add: fs q)
  then obtain f1 f2 where f: "fl = f1 @ (p + sz) # f2" by (meson split_list)
  obtain s1 where s1: "cut_out (p + sz) s = s1" and c1: "core lo hi g s1 ?bs (f1 @ f2)"
    by (rule cut_out_core [OF c [unfolded f]])
  have di: "distinct fl" using c by (simp add: core_def)
  have fl': "set (f1 @ f2) = set fl - {p + sz}" "p + sz \<notin> set (f1 @ f2)" using di f by auto
  let ?c = "bytes (mem s1) p (b - 8)" and ?r = "sz + k - b"
  from c1 have ch1: "chain (mem s1) (lo + 24) ?bs" and ch: "chain (mem s) (lo + 24) ?bs"
    using c by (auto simp: core_def)
  then have cc: "c = bytes (mem s1) p (sz - 8)" by (simp add: blk_ok_def q)
  note bd = core_bounds [OF c]
  from c have "core lo hi g s ((xs @ [(sz, Used c)]) @ (k, Free) # ys) fl" by simp
  note bd2 = core_bounds [OF this]
  have pre: "8 dvd p" "8 \<le> p" "8 dvd ?r" "16 \<le> ?r" "b < 2 ^ 32" "?r < 2 ^ 32"
    using bd bd2 b q by (auto simp: dvd_add dvd_diff_nat)
  note sp = split_block_eq [OF pre(1,2) b(1,2) pre(3-6), of s1]
  let ?bs2 = "xs @ (b, Used ?c) # (?r, Free) # ys"
  from c1 have c1': "core lo hi g s1 (xs @ [(sz, Used c), (k, Free)] @ ys) (f1 @ f2)" by simp
  have c2: "core lo hi g (split_block p b ?r s1) ?bs2 (f1 @ f2)"
    unfolding sp(1) by (rule core_split [OF c1' q]) (use pre b fl' in auto)
  then have c3: "core lo hi g (split_block p b ?r s1) ((xs @ [(b, Used ?c)]) @ (?r, Free) # ys) (f1 @ f2)" by simp
  have qb: "p + b = lo + 24 + len (xs @ [(b, Used ?c)])" by (simp add: q)
  have nf: "ys = [] \<or> snd (hd ys) \<noteq> Free" using na by (auto simp: noadj_append noadj_Cons)
  have co: "coalesce (p + b) (split_block p b ?r s1) = (p + b, split_block p b ?r s1)"
    by (rule coalesce_none [OF c3 qb]) (use nf in auto)
  have nin: "p + b \<notin> set (f1 @ f2)"
    unfolding fl' fs using frees_bounds [of "mem s" "lo + 24" xs "p + b"]
      frees_bounds [of "mem s" "p + sz + k" ys "p + b"] ch pre b q
    by (auto simp: add.assoc)
  have fr2: "set (frees (lo + 24) ?bs2) = insert (p + b) (set (f1 @ f2))"
    unfolding fl' fs using dfr b by (auto simp: q add.assoc)
  obtain s' where s': "set_root (p + b) (split_block p b ?r s1) = (p + b, s')"
      "core lo hi g s' ?bs2 ((p + b) # f1 @ f2)"
    by (rule set_root_core [OF c2 _ nin]) (use fr2 in auto)
  have "noadj ?bs2" using na by (auto simp: noadj_append noadj_Cons)
  with s' fr2 have i': "inv lo hi g s' ?bs2 ((p + b) # f1 @ f2)" by (simp add: inv_def)
  have "live (lo + 24) ?bs2 = (?L(p := None))(p \<mapsto> ?c)"
    using live_None [of "mem s" "lo + 24" xs p] ch b q
    by (auto simp: fun_eq_iff map_add_def add.assoc split: option.splits)
  with i' have rel: "mm_rel lo hi g s' ((?L(p := None))(p \<mapsto> ?c))" by (metis mm_relI)
  have "moved lo hi g ?L p c n p s'"
    by (rule movedI [OF rel]) (use pre b cc in auto)
  with s1 s'(1) co show ?thesis by blast
qed

lemma realloc_prev:
  assumes i: "inv lo hi g s (xs @ (k, Free) # (sz, Used c) # ys) fl" and q: "a = lo + 24 + len xs"
    and b: "8 dvd b" "16 \<le> b" "n + 8 \<le> b" "b + 16 \<le> sz + k"
  shows "\<exists>s1 s2 q' s3 s' fl1. cut_out a s = s1 \<and> core lo hi g s1 (xs @ (k, Free) # (sz, Used c) # ys) fl1 \<and>
     s2 = s1\<lparr>mem := memmove a (a + k) (b - 8) (mem s1)\<rparr> \<and>
     coalesce (a + b) (split_block a b (sz + k - b) s2) = (q', s3) \<and> set_root q' s3 = (q', s') \<and>
     moved lo hi g (live (lo + 24) (xs @ (k, Free) # (sz, Used c) # ys)) (a + k) c n a s'"
proof -
  let ?bs = "xs @ (k, Free) # (sz, Used c) # ys"
  let ?L = "live (lo + 24) ?bs" and ?p = "a + k"
  from i have c: "core lo hi g s ?bs fl" and na: "noadj ?bs"
    and fs: "set fl = set (frees (lo + 24) ?bs)" by (auto simp: inv_def)
  have dfr: "distinct (frees (lo + 24) ?bs)"
    by (rule distinct_frees [of "mem s"]) (use c in \<open>simp add: core_def\<close>)
  have "a \<in> set fl" by (simp add: fs q)
  then obtain f1 f2 where f: "fl = f1 @ a # f2" by (meson split_list)
  obtain s1 where s1: "cut_out a s = s1" and c1: "core lo hi g s1 ?bs (f1 @ f2)"
    by (rule cut_out_core [OF c [unfolded f]])
  have di: "distinct fl" using c by (simp add: core_def)
  have fl': "set (f1 @ f2) = set fl - {a}" "a \<notin> set (f1 @ f2)" using di f by auto
  let ?m = "memmove a ?p (b - 8) (mem s1)"
  let ?s2 = "s1\<lparr>mem := ?m\<rparr>"
  let ?c = "bytes ?m a (b - 8)" and ?r = "sz + k - b"
  from c1 have ch1: "chain (mem s1) (lo + 24) ?bs" and ch: "chain (mem s) (lo + 24) ?bs"
    using c by (auto simp: core_def)
  then have cc: "c = bytes (mem s1) ?p (sz - 8)" by (simp add: blk_ok_def q)
  note bd = core_bounds [OF c]
  from c have "core lo hi g s ((xs @ [(k, Free)]) @ (sz, Used c) # ys) fl" by simp
  note bd2 = core_bounds [OF this]
  have pre: "8 dvd a" "8 \<le> a" "8 dvd ?r" "16 \<le> ?r" "b < 2 ^ 32" "?r < 2 ^ 32"
    using bd bd2 b q by (auto simp: dvd_add dvd_diff_nat)
  note sp = split_block_eq [OF pre(1,2) b(1,2) pre(3-6), of ?s2]
  let ?bs2 = "xs @ (b, Used ?c) # (?r, Free) # ys"
  from c1 have c1': "core lo hi g s1 (xs @ [(k, Free), (sz, Used c)] @ ys) (f1 @ f2)" by simp
  have "core lo hi g (s1\<lparr>mem := tags (a + b) ?r 0 (tags a b 1 ?m)\<rparr>) ?bs2 (f1 @ f2)"
  proof (rule core_split [OF c1' q])
    show "set (f1 @ f2) \<inter> set (frees a [(k, Free), (sz, Used c)]) = {}" using fl' by simp
    show "?m x = mem s1 x" if "x < a - 4 \<or> a + len [(k, Free), (sz, Used c)] - 4 \<le> x" for x
      by (rule memmove_outside) (use that b in auto)
  qed (use pre b in auto)
  then have c3: "core lo hi g (split_block a b ?r ?s2) ((xs @ [(b, Used ?c)]) @ (?r, Free) # ys) (f1 @ f2)"
    by (simp add: sp(1))
  have nin: "a + b \<notin> set (f1 @ f2)"
    unfolding fl' fs using frees_bounds [of "mem s" "lo + 24" xs "a + b"]
      frees_bounds [of "mem s" "a + sz + k" ys "a + b"] ch pre b q
    by (auto simp: add.assoc add.commute [of sz k])
  have fr2: "set (frees (lo + 24) ((xs @ [(b, Used ?c)]) @ (?r, Free) # ys)) = insert (a + b) (set (f1 @ f2))"
    unfolding fl' fs using dfr b by (auto simp: q add.assoc add.commute [of sz k])
  have na2: "noadj (xs @ [(b, Used ?c)])" "noadj ys" using na by (auto simp: noadj_append noadj_Cons)
  have qb: "a + b = lo + 24 + len (xs @ [(b, Used ?c)])" by (simp add: q)
  from release [OF c3 qb nin fr2 na2] obtain q' s3 s' bs' fl2
    where r: "coalesce (a + b) (split_block a b ?r ?s2) = (q', s3)" "set_root q' s3 = (q', s')"
      "inv lo hi g s' bs' fl2" "live (lo + 24) bs' = live (lo + 24) ((xs @ [(b, Used ?c)]) @ (?r, Free) # ys)"
    by blast
  have e: "b + (sz + k - b) = k + sz" using b by simp
  have out: "live (lo + 24) xs a = None" "live (lo + 24) xs ?p = None" "live (?p + sz) ys ?p = None"
    "live (?p + sz) ys a = None"
    by (rule live_None [of "mem s"]; use ch q bd in \<open>simp add: blk_ok_def\<close>)+
  have L': "live (lo + 24) bs' = (live (?p + sz) ys ++ live (lo + 24) xs)(a \<mapsto> ?c)"
    unfolding r(4) using out(1) e q
    by (auto simp: fun_eq_iff map_add_def add.assoc split: option.splits)
  have "?L = (live (?p + sz) ys ++ live (lo + 24) xs)(?p \<mapsto> c)"
    using out(2) q by (auto simp: fun_eq_iff map_add_def add.assoc split: option.splits)
  then have "live (lo + 24) bs' = (?L(?p := None))(a \<mapsto> ?c)"
    unfolding L' using out(2,3) by (auto simp: fun_eq_iff map_add_def)
  with r(3) have rel: "mm_rel lo hi g s' ((?L(?p := None))(a \<mapsto> ?c))" by (metis mm_relI)
  have "?L a = None" using live_free_None [OF ch] by (simp only: q)
  then have nd: "a \<notin> dom ?L" by (simp only: domIff not_not)
  have "moved lo hi g ?L ?p c n a s'"
  proof (rule movedI [OF rel])
    show "a = ?p \<or> a \<notin> dom ?L" using nd by (rule disjI2)
  qed (use pre b cc in \<open>auto simp: memmove_def\<close>)
  with s1 r c1 show ?thesis by blast
qed
section \<open>The arms together\<close>

lemma realloc_copy:
  assumes i: "inv lo hi g s bs fl" and L: "live (lo + 24) bs p = Some c" and n: "0 < n" "n \<le> 2 ^ 32 - 16"
    and b: "b = bsize_of n" and sz: "sz = length c + 8"
  shows "realloc_move p n sz b s = Some (NULL, s) \<and> mm_malloc n s = Some (NULL, s) \<or>
    (\<exists>p' s'. realloc_move p n sz b s = Some (p', s') \<and> moved lo hi g (live (lo + 24) bs) p c n p' s')"
proof -
  let ?L = "live (lo + 24) bs"
  from mm_malloc_inv [OF i n] consider "mm_malloc n s = Some (NULL, s)"
    | (ok) p' d s' where "mm_malloc n s = Some (p', s')" "p' \<noteq> NULL" "8 dvd p'" "?L p' = None"
        "b \<le> length d + 8" "mm_rel lo hi g s' (?L(p' \<mapsto> d))" unfolding b by blast
  then show ?thesis
  proof cases
    case ok
    let ?k = "sub32 (if sz > b then b else sz) DSIZE"
    let ?m = "memmove p' p ?k (mem s')"
    note bb = bsize_of [OF n, folded b]
    from ok(4) L have ne: "p \<noteq> p'" by auto
    then have Lp: "(?L(p' \<mapsto> d)) p = Some c" using L by simp
    note lv = mm_rel_live [OF ok(6) Lp]
    have hi: "hi < 2 ^ 32 - 1" using inv_chain [OF i] by blast
    have szb: "sz < 2 ^ 32" using lv(3,4) hi sz by simp
    have k: "?k = min sz b - 8" using szb bb sz by (simp add: sizes min_def)
    have "mm_rel lo hi g (s'\<lparr>mem := ?m\<rparr>) ((?L(p' \<mapsto> d))(p' \<mapsto> bytes ?m p' (length d)))"
      by (rule mm_rel_write [OF ok(6)]) (use ok(5) k in \<open>auto simp: memmove_outside\<close>)
    then have w: "mm_rel lo hi g (s'\<lparr>mem := ?m\<rparr>) (?L(p' \<mapsto> bytes ?m p' (length d)))" by simp
    have "mm_rel lo hi g (mm_free p (s'\<lparr>mem := ?m\<rparr>)) ((?L(p' \<mapsto> bytes ?m p' (length d)))(p := None))"
      by (rule mm_free_rel [OF w]) (use L in auto)
    then have rel: "mm_rel lo hi g (mm_free p (s'\<lparr>mem := ?m\<rparr>)) ((?L(p := None))(p' \<mapsto> bytes ?m p' (length d)))"
      using ne by (simp add: fun_upd_twist)
    have "moved lo hi g ?L p c n p' (mm_free p (s'\<lparr>mem := ?m\<rparr>))"
    proof (rule movedI [OF rel ok(2,3)])
      show "p' = p \<or> p' \<notin> dom ?L" using ok(4) by auto
      show "n \<le> length d" using ok(5) bb(3) by simp
      fix j assume j: "j < length c" "j < n"
      from lv(5) have "c ! j = bytes (mem s') p (length c) ! j" by (rule arg_cong)
      moreover have "j < ?k" using j bb(3) sz unfolding k by simp
      ultimately show "?m (p' + j) = c ! j" using j by (simp add: memmove_def)
    qed
    moreover have "realloc_move p n sz b s = Some (p', mm_free p (s'\<lparr>mem := ?m\<rparr>))"
      using ok(1,2) by (simp add: realloc_move_def Let_def)
    ultimately show ?thesis by blast
  qed (simp add: realloc_move_def)
qed

text \<open>The five arms together.\<close>

lemma mm_realloc_inv:
  assumes i: "inv lo hi g s (xs @ (sz, Used c) # ys) fl" and q: "p = lo + 24 + len xs"
    and n: "0 < n" "n \<le> 2 ^ 32 - 32"
  defines "L \<equiv> live (lo + 24) (xs @ (sz, Used c) # ys)"
  shows "mm_realloc p n s = Some (NULL, s) \<and> mm_malloc n s = Some (NULL, s) \<or>
    (\<exists>p' s'. mm_realloc p n s = Some (p', s') \<and> moved lo hi g L p c n p' s')"
proof -
  have n': "n \<le> 2 ^ 32 - 16" using n by simp
  define b where "b = bsize_of n"
  note bb = bsize_of [OF n(1) n', folded b_def]
  note ch = inv_chain [OF i] and cr = inv_core [OF i]
  note bd = core_bounds [OF cr] and bk = core_blk [OF cr q] and pv = core_prev [OF cr q] and nx = core_next [OF cr q]
  have lc: "length c + 8 = sz" using ch(1) bd(1) by (simp add: blk_ok_def)
  have Lp: "L p = Some c" unfolding L_def live_used [OF ch(1)] by (simp add: q)
  have p0: "p \<noteq> NULL" "8 dvd p" "8 \<le> p" using q bd by (auto simp: dvd_add)
  have wb: "wrap32 (b + MIN_BSIZE) = b + 16" using bb n by (simp add: MIN_BSIZE_def sizes)
  have szs: "sz < 2 ^ 32" using bd by linarith
  have sb: "sub32 x b = x - b" if "b \<le> x" "x < 2 ^ 32" for x using that by simp
  have sd: "sub32 b DSIZE = b - 8" using bb(2,5) by (simp add: sizes)
  have bf: "wrap32 (ALIGN n + DSIZE) = b" by (simp add: b_def bsize_of_def)
  note split2 = split_block_eq(2) [of p b, OF p0(2,3) bb(1,2)]
  consider (shrink) "b + 16 \<le> sz" | (same) "sz = b" | (other) "\<not> b + 16 \<le> sz" "sz \<noteq> b" by blast
  then show ?thesis
  proof cases
    case shrink
    from realloc_shrink [OF i q bb(1,2,3) shrink] obtain q' s1 s'
      where r: "coalesce (p + b) (split_block p b (sz - b) s) = (q', s1)" "set_root q' s1 = (q', s')"
        "moved lo hi g L p c n p s'" unfolding L_def by blast
    have "NEXT_BLKP (split_block p b (sz - b) s) p = p + b"
      by (rule split2) (use bd bb shrink szs in auto)
    then have "mm_realloc p n s = Some (p, s')"
      using r(1,2) shrink n p0 bk(1) wb szs sb [of sz] bb(1-5)
      by (simp add: mm_realloc_def bf split_block_def Let_def)
    with r(3) show ?thesis by blast
  next
    case same
    then have "mm_realloc p n s = Some (p, s)"
      using n p0 bk(1) wb by (simp add: mm_realloc_def bf Let_def)
    moreover have rel: "mm_rel lo hi g s L" using i by (auto simp: mm_rel_def L_def)
    moreover have "moved lo hi g L p c n p s"
      unfolding moved_def using rel Lp p0 bb(3) lc same by (auto simp: fun_upd_idem intro!: exI [of _ c])
    ultimately show ?thesis by blast
  next
    case other
    have nz: "\<not> b + 16 \<le> sz" "sz \<noteq> b" by fact+
    consider (prev) "prev_bit xs = 0" "b + 16 \<le> wrap32 (sz + before 16 xs)"
      | (nxt) "\<not> (prev_bit xs = 0 \<and> b + 16 \<le> wrap32 (sz + before 16 xs))" "next_bit ys = 0"
          "b + 16 \<le> wrap32 (sz + GET_SIZE s (FTRP s (NEXT_BLKP s p)))"
      | (move) "\<not> (prev_bit xs = 0 \<and> b + 16 \<le> wrap32 (sz + before 16 xs))"
          "\<not> (next_bit ys = 0 \<and> b + 16 \<le> wrap32 (sz + GET_SIZE s (FTRP s (NEXT_BLKP s p))))"
      by argo
    then show ?thesis
    proof cases
      case prev
      then obtain k zs where xs: "xs = zs @ [(k, Free)]"
        by (cases xs rule: rev_cases) (auto simp: prev_bit_def split: if_splits intro: prod_eqI)
      let ?a = "lo + 24 + len zs"
      have pk: "p = ?a + k" "before 16 xs = k" using q by (simp_all add: xs before_def)
      from i have i': "inv lo hi g s (zs @ (k, Free) # (sz, Used c) # ys) fl" by (simp add: xs)
      note bz = core_bounds [OF inv_core [OF i']]
      have tot: "wrap32 (sz + k) = sz + k" "sz + k < 2 ^ 32" using bz by auto
      then have fit: "b + 16 \<le> sz + k" using prev(2) pk by simp
      from realloc_prev [OF i' refl bb(1,2,3) fit] obtain s1 s2 q' s3 s'
        where r: "cut_out ?a s = s1" "s2 = s1\<lparr>mem := memmove ?a (?a + k) (b - 8) (mem s1)\<rparr>"
          "coalesce (?a + b) (split_block ?a b (sz + k - b) s2) = (q', s3)" "set_root q' s3 = (q', s')"
          "moved lo hi g (live (lo + 24) (zs @ (k, Free) # (sz, Used c) # ys)) (?a + k) c n ?a s'"
        by blast
      have "NEXT_BLKP (split_block ?a b (sz + k - b) s2) ?a = ?a + b"
        by (rule split_block_eq(2)) (use bz bb fit tot bd in \<open>auto simp: dvd_add dvd_diff_nat\<close>)
      then have sr: "NEXT_BLKP (split_block ?a b (sz + k - b) s2) ?a = ?a + b" .
      have c: "(p = NULL) = False" "(n = 0) = False" "(wrap32 (b + MIN_BSIZE) \<le> sz) = False" "(sz = b) = False"
        using n p0 wb nz by simp_all
      have pz: "PREV_BLKP s p = ?a" "GET_SIZE s (FTRP s ?a) = k" using pv pk by simp_all
      have c': "(GET_ALLOC s (FTRP s ?a) = 0 \<and> wrap32 (b + MIN_BSIZE) \<le> wrap32 (sz + k)) = True"
        using pv(2,3) pz(1) prev(1) fit tot wb by simp
      have d: "sub32 (sz + k) b = sz + k - b" by (rule sb) (use fit tot in auto)
      have "mm_realloc p n s = Some (?a, s')"
        unfolding mm_realloc_def bf Let_def bk(1) c if_False pz c' if_True
        unfolding tot(1) d sd
        using r(1-4) sr by (simp add: split_block_def Let_def pk(1))
      then show ?thesis using r(5) pk(1) by (auto simp: L_def xs)
    next
      case nxt
      then obtain k zs where ys: "ys = (k, Free) # zs"
        by (cases ys) (auto simp: next_bit_def split: if_splits intro: prod_eqI)
      from i have i': "inv lo hi g s (xs @ (sz, Used c) # (k, Free) # zs) fl" by (simp add: ys)
      then have c2: "core lo hi g s ((xs @ [(sz, Used c)]) @ (k, Free) # zs) fl" by (simp add: inv_def)
      note bz = core_bounds [OF c2]
      have gs: "GET_SIZE s (FTRP s (NEXT_BLKP s p)) = k"
        using core_blk [OF c2, of "p + sz"] bk(3) q by simp
      have tot: "wrap32 (sz + k) = sz + k" "sz + k < 2 ^ 32" using bz by auto
      then have fit: "b + 16 \<le> sz + k" using nxt(3) gs by simp
      from realloc_next [OF i' q bb(1,2,3) fit] obtain s1 s'
        where r: "cut_out (p + sz) s = s1"
          "set_root (p + b) (split_block p b (sz + k - b) s1) = (p + b, s')"
          "moved lo hi g (live (lo + 24) (xs @ (sz, Used c) # (k, Free) # zs)) p c n p s'"
        by blast
      have "NEXT_BLKP (split_block p b (sz + k - b) s1) p = p + b"
        by (rule split2) (use bz bb fit tot bd in \<open>auto simp: dvd_add dvd_diff_nat\<close>)
      then have sr: "set_root (NEXT_BLKP (split_block p b (sz + k - b) s1) p) (split_block p b (sz + k - b) s1) = (p + b, s')"
        using r(2) by simp
      have c: "(p = NULL) = False" "(n = 0) = False" "(wrap32 (b + MIN_BSIZE) \<le> sz) = False" "(sz = b) = False"
        "(GET_ALLOC s (FTRP s (PREV_BLKP s p)) = 0 \<and> wrap32 (b + MIN_BSIZE) \<le>
            wrap32 (sz + GET_SIZE s (FTRP s (PREV_BLKP s p)))) = False"
        using n p0 wb nz nxt(1) pv by simp_all
      have c': "(GET_ALLOC s (HDRP (NEXT_BLKP s p)) = 0 \<and> wrap32 (b + MIN_BSIZE) \<le> wrap32 (sz + k)) = True"
        using nx nxt(2) fit tot wb by simp
      have d: "sub32 (sz + k) b = sz + k - b" by (rule sb) (use fit tot in auto)
      have "mm_realloc p n s = Some (p, s')"
        unfolding mm_realloc_def bf Let_def bk(1) c if_False
        using c' gs r(1) sr by (simp add: tot(1) d bk(3) split_block_def Let_def)
      then show ?thesis using r(3) by (auto simp: L_def ys)
    next
      case move
      have c: "(p = NULL) = False" "(n = 0) = False" "(wrap32 (b + MIN_BSIZE) \<le> sz) = False" "(sz = b) = False"
        "(GET_ALLOC s (FTRP s (PREV_BLKP s p)) = 0 \<and> wrap32 (b + MIN_BSIZE) \<le>
            wrap32 (sz + GET_SIZE s (FTRP s (PREV_BLKP s p)))) = False"
        using n p0 wb nz move(1) pv by simp_all
      have c': "(GET_ALLOC s (HDRP (NEXT_BLKP s p)) = 0 \<and> wrap32 (b + MIN_BSIZE) \<le>
            wrap32 (sz + GET_SIZE s (FTRP s (NEXT_BLKP s p)))) = False"
        unfolding wb nx using move(2) by argo
      have "mm_realloc p n s = realloc_move p n sz b s"
        unfolding mm_realloc_def bf Let_def bk(1) c c' if_False by (rule refl)
      then show ?thesis
        using realloc_copy [OF i Lp [unfolded L_def] n(1) n' b_def] lc by (simp add: L_def)
    qed
  qed
qed

lemma mm_realloc_rel:
  assumes r: "mm_rel lo hi g s L" and p: "L p = Some c" and n: "0 < n" "n \<le> 2 ^ 32 - 32"
  shows "mm_realloc p n s = Some (NULL, s) \<and> mm_malloc n s = Some (NULL, s) \<or>
    (\<exists>p' s'. mm_realloc p n s = Some (p', s') \<and> moved lo hi g L p c n p' s')"
proof -
  from r p obtain bs fl where i: "inv lo hi g s bs fl" and L: "L = live (lo + 24) bs"
    and "live (lo + 24) bs p = Some c" by (auto simp: mm_rel_def)
  from live_split [OF this(3)] obtain xs sz ys
    where bs: "bs = xs @ (sz, Used c) # ys" and q: "p = lo + 24 + len xs" by blast
  from mm_realloc_inv [OF i [unfolded bs] q n] show ?thesis by (simp only: L bs)
qed

end
