(* ===== verification/AllocSpec.thy ===== *)
theory AllocSpec
  imports MemLib
begin

text \<open>
  The interface between the allocators of the lab and their driver.  \<open>mm_ops\<close> is the table
  of the four functions \<open>mm.h\<close> declares; the driver is linked against one such table.  The
  locale \<open>allocator\<close> is the contract: \<open>rel lo hi s L\<close> says that the state \<open>s\<close> is a heap in the
  arena \<open>lo..<hi\<close> whose live blocks are the map \<open>L\<close> from block pointers to payloads, and the laws say what every
  function does to \<open>L\<close>.  \<open>full lo hi s n\<close> says that \<open>s\<close> has no memory for a request of \<open>n\<close> bytes: a request or
  a reallocation may fail only then.

  In the table, \<open>None\<close> is a call that never returns.
\<close>

record 'a mm_ops =
  op_init :: "'a arena_scheme \<Rightarrow> int \<times> 'a arena_scheme"
  op_malloc :: "nat \<Rightarrow> 'a arena_scheme \<Rightarrow> (nat \<times> 'a arena_scheme) option"
  op_free :: "nat \<Rightarrow> 'a arena_scheme \<Rightarrow> 'a arena_scheme option"
  op_realloc :: "nat \<Rightarrow> nat \<Rightarrow> 'a arena_scheme \<Rightarrow> (nat \<times> 'a arena_scheme) option"

definition fresh :: "nat \<Rightarrow> nat \<Rightarrow> 'a arena_scheme \<Rightarrow> bool" where
  "fresh lo hi s \<longleftrightarrow> mem_start_brk s = lo \<and> mem_brk s = lo \<and> mem_max_addr s = hi"

lemma fresh_reset: "mem_start_brk s = lo \<Longrightarrow> mem_max_addr s = hi \<Longrightarrow> fresh lo hi (mem_reset_brk s)"
  by (simp add: fresh_def mem_reset_brk_def)

locale allocator =
  fixes ops :: "'a mm_ops"
    and room :: "nat \<Rightarrow> nat \<Rightarrow> bool"
    and rel :: "nat \<Rightarrow> nat \<Rightarrow> 'a arena_scheme \<Rightarrow> (nat \<rightharpoonup> byte list) \<Rightarrow> bool"
    and full :: "nat \<Rightarrow> nat \<Rightarrow> 'a arena_scheme \<Rightarrow> nat \<Rightarrow> bool"
    and limit :: nat
  assumes init_ok: "room lo hi \<Longrightarrow> fresh lo hi s \<Longrightarrow> \<exists>s'. op_init ops s = (0, s') \<and> rel lo hi s' Map.empty"
    and malloc_ok: "rel lo hi s L \<Longrightarrow> 0 < n \<Longrightarrow> n \<le> limit \<Longrightarrow>
      \<exists>p s'. op_malloc ops n s = Some (p, s') \<and> mem_brk s \<le> mem_brk s' \<and> (p = NULL \<longrightarrow> rel lo hi s' L \<and> full lo hi s' n) \<and>
        (p \<noteq> NULL \<longrightarrow> p \<notin> dom L \<and> (\<exists>c. n \<le> length c \<and> rel lo hi s' (L(p \<mapsto> c))))"
    and free_ok: "rel lo hi s L \<Longrightarrow> p \<in> dom L \<Longrightarrow>
      \<exists>s'. op_free ops p s = Some s' \<and> mem_brk s \<le> mem_brk s' \<and> rel lo hi s' (L(p := None))"
    and realloc_ok: "rel lo hi s L \<Longrightarrow> L p = Some c \<Longrightarrow> 0 < n \<Longrightarrow> n \<le> limit \<Longrightarrow>
      \<exists>p' s'. op_realloc ops p n s = Some (p', s') \<and> mem_brk s \<le> mem_brk s' \<and> (p' = NULL \<longrightarrow> rel lo hi s' L \<and> full lo hi s' n) \<and>
        (p' \<noteq> NULL \<longrightarrow> (p' = p \<or> p' \<notin> dom L) \<and>
          (\<exists>c'. n \<le> length c' \<and> take (min (length c) n) c' = take (min (length c) n) c \<and>
            rel lo hi s' ((L(p := None))(p' \<mapsto> c'))))"
    and write_ok: "rel lo hi s L \<Longrightarrow> L p = Some c \<Longrightarrow> (\<And>x. x < p \<or> p + length c \<le> x \<Longrightarrow> m' x = mem s x) \<Longrightarrow>
      rel lo hi (s\<lparr>mem := m'\<rparr>) (L(p \<mapsto> bytes m' p (length c)))"
    and live_ok: "rel lo hi s L \<Longrightarrow> L p = Some c \<Longrightarrow>
      8 dvd p \<and> lo \<le> p \<and> p + length c \<le> mem_brk s \<and> c = bytes (mem s) p (length c)"
    and disjoint_ok: "rel lo hi s L \<Longrightarrow> L p = Some c \<Longrightarrow> L q = Some d \<Longrightarrow> p \<noteq> q \<Longrightarrow>
      q + length d \<le> p \<or> p + length c \<le> q"
    and arena_ok: "rel lo hi s L \<Longrightarrow> mem_start_brk s = lo \<and> 0 < lo"
begin

lemma live_not_NULL: "rel lo hi s L \<Longrightarrow> L p = Some c \<Longrightarrow> p \<noteq> NULL"
  using live_ok [of lo hi s L p c] arena_ok [of lo hi s L] by auto

lemma live_bytes: "rel lo hi s L \<Longrightarrow> L p = Some c \<Longrightarrow> j < length c \<Longrightarrow> mem s (p + j) = c ! j"
  using live_ok [of lo hi s L p c] by (metis nth_bytes)

text \<open>Filling a prefix of a live payload.\<close>

lemma fill_ok:
  assumes r: "rel lo hi s L" and p: "L p = Some c" and n: "n \<le> length c"
  shows "rel lo hi (s\<lparr>mem := memset p v n (mem s)\<rparr>) (L(p \<mapsto> replicate n v @ drop n c))"
proof -
  have "rel lo hi (s\<lparr>mem := memset p v n (mem s)\<rparr>) (L(p \<mapsto> bytes (memset p v n (mem s)) p (length c)))"
    by (rule write_ok [OF r p]) (use n in \<open>auto simp: memset_outside\<close>)
  moreover have "bytes (memset p v n (mem s)) p (length c) = replicate n v @ drop n c"
  proof (rule nth_equalityI)
    fix i assume "i < length (bytes (memset p v n (mem s)) p (length c))"
    then have "i < length c" by simp
    then show "bytes (memset p v n (mem s)) p (length c) ! i = (replicate n v @ drop n c) ! i"
      using live_bytes [OF r p, of i] n by (auto simp: memset_def nth_append)
  qed (use n in simp)
  ultimately show ?thesis by simp
qed

text \<open>The payloads of disjoint blocks fit into the heap together.\<close>

lemma payload_sum:
  assumes r: "rel lo hi s L" and fin: "finite A" and inj: "inj_on p A"
    and A: "\<And>i. i \<in> A \<Longrightarrow> \<exists>c. L (p i) = Some c \<and> n i \<le> length c"
  shows "(\<Sum>i\<in>A. n i) \<le> mem_heapsize s"
proof -
  have "(\<Sum>i\<in>A. n i) = card (\<Union>i\<in>A. {p i ..< p i + n i})"
  proof (subst card_UN_disjoint [OF fin])
    show "\<forall>i\<in>A. \<forall>j\<in>A. i \<noteq> j \<longrightarrow> {p i..<p i + n i} \<inter> {p j..<p j + n j} = {}"
    proof (intro ballI impI)
      fix i j assume ij: "i \<in> A" "j \<in> A" "i \<noteq> j"
      then have "p i \<noteq> p j" using inj by (auto dest: inj_onD)
      moreover obtain c d where "L (p i) = Some c" "n i \<le> length c" "L (p j) = Some d" "n j \<le> length d"
        using A ij by blast
      ultimately have "p j + n j \<le> p i \<or> p i + n i \<le> p j"
        using disjoint_ok [OF r, of "p i" c "p j" d] by linarith
      then show "{p i..<p i + n i} \<inter> {p j..<p j + n j} = {}" by auto
    qed
  qed auto
  also have "\<dots> \<le> card {lo ..< mem_brk s}"
  proof (rule card_mono)
    show "(\<Union>i\<in>A. {p i ..< p i + n i}) \<subseteq> {lo ..< mem_brk s}"
      using A live_ok [OF r] by fastforce
  qed simp
  also have "\<dots> = mem_heapsize s" using arena_ok [OF r] by (simp add: mem_heapsize_def)
  finally show ?thesis .
qed

end

text \<open>What holds for all sizes up to a limit holds for a smaller limit.\<close>

lemma allocator_smaller_limit:
  assumes a: "allocator ops room rel full l" and k: "k \<le> l"
  shows "allocator ops room rel full k"
proof (unfold_locales, goal_cases)
  case (1 lo hi s)
  then show ?case by (rule allocator.init_ok [OF a])
next
  case (2 lo hi s L n)
  then have "n \<le> l" using k by simp
  from allocator.malloc_ok [OF a 2(1,2) this] show ?case .
next
  case (3 lo hi s L p)
  then show ?case by (rule allocator.free_ok [OF a])
next
  case (4 lo hi s L p c n)
  then have "n \<le> l" using k by simp
  from allocator.realloc_ok [OF a 4(1-3) this] show ?case .
next
  case (5 lo hi s L p c m')
  then show ?case by (rule allocator.write_ok [OF a])
next
  case (6 lo hi s L p c)
  then show ?case by (rule allocator.live_ok [OF a])
next
  case (7 lo hi s L p c q d)
  then show ?case by (rule allocator.disjoint_ok [OF a])
next
  case (8 lo hi s L)
  then show ?case by (rule allocator.arena_ok [OF a])
qed

end
