(* ===== verification/Mdriver.thy ===== *)
theory Mdriver
  imports AllocSpec
begin

text \<open>
  The driver \<open>malloclab-handout/src/mdriver.c\<close>: the range list, the three interpreters of a
  trace (\<open>eval_mm_valid\<close>, \<open>eval_mm_util\<close>, \<open>eval_mm_speed\<close>), each parametric in the table of
  the allocator it is linked against.  What a call to \<open>malloc_error\<close> prints is an entry of a
  log, whose length is the counter \<open>errors\<close>.

  A run that does not return to its caller is an \<open>Inl\<close>: a failed \<open>assert\<close>, \<open>app_error\<close>
  (which exits), an array access out of bounds, or an allocator call that never ends.
\<close>

section \<open>Data\<close>

datatype stop = Assertion | AppError | BadAccess | Diverges

datatype complaint =
    InitFailed | MallocFailed | ReallocFailed | Misaligned | OutsideHeap | Overlaps | DataLost

record range_t =
  r_lo :: nat
  r_hi :: nat

datatype optype = ALLOC | FREE | REALLOC

record traceop_t =
  tr_type :: optype
  tr_index :: nat
  tr_size :: int

record 'a driver =
  heap :: "'a arena_scheme"
  ranges :: "range_t list"
  blocks :: "nat list"
  block_sizes :: "nat list"
  log :: "(int \<times> nat \<times> complaint) list"

definition malloc_error :: "int \<Rightarrow> nat \<Rightarrow> complaint \<Rightarrow> 'a driver \<Rightarrow> 'a driver" where
  "malloc_error tracenum opnum msg d = d\<lparr>log := log d @ [(tracenum, opnum, msg)]\<rparr>"

definition errors :: "'a driver \<Rightarrow> nat" where
  "errors d = length (log d)"

section \<open>The range list\<close>

definition IS_ALIGNED :: "nat \<Rightarrow> bool" where
  "IS_ALIGNED p \<longleftrightarrow> p mod ALIGNMENT = 0"

definition add_range :: "nat \<Rightarrow> int \<Rightarrow> int \<Rightarrow> nat \<Rightarrow> 'a driver \<Rightarrow> stop + (bool \<times> 'a driver)" where
  "add_range lo sz tracenum opnum d =
     (if \<not> 0 < sz then Inl Assertion
      else
        let hi = lo + nat sz - 1;
            heap_lo = mem_heap_lo (heap d);
            heap_hi = mem_heap_hi (heap d)
        in Inr (if \<not> IS_ALIGNED lo then (False, malloc_error tracenum opnum Misaligned d)
                else if lo < heap_lo \<or> lo > heap_hi \<or> hi < heap_lo \<or> hi > heap_hi then
                  (False, malloc_error tracenum opnum OutsideHeap d)
                else if \<exists>p \<in> set (ranges d). (lo \<ge> r_lo p \<and> lo \<le> r_hi p) \<or> (hi \<ge> r_lo p \<and> hi \<le> r_hi p) then
                  (False, malloc_error tracenum opnum Overlaps d)
                else (True, d\<lparr>ranges := \<lparr>r_lo = lo, r_hi = hi\<rparr> # ranges d\<rparr>)))"

fun remove_range :: "range_t list \<Rightarrow> nat \<Rightarrow> range_t list" where
  "remove_range [] lo = []"
| "remove_range (p # ps) lo = (if r_lo p = lo then ps else p # remove_range ps lo)"

section \<open>eval\_mm\_valid\<close>

text \<open>An \<open>int\<close> passed as \<open>size_t\<close>.\<close>

definition size_t :: "int \<Rightarrow> nat" where
  "size_t n = nat (n mod 2 ^ 32)"

text \<open>Reading and writing \<open>trace->blocks\<close> and \<open>trace->block_sizes\<close>.\<close>

definition remember :: "nat \<Rightarrow> nat \<Rightarrow> nat \<Rightarrow> 'a driver \<Rightarrow> 'a driver" where
  "remember i p n d = d\<lparr>blocks := (blocks d)[i := p], block_sizes := (block_sizes d)[i := n]\<rparr>"

definition fill :: "nat \<Rightarrow> byte \<Rightarrow> nat \<Rightarrow> 'a driver \<Rightarrow> 'a driver" where
  "fill p c n d = d\<lparr>heap := (heap d)\<lparr>mem := memset p c n (mem (heap d))\<rparr>\<rparr>"

text \<open>\<open>index & 0xFF\<close> as the \<open>int\<close> the check compares with, and as the byte \<open>memset\<close> stores.
  The elements \<open>newp[j]\<close> are of type \<open>char\<close>, which is signed on the target.\<close>

definition low_byte :: "nat \<Rightarrow> nat" where
  "low_byte index = index mod 256"

definition data_lost :: "nat \<Rightarrow> nat \<Rightarrow> nat \<Rightarrow> 'a driver \<Rightarrow> bool" where
  "data_lost newp oldsize index d \<longleftrightarrow>
     (\<exists>j \<in> {0..<oldsize}. sint (mem (heap d) (newp + j)) \<noteq> int (low_byte index))"

definition valid_op :: "'a mm_ops \<Rightarrow> int \<Rightarrow> nat \<Rightarrow> traceop_t \<Rightarrow> 'a driver \<Rightarrow> stop + (bool \<times> 'a driver)" where
  "valid_op ops tracenum i op d =
     (let index = tr_index op; size = tr_size op in
      if \<not> (index < length (blocks d) \<and> index < length (block_sizes d)) then Inl BadAccess
      else case tr_type op of
        ALLOC \<Rightarrow>
          (case op_malloc ops (size_t size) (heap d) of
             None \<Rightarrow> Inl Diverges
           | Some (p, h) \<Rightarrow>
               let d = d\<lparr>heap := h\<rparr> in
               if p = NULL then Inr (False, malloc_error tracenum i MallocFailed d)
               else case add_range p size tracenum i d of
                 Inl e \<Rightarrow> Inl e
               | Inr (False, d) \<Rightarrow> Inr (False, d)
               | Inr (True, d) \<Rightarrow>
                   Inr (True, remember index p (size_t size)
                     (fill p (of_nat (low_byte index)) (size_t size) d)))
      | REALLOC \<Rightarrow>
          let oldp = blocks d ! index in
          (case op_realloc ops oldp (size_t size) (heap d) of
             None \<Rightarrow> Inl Diverges
           | Some (newp, h) \<Rightarrow>
               let d = d\<lparr>heap := h\<rparr> in
               if newp = NULL then Inr (False, malloc_error tracenum i ReallocFailed d)
               else
                 let d = d\<lparr>ranges := remove_range (ranges d) oldp\<rparr> in
                 case add_range newp size tracenum i d of
                   Inl e \<Rightarrow> Inl e
                 | Inr (False, d) \<Rightarrow> Inr (False, d)
                 | Inr (True, d) \<Rightarrow>
                     let oldsize = to_int32 (block_sizes d ! index);
                         oldsize = (if size < oldsize then size else oldsize)
                     in if data_lost newp (nat oldsize) index d
                        then Inr (False, malloc_error tracenum i DataLost d)
                        else Inr (True, remember index newp (size_t size)
                               (fill newp (of_nat (low_byte index)) (size_t size) d)))
      | FREE \<Rightarrow>
          let p = blocks d ! index;
              d = d\<lparr>ranges := remove_range (ranges d) p\<rparr>
          in (case op_free ops p (heap d) of
                None \<Rightarrow> Inl Diverges
              | Some h \<Rightarrow> Inr (True, d\<lparr>heap := h\<rparr>)))"

fun valid_ops :: "'a mm_ops \<Rightarrow> int \<Rightarrow> nat \<Rightarrow> traceop_t list \<Rightarrow> 'a driver \<Rightarrow> stop + (bool \<times> 'a driver)" where
  "valid_ops ops tracenum i [] d = Inr (True, d)"
| "valid_ops ops tracenum i (op # tr) d =
     (case valid_op ops tracenum i op d of
        Inl e \<Rightarrow> Inl e
      | Inr (False, d) \<Rightarrow> Inr (False, d)
      | Inr (True, d) \<Rightarrow> valid_ops ops tracenum (Suc i) tr d)"

text \<open>\<open>True\<close> is the return value 1.\<close>

definition eval_mm_valid :: "'a mm_ops \<Rightarrow> traceop_t list \<Rightarrow> int \<Rightarrow> 'a driver \<Rightarrow> stop + (bool \<times> 'a driver)" where
  "eval_mm_valid ops tr tracenum d =
     (let d = d\<lparr>heap := mem_reset_brk (heap d), ranges := []\<rparr>;
          (r, h) = op_init ops (heap d);
          d = d\<lparr>heap := h\<rparr>
      in if r < 0 then Inr (False, malloc_error tracenum 0 InitFailed d)
         else valid_ops ops tracenum 0 tr d)"

section \<open>eval\_mm\_util and eval\_mm\_speed\<close>

text \<open>The two running totals are \<open>int\<close>s in the code and unbounded integers here: on an allocator whose live blocks
  are apart they never exceed the arena of 20 MB, and an overflow would be undefined.\<close>

definition util_op :: "'a mm_ops \<Rightarrow> traceop_t \<Rightarrow> int \<times> int \<times> 'a driver \<Rightarrow> stop + (int \<times> int \<times> 'a driver)" where
  "util_op ops op st =
     (let (total_size, max_total_size, d) = st; index = tr_index op; size = tr_size op in
      if \<not> (index < length (blocks d) \<and> index < length (block_sizes d)) then Inl BadAccess
      else case tr_type op of
        ALLOC \<Rightarrow>
          (case op_malloc ops (size_t size) (heap d) of
             None \<Rightarrow> Inl Diverges
           | Some (p, h) \<Rightarrow>
               if p = NULL then Inl AppError
               else let d = remember index p (size_t size) (d\<lparr>heap := h\<rparr>);
                        total_size = total_size + size
                    in Inr (total_size, (if total_size > max_total_size then total_size else max_total_size), d))
      | REALLOC \<Rightarrow>
          let oldsize = to_int32 (block_sizes d ! index) in
          (case op_realloc ops (blocks d ! index) (size_t size) (heap d) of
             None \<Rightarrow> Inl Diverges
           | Some (newp, h) \<Rightarrow>
               if newp = NULL then Inl AppError
               else let d = remember index newp (size_t size) (d\<lparr>heap := h\<rparr>);
                        total_size = total_size + (size - oldsize)
                    in Inr (total_size, (if total_size > max_total_size then total_size else max_total_size), d))
      | FREE \<Rightarrow>
          (case op_free ops (blocks d ! index) (heap d) of
             None \<Rightarrow> Inl Diverges
           | Some h \<Rightarrow>
               Inr (total_size - to_int32 (block_sizes d ! index), max_total_size, d\<lparr>heap := h\<rparr>)))"

fun util_ops :: "'a mm_ops \<Rightarrow> traceop_t list \<Rightarrow> int \<times> int \<times> 'a driver \<Rightarrow> stop + (int \<times> int \<times> 'a driver)" where
  "util_ops ops [] st = Inr st"
| "util_ops ops (op # tr) st =
     (case util_op ops op st of Inl e \<Rightarrow> Inl e | Inr st \<Rightarrow> util_ops ops tr st)"

text \<open>The two operands of the final division.\<close>

definition eval_mm_util :: "'a mm_ops \<Rightarrow> traceop_t list \<Rightarrow> 'a driver \<Rightarrow> stop + (int \<times> nat \<times> 'a driver)" where
  "eval_mm_util ops tr d =
     (let (r, h) = op_init ops (mem_reset_brk (heap d)) in
      if r < 0 then Inl AppError
      else case util_ops ops tr (0, 0, d\<lparr>heap := h\<rparr>) of
        Inl e \<Rightarrow> Inl e
      | Inr (total_size, max_total_size, d) \<Rightarrow> Inr (max_total_size, mem_heapsize (heap d), d))"

definition speed_op :: "'a mm_ops \<Rightarrow> traceop_t \<Rightarrow> 'a driver \<Rightarrow> stop + 'a driver" where
  "speed_op ops op d =
     (let index = tr_index op in
      if \<not> index < length (blocks d) then Inl BadAccess
      else case tr_type op of
        ALLOC \<Rightarrow>
          (case op_malloc ops (size_t (tr_size op)) (heap d) of
             None \<Rightarrow> Inl Diverges
           | Some (p, h) \<Rightarrow>
               if p = NULL then Inl AppError
               else Inr (d\<lparr>heap := h, blocks := (blocks d)[index := p]\<rparr>))
      | REALLOC \<Rightarrow>
          (case op_realloc ops (blocks d ! index) (size_t (tr_size op)) (heap d) of
             None \<Rightarrow> Inl Diverges
           | Some (newp, h) \<Rightarrow>
               if newp = NULL then Inl AppError
               else Inr (d\<lparr>heap := h, blocks := (blocks d)[index := newp]\<rparr>))
      | FREE \<Rightarrow>
          (case op_free ops (blocks d ! index) (heap d) of
             None \<Rightarrow> Inl Diverges
           | Some h \<Rightarrow> Inr (d\<lparr>heap := h\<rparr>)))"

fun speed_ops :: "'a mm_ops \<Rightarrow> traceop_t list \<Rightarrow> 'a driver \<Rightarrow> stop + 'a driver" where
  "speed_ops ops [] d = Inr d"
| "speed_ops ops (op # tr) d =
     (case speed_op ops op d of Inl e \<Rightarrow> Inl e | Inr d \<Rightarrow> speed_ops ops tr d)"

definition eval_mm_speed :: "'a mm_ops \<Rightarrow> traceop_t list \<Rightarrow> 'a driver \<Rightarrow> stop + 'a driver" where
  "eval_mm_speed ops tr d =
     (let (r, h) = op_init ops (mem_reset_brk (heap d)) in
      if r < 0 then Inl AppError else speed_ops ops tr (d\<lparr>heap := h\<rparr>))"

end
