(* ===== verification/MdriverCorrect.thy ===== *)
theory MdriverCorrect
  imports Mdriver
begin

text \<open>
  The driver against any allocator that keeps the contract.  A well-formed trace allocates an
  id before it reallocates or frees it.  On such a trace \<open>eval_mm_valid\<close> returns, and the
  only complaints it can log are that the allocator ran out of memory -- as long as no id
  with a low byte of 128 or more is reallocated; for those ids the data check rejects every
  correct allocator, because it compares a signed \<open>char\<close> with an \<open>int\<close> in \<open>0..255\<close>.
\<close>

section \<open>Well-formed traces\<close>

fun trace_ok :: "nat \<Rightarrow> nat \<Rightarrow> nat set \<Rightarrow> traceop_t list \<Rightarrow> bool" where
  "trace_ok N limit A [] \<longleftrightarrow> True"
| "trace_ok N limit A (op # tr) \<longleftrightarrow>
     tr_index op < N \<and>
     (case tr_type op of
        ALLOC \<Rightarrow> tr_index op \<notin> A \<and> 0 < tr_size op \<and> tr_size op \<le> int limit \<and>
                 trace_ok N limit (insert (tr_index op) A) tr
      | REALLOC \<Rightarrow> tr_index op \<in> A \<and> 0 < tr_size op \<and> tr_size op \<le> int limit \<and> trace_ok N limit A tr
      | FREE \<Rightarrow> tr_index op \<in> A \<and> trace_ok N limit (A - {tr_index op}) tr)"

section \<open>What the driver remembers\<close>

text \<open>\<open>owns d A L\<close>: the ids in \<open>A\<close> name exactly the live blocks.\<close>

definition owns :: "'a driver \<Rightarrow> nat set \<Rightarrow> (nat \<rightharpoonup> byte list) \<Rightarrow> bool" where
  "owns d A L \<longleftrightarrow>
     length (block_sizes d) = length (blocks d) \<and> A \<subseteq> {..<length (blocks d)} \<and>
     inj_on (\<lambda>i. blocks d ! i) A \<and> dom L = (\<lambda>i. blocks d ! i) ` A \<and>
     (\<forall>i\<in>A. \<exists>c. L (blocks d ! i) = Some c \<and> block_sizes d ! i \<le> length c \<and>
        0 < block_sizes d ! i \<and> block_sizes d ! i < 2 ^ 31)"

definition filled :: "'a driver \<Rightarrow> nat set \<Rightarrow> (nat \<rightharpoonup> byte list) \<Rightarrow> bool" where
  "filled d A L \<longleftrightarrow> (\<forall>i\<in>A. \<exists>c. L (blocks d ! i) = Some c \<and>
     take (block_sizes d ! i) c = replicate (block_sizes d ! i) (of_nat (low_byte i)))"

definition range_of :: "'a driver \<Rightarrow> nat \<Rightarrow> range_t" where
  "range_of d i = \<lparr>r_lo = blocks d ! i, r_hi = blocks d ! i + block_sizes d ! i - 1\<rparr>"

definition ranged :: "'a driver \<Rightarrow> nat set \<Rightarrow> bool" where
  "ranged d A \<longleftrightarrow> distinct (map r_lo (ranges d)) \<and> set (ranges d) = range_of d ` A"

lemma owns_upd [simp]:
  "owns (d\<lparr>heap := h\<rparr>) A L = owns d A L" "owns (d\<lparr>ranges := r\<rparr>) A L = owns d A L"
  "owns (fill p v n d) A L = owns d A L"
  by (simp_all add: owns_def fill_def)

lemma owns_forget:
  assumes "owns d A L" and "i \<in> A"
  shows "owns d (A - {i}) (L(blocks d ! i := None))"
  using assms unfolding owns_def
  by (auto simp: inj_on_def dom_def)

lemma owns_remember:
  assumes o: "owns d A L" and i: "i \<notin> A" "i < length (blocks d)" and p: "p \<notin> dom L"
    and n: "n \<le> length c" "0 < n" "n < 2 ^ 31"
  shows "owns (remember i p n d) (insert i A) (L(p \<mapsto> c))"
proof -
  from o i have same: "blocks (remember i p n d) ! j = blocks d ! j" "block_sizes (remember i p n d) ! j = block_sizes d ! j"
    if "j \<in> A" for j
  proof -
    from that i(1) have "i \<noteq> j" by blast
    then show "blocks (remember i p n d) ! j = blocks d ! j" "block_sizes (remember i p n d) ! j = block_sizes d ! j"
      by (simp_all add: remember_def)
  qed
  from o i have here: "blocks (remember i p n d) ! i = p" "block_sizes (remember i p n d) ! i = n"
    by (auto simp: remember_def owns_def)
  from o p have ne: "blocks d ! j \<noteq> p" if "j \<in> A" for j using that by (auto simp: owns_def)
  have "inj_on (\<lambda>j. blocks (remember i p n d) ! j) (insert i A)"
    using o ne same here by (force simp: owns_def inj_on_def)
  moreover have "dom (L(p \<mapsto> c)) = (\<lambda>j. blocks (remember i p n d) ! j) ` insert i A"
    using o same here by (auto simp: owns_def)
  moreover have "\<exists>e. (L(p \<mapsto> c)) (blocks (remember i p n d) ! j) = Some e \<and> block_sizes (remember i p n d) ! j \<le> length e \<and>
      0 < block_sizes (remember i p n d) ! j \<and> block_sizes (remember i p n d) ! j < 2 ^ 31" if "j \<in> insert i A" for j
    using that o same here n ne by (cases "j = i") (auto simp: owns_def)
  ultimately show ?thesis
    using o i unfolding owns_def by (simp add: remember_def)
qed

lemma filled_forget: "filled d A L \<Longrightarrow> owns d A L \<Longrightarrow> i \<in> A \<Longrightarrow> filled d (A - {i}) (L(blocks d ! i := None))"
  unfolding filled_def owns_def inj_on_def by (auto; metis)

lemma filled_remember:
  assumes f: "filled d A L" and o: "owns d A L" and i: "i \<notin> A" "i < length (blocks d)" and p: "p \<notin> dom L"
    and c: "take n c = replicate n (of_nat (low_byte i))"
  shows "filled (remember i p n d) (insert i A) (L(p \<mapsto> c))"
proof -
  from o p have ne: "blocks d ! j \<noteq> p" if "j \<in> A" for j using that by (auto simp: owns_def)
  with f o i c show ?thesis by (auto simp: filled_def remember_def owns_def nth_list_update)
qed

lemma remove_range_lo:
  assumes "distinct (map r_lo rs)"
  shows "set (remove_range rs a) = {r \<in> set rs. r_lo r \<noteq> a}" "distinct (map r_lo (remove_range rs a))"
proof -
  have s: "set (remove_range rs a) = {r \<in> set rs. r_lo r \<noteq> a}" if "distinct (map r_lo rs)" for rs
    using that by (induction rs) (auto simp: image_iff)
  then show "set (remove_range rs a) = {r \<in> set rs. r_lo r \<noteq> a}" using assms .
  from assms show "distinct (map r_lo (remove_range rs a))"
    by (induction rs) (auto simp: s)
qed

lemma ranged_forget:
  assumes "ranged d A" and "inj_on (\<lambda>i. blocks d ! i) A" and "i \<in> A"
  shows "ranged (d\<lparr>ranges := remove_range (ranges d) (blocks d ! i)\<rparr>) (A - {i})"
  using assms remove_range_lo [of "ranges d" "blocks d ! i"]
  by (auto simp: ranged_def range_of_def inj_on_def)

lemma ranged_remember:
  assumes r: "ranged d A" and o: "owns d A L" and i: "i \<notin> A" "i < length (blocks d)" and p: "p \<notin> dom L"
    and d': "ranges d' = \<lparr>r_lo = p, r_hi = p + n - 1\<rparr> # ranges d"
      "blocks d' = (blocks d)[i := p]" "block_sizes d' = (block_sizes d)[i := n]"
  shows "ranged d' (insert i A)"
proof -
  from o i have "range_of d' j = range_of d j" if "j \<in> A" for j
    using that by (auto simp: range_of_def d' owns_def nth_list_update)
  moreover have "range_of d' i = \<lparr>r_lo = p, r_hi = p + n - 1\<rparr>"
    using o i by (simp add: range_of_def d' owns_def)
  moreover have "p \<notin> r_lo ` set (ranges d)"
    using r o p by (auto simp: ranged_def range_of_def owns_def)
  ultimately show ?thesis using r by (auto simp: ranged_def d')
qed


lemma size_t_int [simp]: "0 < n \<Longrightarrow> n < 2 ^ 31 \<Longrightarrow> size_t n = nat n"
  by (simp add: size_t_def)

lemma signed_byte_small: "m < 128 \<Longrightarrow> sint (of_nat m :: byte) = int m"
proof -
  assume m: "m < 128"
  have "sint (of_nat m :: byte) = sint (word_of_int (int m) :: byte)" by simp
  also have "\<dots> = signed_take_bit 7 (int m)" by (simp only: sint_sbintrunc') simp
  also have "\<dots> = int m" by (rule signed_take_bit_int_eq_self) (use m in auto)
  finally show ?thesis .
qed

lemma signed_byte_large: "128 \<le> m \<Longrightarrow> sint (b :: byte) \<noteq> int m"
  using sint_less [of b] by simp

lemma log_upd [simp]: "log (remember i p n d) = log d" "log (fill p v n d) = log d"
  "blocks (fill p v n d) = blocks d" "block_sizes (fill p v n d) = block_sizes d"
  "ranges (fill p v n d) = ranges d" "heap (remember i p n d) = heap d" "ranges (remember i p n d) = ranges d"
  by (simp_all add: remember_def fill_def)

section \<open>The verdict\<close>

text \<open>A verdict on a trace, whose first operation is number \<open>k\<close>, that blames the allocator for nothing but an
  exhausted arena: it is favourable and complains about nothing, or the one complaint is about an
  allocation or reallocation for which there is no memory left, or about a reallocated id with a
  low byte of 128 or more.\<close>

definition fair_complaint :: "('a arena_scheme \<Rightarrow> nat \<Rightarrow> bool) \<Rightarrow> traceop_t \<Rightarrow> complaint \<Rightarrow> 'a arena_scheme \<Rightarrow> bool" where
  "fair_complaint no_memory op m h \<longleftrightarrow>
     (m = MallocFailed \<and> tr_type op = ALLOC \<and> no_memory h (nat (tr_size op))) \<or>
     (m = ReallocFailed \<and> tr_type op = REALLOC \<and> no_memory h (nat (tr_size op))) \<or>
     (m = DataLost \<and> tr_type op = REALLOC \<and> 128 \<le> low_byte (tr_index op))"

definition only_memory :: "('a arena_scheme \<Rightarrow> nat \<Rightarrow> bool) \<Rightarrow> int \<Rightarrow> nat \<Rightarrow> traceop_t list \<Rightarrow> 'a driver \<Rightarrow> bool \<Rightarrow> 'a driver \<Rightarrow> bool" where
  "only_memory no_memory t k tr d b d' \<longleftrightarrow>
     (if b then log d' = log d
      else \<exists>j < length tr. \<exists>m. log d' = log d @ [(t, k + j, m)] \<and> fair_complaint no_memory (tr ! j) m (heap d'))"

lemma only_memory_0:
  "only_memory no_memory t 0 tr d b d' \<longleftrightarrow>
     (if b then log d' = log d
      else \<exists>j < length tr. \<exists>m. log d' = log d @ [(t, j, m)] \<and> fair_complaint no_memory (tr ! j) m (heap d'))"
  by (simp add: only_memory_def)

lemma only_memory_first:
  "log d' = log d @ [(t, k, m)] \<Longrightarrow> fair_complaint no_memory op m (heap d') \<Longrightarrow> only_memory no_memory t k (op # tr) d False d'"
  unfolding only_memory_def by (auto intro!: exI [of _ 0])

lemma only_memory_Cons:
  assumes "only_memory no_memory t (Suc k) tr d' b d''" and "log d' = log d"
  shows "only_memory no_memory t k (op # tr) d b d''"
proof (cases b)
  case False
  with assms obtain j m where "j < length tr" "log d'' = log d @ [(t, Suc k + j, m)]"
    "fair_complaint no_memory (tr ! j) m (heap d'')" by (auto simp: only_memory_def)
  then show ?thesis using False unfolding only_memory_def by (auto intro!: exI [of _ "Suc j"])
qed (use assms in \<open>simp add: only_memory_def\<close>)

section \<open>One operation\<close>

context allocator
begin

definition driver_ok :: "nat \<Rightarrow> nat \<Rightarrow> nat \<Rightarrow> 'a driver \<Rightarrow> nat set \<Rightarrow> bool" where
  "driver_ok lo hi N d A \<longleftrightarrow> length (blocks d) = N \<and> (\<exists>L. rel lo hi (heap d) L \<and> owns d A L \<and> filled d A L \<and> ranged d A)"

lemma add_range_ok:
  assumes r: "rel lo hi (heap d) L" and p: "L p = Some c" and n: "0 < n" "n \<le> length c"
    and o: "owns d A K" and ra: "ranged d A" and K: "\<And>q. q \<in> dom K \<Longrightarrow> q \<noteq> p \<and> L q = K q"
  shows "add_range p (int n) t i d = Inr (True, d\<lparr>ranges := \<lparr>r_lo = p, r_hi = p + n - 1\<rparr> # ranges d\<rparr>)"
proof -
  note lv = live_ok [OF r p] and ar = arena_ok [OF r]
  have "IS_ALIGNED p" using lv by (simp add: IS_ALIGNED_def ALIGNMENT_def)
  moreover have "\<not> (p < mem_heap_lo (heap d) \<or> mem_heap_hi (heap d) < p \<or>
      p + n - 1 < mem_heap_lo (heap d) \<or> mem_heap_hi (heap d) < p + n - 1)"
  proof -
    from lv ar have "lo \<le> p" "p + length c \<le> mem_brk (heap d)" "mem_start_brk (heap d) = lo" by blast+
    then show ?thesis using n by (auto simp: mem_heap_lo_def mem_heap_hi_def)
  qed
  moreover have "\<not> (r_lo q \<le> p \<and> p \<le> r_hi q \<or> r_lo q \<le> p + n - 1 \<and> p + n - 1 \<le> r_hi q)" if "q \<in> set (ranges d)" for q
  proof -
    from that ra obtain j where j: "j \<in> A" "q = range_of d j" by (auto simp: ranged_def)
    with o obtain e where e: "K (blocks d ! j) = Some e" "block_sizes d ! j \<le> length e" "0 < block_sizes d ! j"
      by (auto simp: owns_def)
    with K [of "blocks d ! j"] have "L (blocks d ! j) = Some e" "blocks d ! j \<noteq> p" by auto
    from disjoint_ok [OF r p this(1)] this(2) e(2,3) n show ?thesis
      by (auto simp: j(2) range_of_def)
  qed
  ultimately show ?thesis using n(1) by (auto simp: add_range_def Let_def)
qed

text \<open>A block that has just been handed out is checked, filled and remembered.\<close>

lemma accept_block:
  assumes r: "rel lo hi h (K(p \<mapsto> c))" and o: "owns d A K" and f: "filled d A K" and ra: "ranged d A"
    and i: "i \<notin> A" "i < length (blocks d)" and p: "p \<notin> dom K" and n: "0 < n" "n < 2 ^ 31" "n \<le> length c"
    and N: "length (blocks d) = N"
  shows "\<exists>d'. add_range p (int n) t k (d\<lparr>heap := h\<rparr>) = Inr (True, d') \<and> log d' = log d \<and>
     heap d' = h \<and> block_sizes d' = block_sizes d \<and> blocks d' = blocks d \<and>
     driver_ok lo hi N (remember i p n (fill p (of_nat (low_byte i)) n d')) (insert i A)"
proof -
  let ?d' = "d\<lparr>heap := h, ranges := \<lparr>r_lo = p, r_hi = p + n - 1\<rparr> # ranges d\<rparr>"
  let ?c = "replicate n (of_nat (low_byte i)) @ drop n c"
  have "add_range p (int n) t k (d\<lparr>heap := h\<rparr>) = Inr (True, (d\<lparr>heap := h\<rparr>)\<lparr>ranges := \<lparr>r_lo = p, r_hi = p + n - 1\<rparr> # ranges (d\<lparr>heap := h\<rparr>)\<rparr>)"
    by (rule add_range_ok [of lo hi _ "K(p \<mapsto> c)" _ c _ A K])
       (use r o ra p n in \<open>auto simp: ranged_def range_of_def\<close>)
  moreover have "driver_ok lo hi N (remember i p n (fill p (of_nat (low_byte i)) n ?d')) (insert i A)"
    unfolding driver_ok_def
  proof (intro exI conjI)
    show "length (blocks (remember i p n (fill p (of_nat (low_byte i)) n ?d'))) = N"
      using N by (simp add: remember_def)
    have "rel lo hi (h\<lparr>mem := memset p (of_nat (low_byte i)) n (mem h)\<rparr>) ((K(p \<mapsto> c))(p \<mapsto> ?c))"
      by (rule fill_ok [OF r]) (use n in auto)
    then show "rel lo hi (heap (remember i p n (fill p (of_nat (low_byte i)) n ?d'))) (K(p \<mapsto> ?c))"
      by (simp add: fill_def)
    show "owns (remember i p n (fill p (of_nat (low_byte i)) n ?d')) (insert i A) (K(p \<mapsto> ?c))"
      by (rule owns_remember) (use o i p n in auto)
    show "filled (remember i p n (fill p (of_nat (low_byte i)) n ?d')) (insert i A) (K(p \<mapsto> ?c))"
      by (rule filled_remember) (use o f i p n in \<open>auto simp: filled_def\<close>)
    show "ranged (remember i p n (fill p (of_nat (low_byte i)) n ?d')) (insert i A)"
      by (rule ranged_remember [OF ra o i p]) (simp_all add: remember_def fill_def)
  qed
  ultimately show ?thesis by simp
qed

lemma op_ALLOC:
  assumes d: "driver_ok lo hi N d A" and i: "i \<notin> A" "i < length (blocks d)" "i < length (block_sizes d)"
    and n: "0 < n" "n \<le> int limit" "n < 2 ^ 31"
  shows "\<exists>b d'. valid_op ops t k \<lparr>tr_type = ALLOC, tr_index = i, tr_size = n\<rparr> d = Inr (b, d') \<and>
     (if b then driver_ok lo hi N d' (insert i A) \<and> log d' = log d else log d' = log d @ [(t, k, MallocFailed)] \<and> full lo hi (heap d') (nat n))"
proof -
  from d obtain L where L: "rel lo hi (heap d) L" "owns d A L" "filled d A L" "ranged d A"
    and N: "length (blocks d) = N" by (auto simp: driver_ok_def)
  have nn: "nat n \<le> limit" "0 < nat n" "nat n < 2 ^ 31" "int (nat n) = n" using n by auto
  from malloc_ok [OF L(1) nn(2,1)] obtain p h
    where p: "op_malloc ops (nat n) (heap d) = Some (p, h)" "p = NULL \<longrightarrow> full lo hi h (nat n)"
      "p \<noteq> NULL \<longrightarrow> p \<notin> dom L \<and> (\<exists>c. nat n \<le> length c \<and> rel lo hi h (L(p \<mapsto> c)))" by blast
  show ?thesis
  proof (cases "p = NULL")
    case True
    then show ?thesis using p(1,2) n i by (auto simp: valid_op_def Let_def malloc_error_def)
  next
    case False
    with p(3) obtain c where c: "p \<notin> dom L" "nat n \<le> length c" "rel lo hi h (L(p \<mapsto> c))" by blast
    from accept_block [OF c(3) L(2-4) i(1,2) c(1) nn(2,3) c(2) N, of t k, unfolded nn(4)]
    obtain d' where "add_range p n t k (d\<lparr>heap := h\<rparr>) = Inr (True, d')" "log d' = log d"
      "driver_ok lo hi N (remember i p (nat n) (fill p (of_nat (low_byte i)) (nat n) d')) (insert i A)" by blast
    then show ?thesis using p(1) n i False by (auto simp: valid_op_def Let_def)
  qed
qed

lemma op_FREE:
  assumes d: "driver_ok lo hi N d A" and i: "i \<in> A"
  shows "\<exists>d'. valid_op ops t k \<lparr>tr_type = FREE, tr_index = i, tr_size = n\<rparr> d = Inr (True, d') \<and>
     driver_ok lo hi N d' (A - {i}) \<and> log d' = log d"
proof -
  from d obtain L where L: "rel lo hi (heap d) L" "owns d A L" "filled d A L" "ranged d A"
    and N: "length (blocks d) = N" by (auto simp: driver_ok_def)
  let ?p = "blocks d ! i"
  have "?p \<in> dom L" "inj_on (\<lambda>i. blocks d ! i) A" and len: "i < length (blocks d)" "i < length (block_sizes d)"
    using L(2) i by (auto simp: owns_def)
  from free_ok [OF L(1) this(1)] obtain h
    where h: "op_free ops ?p (heap d) = Some h" "rel lo hi h (L(?p := None))" by blast
  let ?d' = "d\<lparr>ranges := remove_range (ranges d) ?p, heap := h\<rparr>"
  have "ranged (d\<lparr>ranges := remove_range (ranges d) ?p\<rparr>) (A - {i})"
    by (rule ranged_forget) fact+
  moreover have "owns d (A - {i}) (L(?p := None))" by (rule owns_forget) fact+
  moreover have "filled d (A - {i}) (L(?p := None))" by (rule filled_forget) fact+
  ultimately have "driver_ok lo hi N ?d' (A - {i})"
    unfolding driver_ok_def by (intro conjI exI [of _ "L(?p := None)"]) (use h N in \<open>simp_all add: filled_def ranged_def range_of_def\<close>)
  then show ?thesis using h(1) len by (simp add: valid_op_def Let_def)
qed

text \<open>After a successful reallocation the data check passes exactly for the ids whose low
  byte is a non-negative \<open>char\<close>.\<close>

lemma op_REALLOC:
  assumes d: "driver_ok lo hi N d A" and i: "i \<in> A" and n: "0 < n" "n \<le> int limit" "n < 2 ^ 31"
  shows "\<exists>b d'. valid_op ops t k \<lparr>tr_type = REALLOC, tr_index = i, tr_size = n\<rparr> d = Inr (b, d') \<and>
     (if b then low_byte i < 128 \<and> driver_ok lo hi N d' A \<and> log d' = log d
      else log d' = log d @ [(t, k, ReallocFailed)] \<and> full lo hi (heap d') (nat n) \<or> 128 \<le> low_byte i \<and> log d' = log d @ [(t, k, DataLost)])"
proof -
  from d obtain L where L: "rel lo hi (heap d) L" "owns d A L" "filled d A L" "ranged d A"
    and N: "length (blocks d) = N" by (auto simp: driver_ok_def)
  let ?p = "blocks d ! i" and ?m = "block_sizes d ! i"
  have inj: "inj_on (\<lambda>i. blocks d ! i) A" and len: "i < length (blocks d)" "i < length (block_sizes d)"
    using L(2) i by (auto simp: owns_def)
  from L(2,3) i obtain c where c: "L ?p = Some c" "?m \<le> length c" "0 < ?m" "?m < 2 ^ 31"
    "take ?m c = replicate ?m (of_nat (low_byte i))" by (fastforce simp: owns_def filled_def)
  have nn: "nat n \<le> limit" "0 < nat n" "nat n < 2 ^ 31" "int (nat n) = n" using n by auto
  from realloc_ok [OF L(1) c(1) nn(2,1)] obtain q h
    where p: "op_realloc ops ?p (nat n) (heap d) = Some (q, h)" "q = NULL \<longrightarrow> full lo hi h (nat n)" and
      q: "q \<noteq> NULL \<longrightarrow> (q = ?p \<or> q \<notin> dom L) \<and>
          (\<exists>c'. nat n \<le> length c' \<and> take (min (length c) (nat n)) c' = take (min (length c) (nat n)) c \<and>
            rel lo hi h ((L(?p := None))(q \<mapsto> c')))"
    by (metis (no_types, lifting))
  show ?thesis
  proof (cases "q = NULL")
    case True
    then show ?thesis using p n len by (auto simp: valid_op_def Let_def malloc_error_def)
  next
    case False
    with q obtain c' where c': "q = ?p \<or> q \<notin> dom L" "nat n \<le> length c'"
      "take (min (length c) (nat n)) c' = take (min (length c) (nat n)) c"
      "rel lo hi h ((L(?p := None))(q \<mapsto> c'))" by blast
    let ?d1 = "d\<lparr>ranges := remove_range (ranges d) ?p\<rparr>" and ?K = "L(?p := None)"
    have ra: "ranged ?d1 (A - {i})" by (rule ranged_forget) fact+
    have o: "owns ?d1 (A - {i}) ?K" using owns_forget [OF L(2) i] by simp
    have f: "filled ?d1 (A - {i}) ?K" using filled_forget [OF L(3,2) i] by (simp add: filled_def)
    have "q \<notin> dom ?K" using c'(1) by auto
    moreover have "i \<notin> A - {i}" "i < length (blocks ?d1)" "insert i (A - {i}) = A" using len i by auto
    ultimately obtain d' where d': "add_range q n t k (?d1\<lparr>heap := h\<rparr>) = Inr (True, d')" "log d' = log d"
      "heap d' = h" "block_sizes d' = block_sizes d"
      "driver_ok lo hi N (remember i q (nat n) (fill q (of_nat (low_byte i)) (nat n) d')) A"
      using accept_block [OF c'(4) o f ra _ _ _ nn(2,3) c'(2), of i N t k, unfolded nn(4)] N by auto
    let ?os = "nat (if n < int ?m then n else int ?m)"
    have os: "?os = min (nat n) ?m" "0 < ?os" using n c(3) by auto
    have byte: "mem h (q + j) = of_nat (low_byte i)" if "j < ?os" for j
    proof -
      have "mem h (q + j) = c' ! j" using live_bytes [OF c'(4), of q c' j] that os(1) c'(2) by simp
      also have "\<dots> = take (min (length c) (nat n)) c' ! j" using that os(1) c(2) by simp
      also have "\<dots> = take ?m c ! j" using that os(1) c(2) by (simp add: c'(3))
      also have "\<dots> = of_nat (low_byte i)" using that os(1) by (simp add: c(5))
      finally show ?thesis .
    qed
    have lost: "data_lost q ?os i d' \<longleftrightarrow> 128 \<le> low_byte i"
    proof (cases "128 \<le> low_byte i")
      case True
      have "0 \<in> {0..<?os}" using os(2) by (simp only: atLeastLessThan_iff order_refl simp_thms)
      then have "data_lost q ?os i d'"
        unfolding data_lost_def using signed_byte_large [OF True] by blast
      with True show ?thesis by blast
    next
      case False
      then have "sint (mem h (q + j)) = int (low_byte i)" if "j < ?os" for j
        unfolding byte [OF that] by (intro signed_byte_small) simp
      with False show ?thesis by (simp add: data_lost_def d'(3))
    qed
    have m: "to_int32 ?m = int ?m" using c(4) by (rule to_int32_small)
    have "?d1\<lparr>heap := h\<rparr> = d\<lparr>heap := h, ranges := remove_range (ranges d) ?p\<rparr>" by simp
    with d'(1) have ar: "add_range q n t k (d\<lparr>heap := h, ranges := remove_range (ranges d) ?p\<rparr>) = Inr (True, d')"
      by (simp only:)
    have st: "size_t n = nat n" using n by simp
    let ?op = "\<lparr>tr_type = REALLOC, tr_index = i, tr_size = n\<rparr>"
    have v: "valid_op ops t k ?op d =
        (if 128 \<le> low_byte i then Inr (False, malloc_error t k DataLost d')
         else Inr (True, remember i q (nat n) (fill q (of_nat (low_byte i)) (nat n) d')))"
      unfolding lost [symmetric] using p(1) len False ar d'(4) m st
      by (simp add: valid_op_def Let_def cong: if_cong split del: if_split)
    show ?thesis
    proof (cases "128 \<le> low_byte i")
      case True
      with v d'(2) show ?thesis by (auto simp: malloc_error_def)
    next
      case False
      with v d'(2,5) show ?thesis by (auto simp: not_le)
    qed
  qed
qed

section \<open>Whole traces\<close>

lemma valid_op_ok:
  assumes d: "driver_ok lo hi N d A" and tr: "trace_ok N limit A (op # tr)" and lim: "limit < 2 ^ 31"
  shows "\<exists>b d' A'. valid_op ops t k op d = Inr (b, d') \<and> only_memory (full lo hi) t k (op # tr) d b d' \<and>
     (b \<longrightarrow> driver_ok lo hi N d' A' \<and> trace_ok N limit A' tr)"
proof -
  let ?i = "tr_index op" and ?n = "tr_size op"
  from d have lens: "length (block_sizes d) = length (blocks d)" "length (blocks d) = N"
    by (auto simp: driver_ok_def owns_def)
  from tr lens have i: "?i < length (blocks d)" "?i < length (block_sizes d)" by auto
  show ?thesis
  proof (cases "tr_type op")
    case ALLOC
    then have eq: "op = \<lparr>tr_type = ALLOC, tr_index = ?i, tr_size = ?n\<rparr>" by simp
    from ALLOC tr lim have n: "?i \<notin> A" "0 < ?n" "?n \<le> int limit" "?n < 2 ^ 31" "trace_ok N limit (insert ?i A) tr" by auto
    from op_ALLOC [OF d n(1) i n(2-4), of t k, folded eq] obtain b d'
      where v: "valid_op ops t k op d = Inr (b, d')"
        "if b then driver_ok lo hi N d' (insert ?i A) \<and> log d' = log d else log d' = log d @ [(t, k, MallocFailed)] \<and> full lo hi (heap d') (nat ?n)" by blast
    then have "only_memory (full lo hi) t k (op # tr) d b d'"
      using ALLOC by (cases b) (auto simp: only_memory_def fair_complaint_def)
    with v n(5) show ?thesis by (metis (full_types))
  next
    case REALLOC
    then have eq: "op = \<lparr>tr_type = REALLOC, tr_index = ?i, tr_size = ?n\<rparr>" by simp
    from REALLOC tr lim have n: "?i \<in> A" "0 < ?n" "?n \<le> int limit" "?n < 2 ^ 31" "trace_ok N limit A tr" by auto
    from op_REALLOC [OF d n(1-4), of t k, folded eq] obtain b d'
      where v: "valid_op ops t k op d = Inr (b, d')"
        "if b then low_byte ?i < 128 \<and> driver_ok lo hi N d' A \<and> log d' = log d
         else log d' = log d @ [(t, k, ReallocFailed)] \<and> full lo hi (heap d') (nat ?n) \<or>
           128 \<le> low_byte ?i \<and> log d' = log d @ [(t, k, DataLost)]" by blast
    have "only_memory (full lo hi) t k (op # tr) d b d'"
    proof (cases b)
      case False
      with v(2) obtain m where "log d' = log d @ [(t, k, m)]" "fair_complaint (full lo hi) op m (heap d')"
        using REALLOC by (auto simp: fair_complaint_def)
      then show ?thesis using False only_memory_first by simp
    qed (use v(2) in \<open>simp add: only_memory_def\<close>)
    with v n(5) show ?thesis by (metis (full_types))
  next
    case FREE
    then have eq: "op = \<lparr>tr_type = FREE, tr_index = ?i, tr_size = ?n\<rparr>" by simp
    from FREE tr have n: "?i \<in> A" "trace_ok N limit (A - {?i}) tr" by auto
    from op_FREE [OF d n(1), of t k ?n, folded eq] obtain d'
      where v: "valid_op ops t k op d = Inr (True, d')" "driver_ok lo hi N d' (A - {?i})" "log d' = log d" by blast
    then have "only_memory (full lo hi) t k (op # tr) d True d'" by (simp add: only_memory_def)
    with v n(2) show ?thesis by blast
  qed
qed

lemma valid_ops_ok:
  assumes "driver_ok lo hi N d A" and "trace_ok N limit A tr" and "limit < 2 ^ 31"
  shows "\<exists>b d'. valid_ops ops t k tr d = Inr (b, d') \<and> only_memory (full lo hi) t k tr d b d'"
  using assms
proof (induction tr arbitrary: d A k)
  case Nil
  then show ?case by (auto simp: only_memory_def)
next
  case (Cons op tr)
  from valid_op_ok [OF Cons.prems, of t k] obtain b d' A'
    where v: "valid_op ops t k op d = Inr (b, d')" "only_memory (full lo hi) t k (op # tr) d b d'"
      "b \<longrightarrow> driver_ok lo hi N d' A' \<and> trace_ok N limit A' tr" by blast
  show ?case
  proof (cases b)
    case True
    with v have d': "driver_ok lo hi N d' A'" "trace_ok N limit A' tr" "log d' = log d"
      by (simp_all add: only_memory_def)
    from Cons.IH [OF d'(1,2) Cons.prems(3), of "Suc k"] obtain b' d''
      where "valid_ops ops t (Suc k) tr d' = Inr (b', d'')" "only_memory (full lo hi) t (Suc k) tr d' b' d''" by blast
    with only_memory_Cons [OF this(2) d'(3)] v(1) True show ?thesis by auto
  qed (use v in auto)
qed

lemma eval_mm_valid_ok:
  assumes room: "room lo hi" and arena: "mem_start_brk (heap d) = lo" "mem_max_addr (heap d) = hi"
    and len: "length (block_sizes d) = length (blocks d)"
    and tr: "trace_ok (length (blocks d)) limit {} tr" "limit < 2 ^ 31"
  shows "\<exists>b d'. eval_mm_valid ops tr t d = Inr (b, d') \<and> only_memory (full lo hi) t 0 tr d b d'"
proof -
  have "fresh lo hi (mem_reset_brk (heap d))" using arena by (rule fresh_reset)
  from init_ok [OF room this] obtain h where h: "op_init ops (mem_reset_brk (heap d)) = (0, h)" "rel lo hi h Map.empty" by blast
  let ?d = "d\<lparr>ranges := [], heap := h\<rparr>"
  have "driver_ok lo hi (length (blocks d)) ?d {}"
    using h(2) len by (auto simp: driver_ok_def owns_def filled_def ranged_def)
  from valid_ops_ok [OF this tr, of t 0] obtain b d'
    where "valid_ops ops t 0 tr ?d = Inr (b, d')" "only_memory (full lo hi) t 0 tr ?d b d'" by blast
  moreover from this(2) have "only_memory (full lo hi) t 0 tr d b d'" by (cases b) (simp_all add: only_memory_def)
  ultimately show ?thesis using h(1) by (simp add: eval_mm_valid_def Let_def)
qed

end

section \<open>Utilization\<close>

text \<open>\<open>eval_mm_util\<close> divides the high-water mark of the requested bytes by the heap size.  Since
  live payloads never overlap and the heap never shrinks, the quotient is at most one.\<close>

definition requested :: "'a driver \<Rightarrow> nat set \<Rightarrow> int" where
  "requested d A = (\<Sum>i\<in>A. int (block_sizes d ! i))"

lemma requested_remember:
  assumes "owns d A L" and "i \<notin> A" "i < length (blocks d)"
  shows "requested (remember i p n d) (insert i A) = int n + requested d A"
proof -
  from assms have "finite A" "i < length (block_sizes d)" by (auto simp: owns_def intro: finite_subset)
  moreover have "(\<Sum>j\<in>A. int (block_sizes (remember i p n d) ! j)) = requested d A"
    unfolding requested_def by (rule sum.cong) (use assms(2) in \<open>auto simp: remember_def intro!: nth_list_update_neq\<close>)
  ultimately show ?thesis
    using assms(2) by (simp add: requested_def remember_def)
qed

lemma requested_forget:
  assumes "owns d A L" and "i \<in> A"
  shows "requested d A = int (block_sizes d ! i) + requested d (A - {i})"
proof -
  from assms have "finite A" by (auto simp: owns_def intro: finite_subset)
  then show ?thesis unfolding requested_def by (simp add: sum.remove [OF _ assms(2)])
qed

lemma requested_heap [simp]: "requested (d\<lparr>heap := h\<rparr>) A = requested d A"
  by (simp add: requested_def)

context allocator
begin

definition util_ok :: "nat \<Rightarrow> nat \<Rightarrow> nat \<Rightarrow> int \<times> int \<times> 'a driver \<Rightarrow> nat set \<Rightarrow> bool" where
  "util_ok lo hi N st A \<longleftrightarrow>
     (case st of (tot, mx, d) \<Rightarrow>
       length (blocks d) = N \<and> tot = requested d A \<and> 0 \<le> mx \<and> mx \<le> int (mem_heapsize (heap d)) \<and>
       (\<exists>L. rel lo hi (heap d) L \<and> owns d A L))"

lemma requested_le:
  assumes "rel lo hi (heap d) L" and "owns d A L"
  shows "requested d A \<le> int (mem_heapsize (heap d))"
proof -
  have "(\<Sum>i\<in>A. block_sizes d ! i) \<le> mem_heapsize (heap d)"
  proof (rule payload_sum [OF assms(1)])
    show "finite A" "inj_on (\<lambda>i. blocks d ! i) A"
      using assms(2) by (auto simp: owns_def intro: finite_subset)
  qed (use assms(2) in \<open>auto simp: owns_def\<close>)
  then show ?thesis unfolding requested_def using of_nat_mono [where ?'a = int] by fastforce
qed

lemma heapsize_mono:
  "rel lo hi s L \<Longrightarrow> rel lo hi s' L' \<Longrightarrow> mem_brk s \<le> mem_brk s' \<Longrightarrow> mem_heapsize s \<le> mem_heapsize s'"
  using arena_ok by (simp add: mem_heapsize_def)

text \<open>What a successful \<open>ALLOC\<close> or \<open>REALLOC\<close> does to the statistics.\<close>

lemma util_accept:
  assumes o: "owns d A K" and h: "rel lo hi h (K(p \<mapsto> c))" and i: "i \<notin> A" "i < length (blocks d)"
    and p: "p \<notin> dom K" and n: "0 < n" "n < 2 ^ 31" "n \<le> length c"
    and mx: "0 \<le> mx" "mx \<le> int (mem_heapsize h)" and N: "length (blocks d) = N"
    and te: "tot = int n + requested d A"
  shows "util_ok lo hi N (tot, (if tot > mx then tot else mx), remember i p n (d\<lparr>heap := h\<rparr>)) (insert i A)"
proof -
  let ?d = "remember i p n (d\<lparr>heap := h\<rparr>)"
  have o': "owns ?d (insert i A) (K(p \<mapsto> c))"
    by (rule owns_remember) (use o i p n in auto)
  have "requested ?d (insert i A) = int n + requested (d\<lparr>heap := h\<rparr>) A"
    by (rule requested_remember) (use o i in auto)
  then have "tot = requested ?d (insert i A)" using te by simp
  moreover from this have "tot \<le> int (mem_heapsize h)" using requested_le [of lo hi ?d] o' h by simp
  ultimately show ?thesis
    using mx o' h N by (auto simp: util_ok_def remember_def [of i p n "d\<lparr>heap := h\<rparr>"])
qed

lemma util_op_ok:
  assumes u: "util_ok lo hi N st A" and tr: "trace_ok N limit A (op # tr)" and lim: "limit < 2 ^ 31"
  shows "util_op ops op st = Inl AppError \<or>
    (\<exists>st' A'. util_op ops op st = Inr st' \<and> util_ok lo hi N st' A' \<and> trace_ok N limit A' tr)"
proof -
  obtain tot mx d where st: "st = (tot, mx, d)" by (cases st) auto
  let ?i = "tr_index op" and ?n = "tr_size op"
  from u st obtain L where L: "rel lo hi (heap d) L" "owns d A L" and N: "length (blocks d) = N"
    and t: "tot = requested d A" "0 \<le> mx" "mx \<le> int (mem_heapsize (heap d))" by (auto simp: util_ok_def)
  from L(2) tr N have i: "?i < length (blocks d)" "?i < length (block_sizes d)" by (auto simp: owns_def)
  show ?thesis
  proof (cases "tr_type op")
    case ALLOC
    with tr lim have n: "?i \<notin> A" "0 < nat ?n" "nat ?n \<le> limit" "nat ?n < 2 ^ 31" "size_t ?n = nat ?n" "int (nat ?n) = ?n"
      "trace_ok N limit (insert ?i A) tr" by auto
    from malloc_ok [OF L(1) n(2,3)] obtain p h where p: "op_malloc ops (nat ?n) (heap d) = Some (p, h)"
      "mem_brk (heap d) \<le> mem_brk h" "p \<noteq> NULL \<longrightarrow> p \<notin> dom L \<and> (\<exists>c. nat ?n \<le> length c \<and> rel lo hi h (L(p \<mapsto> c)))" by blast
    show ?thesis
    proof (cases "p = NULL")
      case True
      then show ?thesis using p(1) n(5) ALLOC i by (simp add: util_op_def st)
    next
      case False
      with p(3) obtain c where c: "p \<notin> dom L" "nat ?n \<le> length c" "rel lo hi h (L(p \<mapsto> c))" by blast
      have "mx \<le> int (mem_heapsize h)" using heapsize_mono [OF L(1) c(3) p(2)] t(3) by simp
      from util_accept [OF L(2) c(3) n(1) i(1) c(1) n(2,4) c(2) t(2) this N, of "tot + ?n"] n(6) t(1)
      have "util_ok lo hi N (tot + ?n, (if tot + ?n > mx then tot + ?n else mx), remember ?i p (nat ?n) (d\<lparr>heap := h\<rparr>)) (insert ?i A)"
        by simp
      moreover have "util_op ops op st = Inr (tot + ?n, (if tot + ?n > mx then tot + ?n else mx), remember ?i p (nat ?n) (d\<lparr>heap := h\<rparr>))"
        using False p(1) n(5) ALLOC i by (simp add: util_op_def st Let_def)
      ultimately show ?thesis using n(7) by blast
    qed
  next
    case REALLOC
    let ?p = "blocks d ! ?i" and ?m = "block_sizes d ! ?i"
    from REALLOC tr lim have n: "?i \<in> A" "0 < nat ?n" "nat ?n \<le> limit" "nat ?n < 2 ^ 31" "size_t ?n = nat ?n" "int (nat ?n) = ?n"
      "trace_ok N limit A tr" by auto
    from L(2) n(1) obtain c where c: "L ?p = Some c" "?m < 2 ^ 31" by (auto simp: owns_def)
    from realloc_ok [OF L(1) c(1) n(2,3)] obtain q h
      where q: "op_realloc ops ?p (nat ?n) (heap d) = Some (q, h)" "mem_brk (heap d) \<le> mem_brk h"
        "q \<noteq> NULL \<longrightarrow> (q = ?p \<or> q \<notin> dom L) \<and> (\<exists>c'. nat ?n \<le> length c' \<and> rel lo hi h ((L(?p := None))(q \<mapsto> c')))" by metis
    show ?thesis
    proof (cases "q = NULL")
      case True
      then show ?thesis using q(1) n(5) REALLOC i by (simp add: util_op_def st)
    next
      case False
      with q(3) obtain c' where c': "q = ?p \<or> q \<notin> dom L" "nat ?n \<le> length c'" "rel lo hi h ((L(?p := None))(q \<mapsto> c'))" by blast
      let ?A = "A - {?i}" and ?K = "L(?p := None)" and ?tot = "tot + (?n - int ?m)"
      have o: "owns d ?A ?K" by (rule owns_forget [OF L(2) n(1)])
      have nin: "?i \<notin> ?A" "q \<notin> dom ?K" "insert ?i ?A = A" using c'(1) n(1) by auto
      have te: "?tot = int (nat ?n) + requested d ?A"
        using requested_forget [OF L(2) n(1)] t(1) n(6) by simp
      have "mx \<le> int (mem_heapsize h)" using heapsize_mono [OF L(1) c'(3) q(2)] t(3) by simp
      from util_accept [OF o c'(3) nin(1) i(1) nin(2) n(2,4) c'(2) t(2) this N te] nin(3)
      have "util_ok lo hi N (?tot, (if ?tot > mx then ?tot else mx), remember ?i q (nat ?n) (d\<lparr>heap := h\<rparr>)) A" by simp
      moreover have "util_op ops op st = Inr (?tot, (if ?tot > mx then ?tot else mx), remember ?i q (nat ?n) (d\<lparr>heap := h\<rparr>))"
        using False q(1) n(5) REALLOC i to_int32_small [OF c(2)] by (simp add: util_op_def st Let_def)
      ultimately show ?thesis using n(7) by blast
    qed
  next
    case FREE
    let ?p = "blocks d ! ?i" and ?m = "block_sizes d ! ?i"
    from FREE tr have n: "?i \<in> A" "trace_ok N limit (A - {?i}) tr" by auto
    from L(2) n(1) have p: "?p \<in> dom L" "?m < 2 ^ 31" by (auto simp: owns_def)
    from free_ok [OF L(1) p(1)] obtain h where h: "op_free ops ?p (heap d) = Some h" "mem_brk (heap d) \<le> mem_brk h"
      "rel lo hi h (L(?p := None))" by blast
    have "mx \<le> int (mem_heapsize h)" using heapsize_mono [OF L(1) h(3,2)] t(3) by simp
    moreover have "tot - int ?m = requested d (A - {?i})"
      using requested_forget [OF L(2) n(1)] t(1) by simp
    moreover have "owns d (A - {?i}) (L(?p := None))" by (rule owns_forget [OF L(2) n(1)])
    ultimately have "util_ok lo hi N (tot - int ?m, mx, d\<lparr>heap := h\<rparr>) (A - {?i})"
      using h(3) N t(2) by (auto simp: util_ok_def)
    moreover have "util_op ops op st = Inr (tot - int ?m, mx, d\<lparr>heap := h\<rparr>)"
      using h(1) FREE i to_int32_small [OF p(2)] by (simp add: util_op_def st)
    ultimately show ?thesis using n(2) by blast
  qed
qed

lemma util_ops_ok:
  assumes "util_ok lo hi N st A" and "trace_ok N limit A tr" and "limit < 2 ^ 31"
  shows "util_ops ops tr st = Inl AppError \<or> (\<exists>st' A'. util_ops ops tr st = Inr st' \<and> util_ok lo hi N st' A')"
  using assms
proof (induction tr arbitrary: st A)
  case (Cons op tr)
  from util_op_ok [OF Cons.prems] show ?case
  proof (elim disjE exE conjE)
    fix st' A' assume "util_op ops op st = Inr st'" "util_ok lo hi N st' A'" "trace_ok N limit A' tr"
    with Cons.IH [OF this(2,3) Cons.prems(3)] show ?thesis by simp
  qed simp
qed auto

lemma eval_mm_util_ok:
  assumes room: "room lo hi" and arena: "mem_start_brk (heap d) = lo" "mem_max_addr (heap d) = hi"
    and len: "length (block_sizes d) = length (blocks d)"
    and tr: "trace_ok (length (blocks d)) limit {} tr" "limit < 2 ^ 31"
  shows "eval_mm_util ops tr d = Inl AppError \<or>
    (\<exists>mx sz d'. eval_mm_util ops tr d = Inr (mx, sz, d') \<and> 0 \<le> mx \<and> mx \<le> int sz)"
proof -
  have "fresh lo hi (mem_reset_brk (heap d))" using arena by (rule fresh_reset)
  from init_ok [OF room this] obtain h where h: "op_init ops (mem_reset_brk (heap d)) = (0, h)" "rel lo hi h Map.empty" by blast
  have "util_ok lo hi (length (blocks d)) (0, 0, d\<lparr>heap := h\<rparr>) {}"
    using h(2) len by (auto simp: util_ok_def requested_def owns_def)
  from util_ops_ok [OF this tr] h(1) show ?thesis
    by (auto simp: eval_mm_util_def util_ok_def)
qed

end

end
