(* ===== verification/Client.thy ===== *)
theory Client
  imports AllocSpec "HOL-Library.Sublist"
begin

text \<open>
  The clients of the interface: the states any sequence of calls and writes brings a heap to, as an
  inductive relation over the table of operations, and what every allocator that provides the interface
  guarantees in all of them.
\<close>

section \<open>Clients\<close>

text \<open>The states a client can bring the heap to: it starts it, and then requests, resizes and frees blocks
  and writes into those it owns.  \<open>own\<close> maps the address of each block to the bytes the client may rely
  on: what it wrote, what \<open>mm_realloc\<close> has to keep, and elsewhere what it found there.\<close>

inductive client :: "'a mm_ops \<Rightarrow> nat \<Rightarrow> nat \<Rightarrow> nat \<Rightarrow> 'a arena_scheme \<Rightarrow> (nat \<rightharpoonup> byte list) \<Rightarrow> bool"
  for ops limit lo hi where
  start: "fresh lo hi s \<Longrightarrow> op_init ops s = (0, s') \<Longrightarrow> client ops limit lo hi s' Map.empty"
| request: "client ops limit lo hi s own \<Longrightarrow> 0 < n \<Longrightarrow> n \<le> limit \<Longrightarrow> op_malloc ops n s = Some (p, s') \<Longrightarrow>
    client ops limit lo hi s' (if p = NULL then own else own(p \<mapsto> bytes (mem s') p n))"
| release: "client ops limit lo hi s own \<Longrightarrow> p \<in> dom own \<Longrightarrow> op_free ops p s = Some s' \<Longrightarrow>
    client ops limit lo hi s' (own(p := None))"
| resize: "client ops limit lo hi s own \<Longrightarrow> own p = Some c \<Longrightarrow> 0 < n \<Longrightarrow> n \<le> limit \<Longrightarrow>
    op_realloc ops p n s = Some (q, s') \<Longrightarrow>
    client ops limit lo hi s' (if q = NULL then own
      else (own(p := None))(q \<mapsto> take n c @ drop (length c) (bytes (mem s') q n)))"
| store: "client ops limit lo hi s own \<Longrightarrow> own p = Some c \<Longrightarrow> i < length c \<Longrightarrow>
    client ops limit lo hi (s\<lparr>mem := (mem s)(p + i := b)\<rparr>) (own(p \<mapsto> c[i := b]))"

text \<open>The blocks of the client are the live blocks of the heap, which may be longer.\<close>

definition covers :: "(nat \<rightharpoonup> byte list) \<Rightarrow> (nat \<rightharpoonup> byte list) \<Rightarrow> bool" where
  "covers L own \<longleftrightarrow> (\<forall>p. rel_option prefix (own p) (L p))"

lemma coversD: "covers L own \<Longrightarrow> own p = Some c \<Longrightarrow> \<exists>d. L p = Some d \<and> prefix c d"
  unfolding covers_def by (metis option_rel_Some1)

lemma covers_dom: "covers L own \<Longrightarrow> dom L = dom own"
  unfolding covers_def by (auto simp: dom_def) (metis option_rel_Some1 option_rel_Some2)+

lemma covers_simps [simp]:
  "covers Map.empty Map.empty"
  "covers L own \<Longrightarrow> covers (L(p := None)) (own(p := None))"
  "covers L own \<Longrightarrow> prefix c d \<Longrightarrow> covers (L(p \<mapsto> d)) (own(p \<mapsto> c))"
  by (simp_all add: covers_def)

lemma prefix_bytes: "n \<le> length d \<Longrightarrow> d = bytes m p (length d) \<Longrightarrow> prefix (bytes m p n) d"
  by (metis take_bytes min_absorb1 min_def take_is_prefix)

lemma prefix_resized:
  assumes "n \<le> length d" "d = bytes m q (length d)" "take (min (length c) n) d = take (min (length c) n) c"
  shows "prefix (take n c @ drop (length c) (bytes m q n)) d"
proof -
  have "take n d = bytes m q n" using assms(1,2) by (metis take_bytes min_absorb1)
  moreover have "take n c @ drop (length c) (take n d) = take n d"
  proof (cases "n \<le> length c")
    case False
    then have "take (length c) (take n d) = c" using assms(3) by (simp add: min_def)
    then show ?thesis using False by (metis append_take_drop_id nat_le_linear take_all)
  qed (use assms(1,3) in \<open>simp add: min_absorb2\<close>)
  ultimately show ?thesis by (metis take_is_prefix)
qed

text \<open>What a resized block keeps of the longer live block it keeps of its prefix.\<close>

lemma take_kept:
  assumes "prefix c e" and "take (min (length e) n) d = take (min (length e) n) e"
  shows "take (min (length c) n) d = take (min (length c) n) c"
proof -
  have "min (length c) n = min (length c) (min (length e) n)" using prefix_length_le [OF assms(1)] by simp
  then have "take (min (length c) n) d = take (length c) (take (min (length e) n) d)"
    "take (min (length c) n) e = take (length c) (take (min (length e) n) e)" by (simp_all only: take_take)
  then have "take (min (length c) n) d = take (min (length c) n) e" using assms(2) by simp
  also have "\<dots> = take (min (length c) n) c" using assms(1) by (auto simp: prefix_def)
  finally show ?thesis .
qed

section \<open>What every allocator guarantees\<close>

context allocator
begin

lemma client_request:
  assumes r: "rel lo hi s L" "covers L own" and n: "0 < n" "n \<le> limit" and m: "op_malloc ops n s = Some (p, s')"
  shows "\<exists>L'. rel lo hi s' L' \<and> covers L' (if p = NULL then own else own(p \<mapsto> bytes (mem s') p n))"
proof (cases "p = NULL")
  case False
  with malloc_ok [OF r(1) n] m obtain d where d: "n \<le> length d" "rel lo hi s' (L(p \<mapsto> d))" by auto
  from live_ok [OF d(2), of p d] have "d = bytes (mem s') p (length d)" by simp
  from covers_simps(3) [OF r(2) prefix_bytes [OF d(1) this]] d(2) False show ?thesis by (simp only: if_False) blast
qed (use malloc_ok [OF r(1) n] m r(2) in auto)

lemma client_resize:
  assumes r: "rel lo hi s L" "covers L own" and p: "own p = Some c" and n: "0 < n" "n \<le> limit"
    and m: "op_realloc ops p n s = Some (q, s')"
  shows "\<exists>L'. rel lo hi s' L' \<and> covers L' (if q = NULL then own
      else (own(p := None))(q \<mapsto> take n c @ drop (length c) (bytes (mem s') q n)))"
proof -
  from coversD [OF r(2) p] obtain e where e: "L p = Some e" "prefix c e" by blast
  show ?thesis
  proof (cases "q = NULL")
    case False
    with realloc_ok [OF r(1) e(1) n] m obtain d where d: "n \<le> length d" "take (min (length e) n) d = take (min (length e) n) e"
      "rel lo hi s' ((L(p := None))(q \<mapsto> d))" by auto
    from live_ok [OF d(3), of q d] have b: "d = bytes (mem s') q (length d)" by simp
    have "covers ((L(p := None))(q \<mapsto> d)) ((own(p := None))(q \<mapsto> take n c @ drop (length c) (bytes (mem s') q n)))"
      using covers_simps(3) [OF covers_simps(2) [OF r(2)] prefix_resized [OF d(1) b take_kept [OF e(2) d(2)]]] .
    with d(3) False show ?thesis by (simp only: if_False) blast
  qed (use realloc_ok [OF r(1) e(1) n] m r(2) in auto)
qed

lemma client_store:
  assumes r: "rel lo hi s L" "covers L own" and p: "own p = Some c" and i: "i < length c"
  shows "\<exists>L'. rel lo hi (s\<lparr>mem := (mem s)(p + i := b)\<rparr>) L' \<and> covers L' (own(p \<mapsto> c[i := b]))"
proof -
  from coversD [OF r(2) p] obtain e where e: "L p = Some e" "prefix c e" by blast
  let ?m = "(mem s)(p + i := b)"
  have i': "i < length e" using i prefix_length_le [OF e(2)] by simp
  have "rel lo hi (s\<lparr>mem := ?m\<rparr>) (L(p \<mapsto> bytes ?m p (length e)))"
    by (rule write_ok [OF r(1) e(1)]) (use i' in auto)
  moreover have "bytes ?m p (length e) = e[i := b]"
    by (rule nth_equalityI) (auto simp: live_bytes [OF r(1) e(1)] nth_list_update)
  moreover have "prefix (c[i := b]) (e[i := b])" using e(2) i by (auto simp: prefix_def list_update_append)
  ultimately have "rel lo hi (s\<lparr>mem := ?m\<rparr>) (L(p \<mapsto> e[i := b]))" "covers (L(p \<mapsto> e[i := b])) (own(p \<mapsto> c[i := b]))"
    using covers_simps(3) [OF r(2)] by simp_all
  then show ?thesis by blast
qed

lemma client_inv:
  assumes "room lo hi" and "client ops limit lo hi s own"
  shows "\<exists>L. rel lo hi s L \<and> covers L own"
  using assms(2)
proof (induction rule: client.induct)
  case (start s s')
  from init_ok [OF assms(1) start(1)] start(2) have "rel lo hi s' Map.empty" by auto
  then show ?case using covers_simps(1) by blast
next
  case (request s own n p s')
  then show ?case using client_request by blast
next
  case (release s own p s')
  then obtain L where r: "rel lo hi s L" "covers L own" by blast
  have "p \<in> dom L" using release(2) covers_dom [OF r(2)] by simp
  from free_ok [OF r(1) this] release(3) have "rel lo hi s' (L(p := None))" by auto
  with covers_simps(2) [OF r(2), of p] show ?case by blast
next
  case (resize s own p c n q s')
  then show ?case using client_resize by blast
next
  case (store s own p c i b)
  then show ?case using client_store by blast
qed

lemma client_blocks:
  assumes "room lo hi" and "client ops limit lo hi s own" and "own p = Some c"
  shows "8 dvd p \<and> lo \<le> p \<and> p + length c \<le> mem_brk s \<and> bytes (mem s) p (length c) = c \<and>
    (\<forall>q d. q \<noteq> p \<and> own q = Some d \<longrightarrow> q + length d \<le> p \<or> p + length c \<le> q)"
proof -
  from client_inv [OF assms(1,2)] obtain L where r: "rel lo hi s L" "covers L own" by blast
  from coversD [OF r(2) assms(3)] obtain e where e: "L p = Some e" "prefix c e" by blast
  have c: "length c \<le> length e" "c = take (length c) e" using e(2) by (auto simp: prefix_def)
  have "e = bytes (mem s) p (length e)" using live_ok [OF r(1) e(1)] by blast
  then have "bytes (mem s) p (length c) = c" using c by (metis take_bytes)
  moreover have "q + length d \<le> p \<or> p + length c \<le> q" if "q \<noteq> p" "own q = Some d" for q d
  proof -
    from coversD [OF r(2) that(2)] obtain f where f: "L q = Some f" "prefix d f" by blast
    then show ?thesis using disjoint_ok [OF r(1) e(1) f(1)] that(1) c(1) prefix_length_le [OF f(2)] by linarith
  qed
  ultimately show ?thesis using live_ok [OF r(1) e(1)] c(1) by auto
qed

end

end
