(* ===== verification/MmContract.thy ===== *)
theory MmContract
  imports MmRealloc MdriverCorrect Client
begin
text \<open>
  The contract of \<open>mm.c\<close> seen from outside: \<open>mm_init\<close> establishes \<open>mm_rel\<close> on a fresh arena,
  and the functions of the interface keep it.
\<close>

section \<open>mm\_init\<close>

lemma mm_init_shape:
  assumes f: "fresh lo hi s" and lo: "8 dvd lo" "0 < lo" and hi: "lo + 24 \<le> hi" "hi < MINUS1"
  obtains s1 where "mm_init s = (let (bp, s) = extend_heap (CHUNKSIZE div WSIZE) s1 in if bp = NULL then (-1, s) else (0, s))"
    "shape lo hi (mem s) s1 []" "root_bp s1 = lo + 8"
proof -
  have sb: "mem_sbrk (to_int32 (6 * WSIZE)) s = (lo, s\<lparr>mem_brk := lo + 24\<rparr>)"
    using mem_sbrk_ok [of 24 s] f hi by (simp add: fresh_def sizes)
  let ?p = "lo + 8"
  let ?a = "(s\<lparr>mem_brk := lo + 24, prol_bp := ?p\<rparr>)"
  let ?m2 = "wr32 (wr32 (wr32 (mem s) lo 0) (lo + 4) (PACK 16 1)) (lo + 16) (PACK 16 1)"
  let ?m4 = "wr32 (wr32 (wr32 ?m2 ?p 0) (lo + 12) (of_nat (lo + 24))) (lo + 20) (PACK 0 1)"
  have w4: "rd32 ?m4 (lo + 4) = PACK 16 1" "rd32 ?m4 (lo + 16) = PACK 16 1" "rd32 ?m4 (lo + 20) = PACK 0 1"
    by (simp_all add: rd32_wr32_far rd32_wr32_same)
  have at: "HDRP (lo + 8) = lo + 4" "HDRP (lo + 24) = lo + 20" "SUCCP (lo + 8) = lo + 8" "PREDP (lo + 8) = lo + 12"
    "MIN_BSIZE = 16" "lo + 2 * WSIZE = lo + 8"
    by (simp_all add: HDRP_def SUCCP_def PREDP_def MIN_BSIZE_def sizes)
  have sz: "GET_SIZE t (lo + 4) = 16" if "rd32 (mem t) (lo + 4) = PACK 16 (Suc 0)" for t :: mm
    by (rule GET_PACK(1) [of _ _ 16 1]) (use that in simp_all)
  have ft: "FTRP t (lo + 8) = lo + 16" if "rd32 (mem t) (lo + 4) = PACK 16 (Suc 0)" for t :: mm
    using sz [OF that] by (simp add: FTRP_def at sizes)
  have nx: "NEXT_BLKP t (lo + 8) = lo + 24" if "rd32 (mem t) (lo + 4) = PACK 16 (Suc 0)" for t :: mm
    using sz [OF that] by (simp add: NEXT_BLKP_def sizes add.commute)
  let ?s1 = "?a\<lparr>mem := ?m4, root_bp := ?p\<rparr>"
  show thesis
  proof
    have "lo \<noteq> MINUS1" using hi by simp
    then show "mm_init s = (let (bp, s) = extend_heap (CHUNKSIZE div WSIZE) ?s1 in if bp = NULL then (-1, s) else (0, s))"
      using sb by (simp add: mm_init_def Let_def PUT_def at ft nx rd32_wr32_far rd32_wr32_same)
    have "\<And>x. x < lo \<or> hi \<le> x \<Longrightarrow> ?m4 x = mem s x"
      using hi by (auto simp: wr32_outside)
    then show "shape lo hi (mem s) ?s1 []"
      using w4 f lo hi by (simp add: shape_def fresh_def add.commute)
    show "root_bp ?s1 = lo + 8" by simp
  qed
qed


lemma mm_init_inv:
  assumes f: "fresh lo hi s" and lo: "8 dvd lo" "0 < lo" and hi: "lo + 24 + CHUNKSIZE \<le> hi" "hi < MINUS1"
  shows "\<exists>s'. mm_init s = (0, s') \<and> inv lo hi (mem s) s' [(CHUNKSIZE, Free)] [lo + 24]"
proof -
  obtain s1 where m: "mm_init s = (let (bp, s) = extend_heap (CHUNKSIZE div WSIZE) s1 in if bp = NULL then (-1, s) else (0, s))"
    and sh: "shape lo hi (mem s) s1 []" and r: "root_bp s1 = lo + 8"
    by (rule mm_init_shape [OF f lo _ hi(2)]) (use hi in simp)
  let ?n = "4096 :: nat" and ?q = "mem_brk s1"
  have q: "?q = lo + 24" "mem_max_addr s1 = hi" using sh by (simp_all add: shape_def)
  have c: "CHUNKSIZE = 4 * 1024" "CHUNKSIZE div WSIZE = 1024" by (simp_all add: sizes)
  have n: "8 dvd ?n" "16 \<le> ?n" "?q + ?n \<le> hi" by simp_all (use hi q in \<open>simp add: CHUNKSIZE_def\<close>)
  let ?s2 = "grow ?n s1"
  note gr = shape_grow [OF sh n]
  have sh2: "shape lo hi (mem s) ?s2 ([] @ (?n, Free) # [])" using gr(1) by simp
  have co: "coalesce ?q ?s2 = (?q, ?s2)"
    by (rule shape_coalesce_none [OF sh2]) (use q in auto)
  obtain s' where s': "set_root ?q ?s2 = (?q, s')" "core lo hi (mem s) s' ([] @ [(?n, Free)]) [?q]"
    by (rule set_root_shape [OF gr(1), of "[]" ?q]) (use gr(2) r q in auto)
  have "extend_heap 1024 s1 = (let (q', s1) = coalesce ?q (grow (4 * 1024) s1) in set_root q' s1)"
    by (rule extend_heap_grow) (use q hi c in auto)
  then have "mm_init s = (0, s')" using co s'(1) q by (simp add: m c(2))
  moreover have "inv lo hi (mem s) s' [(?n, Free)] [?q]" using s'(2) q by (simp add: inv_def)
  ultimately show ?thesis by (simp add: q CHUNKSIZE_def)
qed

lemma mm_init_rel:
  assumes "fresh lo hi s" and "8 dvd lo" "0 < lo" and "lo + 24 + CHUNKSIZE \<le> hi" "hi < MINUS1"
  shows "\<exists>s'. mm_init s = (0, s') \<and> mm_rel lo hi (mem s) s' Map.empty"
proof -
  from mm_init_inv [OF assms] obtain s' where "mm_init s = (0, s')" "inv lo hi (mem s) s' [(CHUNKSIZE, Free)] [lo + 24]"
    by blast
  moreover have "live (lo + 24) [(CHUNKSIZE, Free)] = Map.empty" by simp
  ultimately show ?thesis by (metis mm_relI)
qed

text \<open>An arena too small for the first six words or the first chunk makes \<open>mm_init\<close> return -1.\<close>

lemma mm_init_no_room:
  assumes "fresh lo hi s" and "hi < lo + 24" and "hi < MINUS1"
  shows "fst (mm_init s) = -1"
proof -
  have "mem_sbrk (to_int32 (6 * WSIZE)) s = (MINUS1, s)"
    using assms by (simp add: mem_sbrk_def to_int32_small sizes fresh_def)
  then show ?thesis by (simp add: mm_init_def Let_def)
qed

section \<open>The interface as one contract\<close>

lemma mm_malloc_rel:
  assumes r: "mm_rel lo hi g s L" and n: "0 < n" "n \<le> 2 ^ 32 - 16"
  shows "mm_malloc n s = Some (NULL, s) \<or>
     (\<exists>p c s'. mm_malloc n s = Some (p, s') \<and> p \<noteq> NULL \<and> 8 dvd p \<and> p \<notin> dom L \<and> n \<le> length c \<and>
        mm_rel lo hi g s' (L(p \<mapsto> c)))"
proof -
  from r obtain bs fl where i: "inv lo hi g s bs fl" and L: "L = live (lo + 24) bs" by (auto simp: mm_rel_def)
  from mm_malloc_inv [OF i n] bsize_of(3) [OF n] show ?thesis unfolding L by fastforce
qed

lemma mm_malloc_0: "mm_malloc 0 s = Some (NULL, s)"
  by (simp add: mm_malloc_def)

lemma mm_free_NULL: "mm_free NULL s = s"
  by (simp add: mm_free_def)

lemma mm_realloc_NULL: "mm_realloc NULL n s = mm_malloc n s"
  by (simp add: mm_realloc_def)

lemma mm_realloc_0: "p \<noteq> NULL \<Longrightarrow> mm_realloc p 0 s = Some (NULL, mm_free p s)"
  by (simp add: mm_realloc_def)

section \<open>The break never moves down\<close>

lemma brk_PUT [simp]: "mem_brk (PUT p v s) = mem_brk s"
  by (simp add: PUT_def)

lemma brk_set_root [simp]: "mem_brk (snd (set_root q s)) = mem_brk s"
  by (simp add: set_root_def Let_def)

lemma brk_cut_out [simp]: "mem_brk (cut_out q s) = mem_brk s"
  by (simp add: cut_out_def Let_def)

lemma brk_coalesce [simp]: "mem_brk (snd (coalesce q s)) = mem_brk s"
  by (simp add: coalesce_def Let_def)

lemma brk_place [simp]: "mem_brk (place q b s) = mem_brk s"
  by (simp add: place_def Let_def)

lemma brk_mm_free [simp]: "mem_brk (mm_free q s) = mem_brk s"
  by (simp add: mm_free_def Let_def case_prod_beta)

lemma brk_sbrk: "mem_brk s \<le> mem_brk (snd (mem_sbrk i s))"
  by (auto simp: mem_sbrk_def Let_def)

lemma brk_extend_heap: "mem_brk s \<le> mem_brk (snd (extend_heap w s))"
  by (simp add: extend_heap_def Let_def case_prod_beta brk_sbrk)

lemma brk_malloc: "mm_malloc n s = Some (p, s') \<Longrightarrow> mem_brk s \<le> mem_brk s'"
  using brk_extend_heap [of s]
  by (auto simp: mm_malloc_def Let_def case_prod_beta split: if_splits option.splits)

lemma brk_realloc_move: "realloc_move p n ob nb s = Some (q, s') \<Longrightarrow> mem_brk s \<le> mem_brk s'"
  by (auto simp: realloc_move_def Let_def dest!: brk_malloc split: if_splits option.splits prod.splits)

lemma brk_realloc: "mm_realloc p n s = Some (q, s') \<Longrightarrow> mem_brk s \<le> mem_brk s'"
  by (auto simp: mm_realloc_def Let_def case_prod_beta dest: brk_malloc brk_realloc_move split: if_splits)

section \<open>mm.c provides the interface\<close>

definition mm_c :: "unit mm_ext mm_ops" where
  "mm_c = \<lparr>op_init = mm_init, op_malloc = mm_malloc, op_free = (\<lambda>p s. Some (mm_free p s)), op_realloc = mm_realloc\<rparr>"

text \<open>\<open>INT_MAX\<close>: the driver's sizes are of type \<open>int\<close>.\<close>

definition INT_MAX :: nat where "INT_MAX = 2 ^ 31 - 1"

lemma INT_MAX_less: "INT_MAX < 2 ^ 31"
  by (simp add: INT_MAX_def)

definition mm_room :: "nat \<Rightarrow> nat \<Rightarrow> bool" where
  "mm_room lo hi \<longleftrightarrow> 8 dvd lo \<and> 0 < lo \<and> lo + 24 + CHUNKSIZE \<le> hi \<and> hi < MINUS1"

definition mm_heap :: "nat \<Rightarrow> nat \<Rightarrow> mm \<Rightarrow> (nat \<rightharpoonup> byte list) \<Rightarrow> bool" where
  "mm_heap lo hi s L \<longleftrightarrow> (\<exists>g. mm_rel lo hi g s L)"

definition mm_full :: "nat \<Rightarrow> nat \<Rightarrow> mm \<Rightarrow> nat \<Rightarrow> bool" where
  "mm_full lo hi s n \<longleftrightarrow> (\<exists>g bs fl. inv lo hi g s bs fl \<and> no_fit hi s bs n)"

lemma mm_heap_refused:
  assumes "mm_heap lo hi s L" and "0 < n" and "n \<le> 2 ^ 32 - 16" and "mm_malloc n s = Some (NULL, s')"
  shows "s' = s \<and> mm_full lo hi s n"
proof -
  from assms(1) obtain g bs fl where i: "inv lo hi g s bs fl" by (auto simp: mm_heap_def mm_rel_def)
  from mm_malloc_inv [OF i assms(2,3)] assms(4) have "s' = s" "no_fit hi s bs n" by (auto simp: no_fit_def)
  with i show ?thesis by (auto simp: mm_full_def)
qed

lemma mm_heap_malloc:
  assumes "mm_heap lo hi s L" and "0 < n" and "n \<le> 2 ^ 32 - 16"
  shows "\<exists>p s'. mm_malloc n s = Some (p, s') \<and> mem_brk s \<le> mem_brk s' \<and> (p = NULL \<longrightarrow> mm_heap lo hi s' L \<and> mm_full lo hi s' n) \<and>
    (p \<noteq> NULL \<longrightarrow> p \<notin> dom L \<and> (\<exists>c. n \<le> length c \<and> mm_heap lo hi s' (L(p \<mapsto> c))))"
proof -
  from assms(1) obtain g where "mm_rel lo hi g s L" by (auto simp: mm_heap_def)
  from mm_malloc_rel [OF this assms(2,3)] show ?thesis
  proof (elim disjE exE conjE)
    assume "mm_malloc n s = Some (NULL, s)"
    with mm_heap_refused [OF assms this] assms(1) show ?thesis by simp
  next
    fix p c s' assume m: "mm_malloc n s = Some (p, s')" "p \<noteq> NULL" "p \<notin> dom L" "n \<le> length c"
      "mm_rel lo hi g s' (L(p \<mapsto> c))"
    then have "mm_heap lo hi s' (L(p \<mapsto> c))" by (auto simp: mm_heap_def)
    with m brk_malloc [OF m(1)] show ?thesis by auto
  qed
qed

lemma mm_heap_realloc:
  assumes "mm_heap lo hi s L" and "L p = Some c" and "0 < n" and "n \<le> 2 ^ 32 - 32"
  shows "\<exists>p' s'. mm_realloc p n s = Some (p', s') \<and> mem_brk s \<le> mem_brk s' \<and> (p' = NULL \<longrightarrow> mm_heap lo hi s' L \<and> mm_full lo hi s' n) \<and>
        (p' \<noteq> NULL \<longrightarrow> (p' = p \<or> p' \<notin> dom L) \<and>
          (\<exists>c'. n \<le> length c' \<and> take (min (length c) n) c' = take (min (length c) n) c \<and>
            mm_heap lo hi s' ((L(p := None))(p' \<mapsto> c'))))"
proof -
  from assms(1) obtain g where "mm_rel lo hi g s L" by (auto simp: mm_heap_def)
  from mm_realloc_rel [OF this assms(2-4)] show ?thesis
  proof (elim disjE exE conjE)
    fix p' s' assume "mm_realloc p n s = Some (p', s')" "moved lo hi g L p c n p' s'"
    with brk_realloc [OF this(1)] show ?thesis
      unfolding moved_def mm_heap_def by blast
  next
    assume m: "mm_realloc p n s = Some (NULL, s)" "mm_malloc n s = Some (NULL, s)"
    have "n \<le> 2 ^ 32 - 16" using assms(4) by simp
    from mm_heap_refused [OF assms(1,3) this m(2)] m(1) assms(1) show ?thesis by simp
  qed
qed

interpretation mm_wide: allocator mm_c mm_room mm_heap mm_full "2 ^ 32 - 32"
proof (unfold_locales, goal_cases)
  case (1 lo hi s)
  then show ?case using mm_init_rel [of lo hi s] by (auto simp: mm_c_def mm_room_def mm_heap_def)
next
  case (2 lo hi s L n)
  then show ?case using mm_heap_malloc [of lo hi s L n] by (simp add: mm_c_def)
next
  case (3 lo hi s L p)
  then obtain g where "mm_rel lo hi g s L" by (auto simp: mm_heap_def)
  from mm_free_rel [OF this 3(2)] show ?case by (auto simp: mm_c_def mm_heap_def)
next
  case (4 lo hi s L p c n)
  then show ?case using mm_heap_realloc [of lo hi s L p c n] by (simp add: mm_c_def)
next
  case (5 lo hi s L p c m')
  then show ?case using mm_rel_write unfolding mm_heap_def by blast
next
  case (6 lo hi s L p c)
  then obtain g where "mm_rel lo hi g s L" by (auto simp: mm_heap_def)
  from mm_rel_live [OF this 6(2)] show ?case by simp
next
  case (7 lo hi s L p c q d)
  then show ?case using mm_rel_disjoint unfolding mm_heap_def by blast
next
  case (8 lo hi s L)
  then show ?case by (auto simp: mm_heap_def mm_rel_def inv_def core_def)
qed

text \<open>The driver never asks for more than \<open>INT_MAX\<close> bytes.\<close>

interpretation mm: allocator mm_c mm_room mm_heap mm_full INT_MAX
  by (rule allocator_smaller_limit [OF mm_wide.allocator_axioms]) (simp add: INT_MAX_def)

end
