(* ===== verification/MmProps.thy ===== *)
theory MmProps
  imports MmContract
begin
text \<open>
  What the checker of \<open>mm.c\<close> reports on a heap that satisfies the invariant, and a concrete
  arena with its first block, on which the properties are exercised.
\<close>

section \<open>mm\_check\<close>

primrec report :: "nat \<Rightarrow> block list \<Rightarrow> (nat \<times> nat \<times> nat) list" where
  "report p [] = []"
| "report p (b # bs) = (p, fst b, alloc_bit (snd b)) # report (p + fst b) bs"

lemma check_heap_core:
  assumes "core lo hi g s (xs @ ys) fl"
  shows "check_heap (lo + 24 + len xs) s = Some (report (lo + 24 + len xs) ys)"
  using assms
proof (induction ys arbitrary: xs)
  case Nil
  then have "rd32 (mem s) (lo + 20 + len xs) = PACK 0 1" by (simp add: core_def)
  then have "GET_SIZE s (lo + 20 + len xs) = 0" by (rule GET_PACK) simp_all
  moreover have "HDRP (lo + 24 + len xs) = lo + 20 + len xs" by (simp add: HDRP_def sizes)
  ultimately show ?case by (subst check_heap.simps) simp
next
  case (Cons b ys)
  obtain sz st where b: "b = (sz, st)" by force
  let ?p = "lo + 24 + len xs"
  from Cons.prems have c: "core lo hi g s (xs @ (sz, st) # ys) fl" by (simp add: b)
  have "check_heap (lo + 24 + len (xs @ [b])) s = Some (report (lo + 24 + len (xs @ [b])) ys)"
    by (rule Cons.IH) (use Cons.prems in simp)
  then have "check_heap (?p + sz) s = Some (report (?p + sz) ys)" by (simp add: b add.assoc)
  with core_blk [OF c refl] core_bounds(1) [OF c] show ?case
    by (subst check_heap.simps) (simp add: b)
qed

lemma check_list_core:
  assumes "core lo hi g s bs (xs @ ys)"
  shows "check_list (last (NULL # xs)) s = Some (map (\<lambda>a. (a, GET_SIZE s (HDRP a))) (rev xs))"
  using assms
proof (induction xs arbitrary: ys rule: rev_induct)
  case Nil
  show ?case by (subst check_list.simps) simp
next
  case (snoc a xs)
  from snoc.prems have c: "core lo hi g s bs (xs @ a # ys)" by simp
  have "PREV_FREEBLKP s a = last (NULL # xs)"
  proof (cases "xs = []")
    case True
    then show ?thesis using core_links(4) [OF c] by (simp add: PREV_FREEBLKP_def)
  qed (use core_links(2) [OF c] in simp)
  moreover have "a \<noteq> NULL" using core_aligned(4) [OF c] by auto
  moreover have "check_list (last (NULL # xs)) s = Some (map (\<lambda>a. (a, GET_SIZE s (HDRP a))) (rev xs))"
    by (rule snoc.IH [OF c])
  ultimately show ?case by (subst check_list.simps) simp
qed

lemma mm_check_core:
  assumes "core lo hi g s bs fl"
  shows "mm_check s = Some ((lo, lo + 23 + len bs), (lo + 8, 16, 1) # report (lo + 24) bs,
    map (\<lambda>a. (a, GET_SIZE s (HDRP a))) (rev fl))"
proof -
  from assms have s: "prol_bp s = lo + 8" "mem_start_brk s = lo" "mem_brk s = lo + 24 + len bs"
    and w: "rd32 (mem s) (lo + 4) = PACK 16 1" and d: "dll (mem s) 0 fl (lo + 8)"
    by (simp_all add: core_def)
  have sz: "GET_SIZE s (lo + 4) = 16" "GET_ALLOC s (lo + 4) = 1" by (rule GET_PACK [OF w]; simp)+
  then have nx: "NEXT_BLKP s (lo + 8) = lo + 24" "HDRP (lo + 8) = lo + 4"
    by (simp_all add: NEXT_BLKP_def HDRP_def sizes add.commute)
  have "check_heap (lo + 24) s = Some (report (lo + 24) bs)"
    using check_heap_core [of lo hi g s "[]" bs fl] assms by simp
  then have h: "check_heap (lo + 8) s = Some ((lo + 8, 16, 1) # report (lo + 24) bs)"
    using sz nx by (subst check_heap.simps) simp
  have "rd32 (mem s) (lo + 8 + 4) = of_nat (last (NULL # fl))" using d by (simp add: dll_def)
  moreover have "last (NULL # fl) < 2 ^ 32" using core_aligned(4) [OF assms] by (cases fl rule: rev_cases) auto
  ultimately have "PREV_FREEBLKP s (lo + 8) = last (NULL # fl)"
    by (simp add: PREV_FREEBLKP_def PREDP_def GET_def sizes unat_of_nat)
  then show ?thesis
    using h s check_list_core [of lo hi g s bs fl "[]"] assms
    by (simp add: mm_check_def mem_heap_lo_def mem_heap_hi_def)
qed

section \<open>A concrete arena\<close>

definition arena0 :: mm where
  "arena0 = \<lparr>mem = (\<lambda>_. 0), mem_start_brk = 8, mem_brk = 8, mem_max_addr = 65544, prol_bp = 0, root_bp = 0\<rparr>"

definition heap0 :: mm where
  "heap0 = snd (mm_init arena0)"

definition block0 :: "nat \<times> mm" where
  "block0 = the (mm_malloc 100 heap0)"

lemma arena0_fresh: "fresh 8 65544 arena0"
  by (simp add: fresh_def arena0_def)

lemma heap0_inv: "inv 8 65544 (\<lambda>_. 0) heap0 [(4096, Free)] [32]" "mm_init arena0 = (0, heap0)"
proof -
  have "\<exists>s'. mm_init arena0 = (0, s') \<and> inv 8 65544 (mem arena0) s' [(CHUNKSIZE, Free)] [8 + 24]"
    by (rule mm_init_inv [OF arena0_fresh]) (simp_all add: MINUS1_def CHUNKSIZE_def)
  then show "inv 8 65544 (\<lambda>_. 0) heap0 [(4096, Free)] [32]" "mm_init arena0 = (0, heap0)"
    by (auto simp: heap0_def CHUNKSIZE_def arena0_def)
qed

lemma heap0_rel: "mm_rel 8 65544 (\<lambda>_. 0) heap0 Map.empty"
  by (rule mm_relI [OF heap0_inv(1)]) simp

lemma block0_rel:
  "mm_malloc 100 heap0 = Some block0 \<and> fst block0 \<noteq> NULL \<and>
   (\<exists>c. 100 \<le> length c \<and> mm_rel 8 65544 (\<lambda>_. 0) (snd block0) [fst block0 \<mapsto> c])"
proof -
  have b: "bsize_of 100 = 112" by (simp add: bsize_of_def ALIGN_eq sizes)
  have live: "live (8 + 24) [(4096, Free)] = Map.empty" by simp
  have "\<exists>p c s'. mm_malloc 100 heap0 = Some (p, s') \<and> p \<noteq> NULL \<and> 100 \<le> length c \<and>
    mm_rel 8 65544 (\<lambda>_. 0) s' [p \<mapsto> c]"
    using mm_malloc_inv [OF heap0_inv(1), of 100] unfolding b live by force
  then show ?thesis by (auto simp: block0_def)
qed

lemma heap0_find: "find_fit b heap0 = Some (if b \<le> 4096 then 32 else NULL)"
proof -
  have c: "core 8 65544 (\<lambda>_. 0) heap0 ([] @ (4096, Free) # []) [32]"
    using inv_core [OF heap0_inv(1)] by simp
  have "GET_SIZE heap0 (HDRP 32) = 4096" by (rule core_blk(1) [OF c]) simp
  then have "fits heap0 b 32 \<longleftrightarrow> b \<le> 4096" by (simp only: fits_def)
  then show ?thesis using find_fit_core [OF inv_core [OF heap0_inv(1)], of b] by simp
qed

section \<open>The properties of mm.c\<close>



text \<open>C2: \<open>mm_free\<close> of a live block removes exactly that block from the live blocks, whatever it
  merges the freed memory with.\<close>

theorem mm_free_spec:
  assumes "mm_rel lo hi g s L" and "p \<in> dom L"
  shows "mm_rel lo hi g (mm_free p s) (L(p := None))"
  by (rule mm_free_rel) fact+

theorem mm_free_spec_witness:
  "mm_rel 8 65544 (\<lambda>_. 0) (mm_free (fst block0) (snd block0)) Map.empty"
proof -
  from block0_rel obtain c where "mm_rel 8 65544 (\<lambda>_. 0) (snd block0) [fst block0 \<mapsto> c]" by blast
  from mm_free_spec [OF this, of "fst block0"] show ?thesis by simp
qed



text \<open>On a fresh arena with room for the prologue and the first chunk \<open>mm_init\<close> succeeds and
  leaves a heap without live blocks, in which nothing outside the arena has changed.\<close>

theorem mm_init_spec:
  assumes "fresh lo hi s" and "8 dvd lo" "0 < lo" and "lo + 24 + CHUNKSIZE \<le> hi" "hi < MINUS1"
  shows "\<exists>s'. mm_init s = (0, s') \<and> mm_rel lo hi (mem s) s' Map.empty"
  by (rule mm_init_rel) fact+

theorem mm_init_spec_witness:
  "\<exists>s'. mm_init arena0 = (0, s') \<and> mm_rel 8 65544 (mem arena0) s' Map.empty"
  by (rule mm_init_spec [OF arena0_fresh]) (simp_all add: MINUS1_def CHUNKSIZE_def)

text \<open>C5: \<open>mm_malloc\<close> gives up only when it must: every free block is smaller than the block the
  request needs, and the arena has no room to grow by a chunk or by that block.\<close>

theorem mm_malloc_fails_only_without_room:
  assumes "inv lo hi g s bs fl" and "0 < n" and "n \<le> 2 ^ 32 - 16" and "mm_malloc n s = Some (NULL, s')"
  shows "s' = s \<and> (\<forall>sz. (sz, Free) \<in> set bs \<longrightarrow> sz < bsize_of n) \<and>
    (hi < mem_brk s + max (bsize_of n) CHUNKSIZE \<or> 2 ^ 31 \<le> bsize_of n)"
  using mm_malloc_inv [OF assms(1-3)] assms(4) by auto

theorem mm_malloc_fails_only_without_room_witness:
  "\<exists>s'. mm_malloc 70000 heap0 = Some (NULL, s') \<and> s' = heap0"
proof -
  have b: "bsize_of 70000 = 70008" by (simp add: bsize_of_def ALIGN_eq sizes)
  have ff: "find_fit 70008 heap0 = Some NULL" by (simp add: heap0_find)
  have max: "mem_max_addr heap0 = 65544" "mem_brk heap0 = 4128"
    using heap0_inv(1) by (simp_all add: inv_def core_def)
  have "extend_heap 17502 heap0 = (NULL, heap0)"
    by (rule extend_heap_fails) (simp_all add: max)
  then have m: "mm_malloc 70000 heap0 = Some (NULL, heap0)"
    using b [unfolded bsize_of_def] ff by (simp add: mm_malloc_def CHUNKSIZE_def WSIZE_def)
  show ?thesis using mm_malloc_fails_only_without_room [OF heap0_inv(1) _ _ m] m by simp
qed

text \<open>C6: on a heap that satisfies the invariant the debugging routine \<open>mm_check\<close> ends, and it
  reports the heap range, the prologue and every block in address order, and the free list
  from its last block back to its root.\<close>

theorem mm_check_spec:
  assumes "inv lo hi g s bs fl"
  shows "mm_check s = Some ((lo, lo + 23 + len bs), (lo + 8, 16, 1) # report (lo + 24) bs,
    map (\<lambda>a. (a, GET_SIZE s (HDRP a))) (rev fl))"
  by (rule mm_check_core [OF inv_core [OF assms]])

theorem mm_check_spec_witness:
  "\<exists>l. mm_check heap0 = Some ((8, 4127), [(16, 16, 1), (32, 4096, 0)], l)"
  using mm_check_spec [OF heap0_inv(1)] by simp

text \<open>The block size is computed in 32 bits without a check, so a request of \<open>SIZE_MAX\<close> bytes
  wraps to a block of 8 bytes and \<open>mm_malloc\<close> hands out a pointer for it from an arena of 64 KB.\<close>

theorem mm_malloc_size_wraps:
  "bsize_of (2 ^ 32 - 1) = 8 \<and> (\<exists>s. mm_malloc (2 ^ 32 - 1) heap0 = Some (32, s))"
proof -
  have "ALIGN (2 ^ 32 - 1) = 0" by (simp add: ALIGN_def ALIGNMENT_def)
  then have b: "bsize_of (2 ^ 32 - 1) = 8" by (simp add: bsize_of_def sizes)
  have "find_fit 8 heap0 = Some 32" by (simp add: heap0_find)
  with b show ?thesis using b [unfolded bsize_of_def] by (simp add: mm_malloc_def)
qed

end
