(* ===== verification/DriverProps.thy ===== *)
theory DriverProps
  imports MmProps
begin

text \<open>
  The driver linked with \<open>mm.c\<close>: the locale theorems of \<open>MdriverCorrect\<close> at the
  interpretation of \<open>MmContract\<close>, and two checks of the driver that do not do what their
  comments say.
\<close>

definition driver0 :: "unit mm_ext driver" where
  "driver0 = \<lparr>heap = arena0, ranges = [], blocks = replicate 256 0, block_sizes = replicate 256 0, log = []\<rparr>"

definition trace0 :: "traceop_t list" where
  "trace0 = [\<lparr>tr_type = ALLOC, tr_index = 0, tr_size = 100\<rparr>, \<lparr>tr_type = ALLOC, tr_index = 1, tr_size = 5000\<rparr>,
     \<lparr>tr_type = REALLOC, tr_index = 0, tr_size = 300\<rparr>, \<lparr>tr_type = FREE, tr_index = 1, tr_size = 0\<rparr>]"

lemma driver0_arena:
  "mem_start_brk (heap driver0) = 8" "mem_max_addr (heap driver0) = 65544" "mm_room 8 65544"
  "length (block_sizes driver0) = length (blocks driver0)"
  by (simp_all add: driver0_def arena0_def mm_room_def MINUS1_def CHUNKSIZE_def)

lemma trace0_ok: "trace_ok (length (blocks driver0)) INT_MAX {} trace0"
  by (simp add: trace0_def driver0_def INT_MAX_def)



text \<open>\<open>eval_mm_util\<close> of \<open>mm.c\<close> on a well-formed trace either exits because the arena is
  exhausted or divides a high-water mark by a heap size that is at least as large: the
  utilization it reports is at most one.\<close>

theorem mm_c_util_at_most_one:
  assumes "mm_room lo hi" and "mem_start_brk (heap d) = lo" and "mem_max_addr (heap d) = hi"
    and "length (block_sizes d) = length (blocks d)" and "trace_ok (length (blocks d)) INT_MAX {} tr"
  shows "eval_mm_util mm_c tr d = Inl AppError \<or>
    (\<exists>mx sz d'. eval_mm_util mm_c tr d = Inr (mx, sz, d') \<and> 0 \<le> mx \<and> mx \<le> int sz)"
  using mm.eval_mm_util_ok [OF assms] by (simp add: INT_MAX_def)

theorem mm_c_util_at_most_one_witness:
  "eval_mm_util mm_c trace0 driver0 = Inl AppError \<or>
    (\<exists>mx sz d'. eval_mm_util mm_c trace0 driver0 = Inr (mx, sz, d') \<and> mx \<le> int sz)"
  using mm_c_util_at_most_one [OF driver0_arena(3,1,2,4) trace0_ok] by blast

text \<open>The data check after \<open>mm_realloc\<close> compares a signed \<open>char\<close> with \<open>index & 0xFF\<close>, so for an
  id with a low byte of 128 or more it rejects \<open>mm.c\<close> although the contents were preserved.\<close>

theorem eval_mm_valid_rejects_high_ids:
  assumes "mm.driver_ok lo hi N d A" and "i \<in> A" and "0 < n" and "n < 2 ^ 31" and "128 \<le> low_byte i"
  shows "\<exists>d'. valid_op mm_c t k \<lparr>tr_type = REALLOC, tr_index = i, tr_size = n\<rparr> d = Inr (False, d') \<and>
    (log d' = log d @ [(t, k, ReallocFailed)] \<or> log d' = log d @ [(t, k, DataLost)])"
proof -
  have "n \<le> int INT_MAX" using assms(4) by (simp add: INT_MAX_def)
  from mm.op_REALLOC [OF assms(1-3) this assms(4), of t k] assms(5) show ?thesis
    by (auto split: if_splits)
qed

text \<open>A driver state in which the id 200 names a block.\<close>

lemma driver_200: "\<exists>d. mm.driver_ok 8 65544 256 d {200}"
proof -
  from block0_rel obtain c where "mm_rel 8 65544 (\<lambda>_. 0) (snd block0) [fst block0 \<mapsto> c]" and c: "100 \<le> length c" by blast
  then have r: "mm_heap 8 65544 (snd block0) [fst block0 \<mapsto> c]" by (auto simp: mm_heap_def)
  have "owns driver0 {} Map.empty" "filled driver0 {} Map.empty" "ranged driver0 {}"
    by (simp_all add: owns_def filled_def ranged_def driver0_def)
  from mm.accept_block [OF r this, of 200 100 256] c show ?thesis
    by (auto simp: driver0_def)
qed

theorem eval_mm_valid_rejects_high_ids_witness:
  "\<exists>d d'. valid_op mm_c 0 0 \<lparr>tr_type = REALLOC, tr_index = 200, tr_size = 10\<rparr> d = Inr (False, d')"
proof -
  from driver_200 obtain d where d: "mm.driver_ok 8 65544 256 d {200}" by blast
  show ?thesis using eval_mm_valid_rejects_high_ids [OF d, of 200 10 0 0] by (auto simp: low_byte_def)
qed

text \<open>\<open>add_range\<close> tests only whether an end of the new payload lies in an old one, so a payload
  that contains an old one passes the overlap test.\<close>

theorem add_range_misses_containment:
  "let d = \<lparr>heap = arena0\<lparr>mem_brk := 1000\<rparr>, ranges = [\<lparr>r_lo = 104, r_hi = 111\<rparr>], blocks = [104], block_sizes = [8], log = []\<rparr>
   in \<exists>d'. add_range 96 32 0 0 d = Inr (True, d') \<and> ranges d' = [\<lparr>r_lo = 96, r_hi = 127\<rparr>, \<lparr>r_lo = 104, r_hi = 111\<rparr>]"
  by (simp add: add_range_def IS_ALIGNED_def ALIGNMENT_def mem_heap_lo_def mem_heap_hi_def arena0_def)

end
