(* ===== verification/MmVersions.thy ===== *)
theory MmVersions
  imports MmExplicit
begin

text \<open>
  The two earlier versions of the allocator that the repository keeps: \<open>mm_explicit.c\<close>, whose
  \<open>mm_realloc\<close> always moves the block, and \<open>mm_explicit_realloc.c\<close>, which first tries the
  neighbours.  The macros are those of \<open>mm.c\<close>; a suffix tells the version of a function.  Statements
  under \<open>#ifdef DEBUG\<close> are left out.
\<close>

section \<open>mm\_explicit.c\<close>

definition set_root1 :: "nat \<Rightarrow> mm \<Rightarrow> nat \<times> mm" where
  "set_root1 bp s =
     (if bp = root_bp s then (bp, s)
      else let s = PUT (PREDP (root_bp s)) (of_nat bp) s;
               s = PUT (SUCCP bp) (of_nat (root_bp s)) s;
               s = PUT (PREDP bp) 0 s
           in (bp, s\<lparr>root_bp := bp\<rparr>))"

definition cut_out1 :: "nat \<Rightarrow> mm \<Rightarrow> mm" where
  "cut_out1 bp s =
     (if bp = root_bp s
      then let s = s\<lparr>root_bp := NEXT_FREEBLKP s bp\<rparr>
           in PUT (PREDP (root_bp s)) 0 s
      else let s = PUT (SUCCP (PREV_FREEBLKP s bp)) (GET s (SUCCP bp)) s
           in PUT (PREDP (NEXT_FREEBLKP s bp)) (GET s (PREDP bp)) s)"

definition coalesce1 :: "nat \<Rightarrow> mm \<Rightarrow> nat \<times> mm" where
  "coalesce1 bp s =
     (let prev_alloc = GET_ALLOC s (FTRP s (PREV_BLKP s bp));
          next_alloc = GET_ALLOC s (HDRP (NEXT_BLKP s bp));
          sz = GET_SIZE s (HDRP bp)
      in if prev_alloc \<noteq> 0 \<and> next_alloc \<noteq> 0 then (bp, s)
         else if prev_alloc \<noteq> 0 then
           let s = cut_out1 (NEXT_BLKP s bp) s;
               sz = wrap32 (sz + GET_SIZE s (FTRP s (NEXT_BLKP s bp)));
               s = PUT (HDRP bp) (PACK sz 0) s
           in (bp, PUT (FTRP s bp) (PACK sz 0) s)
         else if next_alloc \<noteq> 0 then
           let s = cut_out1 (PREV_BLKP s bp) s;
               sz = wrap32 (sz + GET_SIZE s (HDRP (PREV_BLKP s bp)));
               s = PUT (FTRP s bp) (PACK sz 0) s;
               s = PUT (HDRP (PREV_BLKP s bp)) (PACK sz 0) s
           in (PREV_BLKP s bp, s)
         else
           let s = cut_out1 (PREV_BLKP s bp) s;
               s = cut_out1 (NEXT_BLKP s bp) s;
               sz = wrap32 (sz + (GET_SIZE s (HDRP (PREV_BLKP s bp))
                      + GET_SIZE s (FTRP s (NEXT_BLKP s bp))));
               s = PUT (HDRP (PREV_BLKP s bp)) (PACK sz 0) s;
               s = PUT (FTRP s (NEXT_BLKP s bp)) (PACK sz 0) s
           in (PREV_BLKP s bp, s))"

text \<open>The difference \<open>initsize - bsize\<close> is that of unsigned integers.\<close>

definition place1 :: "nat \<Rightarrow> nat \<Rightarrow> mm \<Rightarrow> mm" where
  "place1 bp bsize s =
     (let initsize = GET_SIZE s (HDRP bp);
          s = cut_out1 bp s
      in if sub32 initsize bsize < MIN_BSIZE then
           let s = PUT (HDRP bp) (PACK initsize 1) s
           in PUT (FTRP s bp) (PACK initsize 1) s
         else
           let s = PUT (HDRP bp) (PACK bsize 1) s;
               s = PUT (FTRP s bp) (PACK bsize 1) s;
               s = PUT (HDRP (NEXT_BLKP s bp)) (PACK (sub32 initsize bsize) 0) s;
               s = PUT (FTRP s (NEXT_BLKP s bp)) (PACK (sub32 initsize bsize) 0) s
           in if root_bp s = bp then snd (set_root1 (NEXT_BLKP s bp) s)
              else snd (set_root1 (NEXT_BLKP s bp) s))"

definition extend_heap1 :: "nat \<Rightarrow> mm \<Rightarrow> nat \<times> mm" where
  "extend_heap1 words s =
     (let sz = (if words mod 2 \<noteq> 0 then wrap32 ((words + 1) * WSIZE) else wrap32 (words * WSIZE));
          (bp, s) = mem_sbrk (to_int32 sz) s
      in if bp = MINUS1 then (NULL, s)
         else let s = PUT (HDRP bp) (PACK sz 0) s;
                  s = PUT (FTRP s bp) (PACK sz 0) s;
                  s = PUT (HDRP (NEXT_BLKP s bp)) (PACK 0 1) s;
                  (bp, s) = coalesce1 bp s
              in set_root1 bp s)"

partial_function (option) find_fit_from1 :: "nat \<Rightarrow> nat \<Rightarrow> mm \<Rightarrow> nat option" where
  "find_fit_from1 bp bsize s =
     (if bp = prol_bp s then Some NULL
      else if bsize \<le> GET_SIZE s (HDRP bp) then Some bp
      else find_fit_from1 (NEXT_FREEBLKP s bp) bsize s)"

definition find_fit1 :: "nat \<Rightarrow> mm \<Rightarrow> nat option" where
  "find_fit1 bsize s = find_fit_from1 (root_bp s) bsize s"

definition mm_init1 :: "mm \<Rightarrow> int \<times> mm" where
  "mm_init1 s =
     (let (p, s) = mem_sbrk (to_int32 (6 * WSIZE)) s;
          s = s\<lparr>prol_bp := p\<rparr>
      in if p = MINUS1 then (-1, s)
         else
           let s = PUT (prol_bp s) 0 s;
               s = s\<lparr>prol_bp := prol_bp s + 2 * WSIZE\<rparr>;
               s = PUT (HDRP (prol_bp s)) (PACK MIN_BSIZE 1) s;
               s = PUT (FTRP s (prol_bp s)) (PACK MIN_BSIZE 1) s;
               s = PUT (SUCCP (prol_bp s)) 0 s;
               s = PUT (PREDP (prol_bp s)) (of_nat (NEXT_BLKP s (prol_bp s))) s;
               s = PUT (HDRP (NEXT_BLKP s (prol_bp s))) (PACK 0 1) s;
               s = s\<lparr>root_bp := prol_bp s\<rparr>;
               (bp, s) = extend_heap1 (CHUNKSIZE div WSIZE) s
           in if bp = NULL then (-1, s) else (0, s))"

definition mm_malloc1 :: "nat \<Rightarrow> mm \<Rightarrow> (nat \<times> mm) option" where
  "mm_malloc1 sz s =
     (if sz = 0 then Some (NULL, s)
      else
        let bsize = wrap32 (ALIGN sz + DSIZE)
        in case find_fit1 bsize s of
             None \<Rightarrow> None
           | Some bp \<Rightarrow>
               if bp \<noteq> NULL then Some (bp, place1 bp bsize s)
               else
                 let extendsize = (if bsize > CHUNKSIZE then bsize else CHUNKSIZE);
                     (bp, s) = extend_heap1 (extendsize div WSIZE) s
                 in if bp = NULL then Some (NULL, s)
                    else Some (bp, place1 bp bsize s))"

definition mm_free1 :: "nat \<Rightarrow> mm \<Rightarrow> mm" where
  "mm_free1 ptr s =
     (if ptr = NULL then s
      else
        let sz = GET_SIZE s (HDRP ptr);
            s = PUT (HDRP ptr) (PACK sz 0) s;
            s = PUT (FTRP s ptr) (PACK sz 0) s;
            (bp, s) = coalesce1 ptr s
        in snd (set_root1 bp s))"

text \<open>\<open>ptr\<close> is not tested: a null pointer makes the read of its header fault, which is \<open>None\<close> here
  like a call that does not return.  The number of bytes copied is limited by the size of the
  whole old block, header and footer included.\<close>

definition mm_realloc1 :: "nat \<Rightarrow> nat \<Rightarrow> mm \<Rightarrow> (nat \<times> mm) option" where
  "mm_realloc1 ptr sz s =
     (case mm_malloc1 sz s of
        None \<Rightarrow> None
      | Some (newptr, s) \<Rightarrow>
          if newptr = NULL then Some (NULL, s)
          else if ptr = NULL then None
          else
            let copysize = GET_SIZE s (HDRP ptr);
                copysize = (if sz < copysize then sz else copysize);
                s = s\<lparr>mem := memmove newptr ptr copysize (mem s)\<rparr>
            in Some (newptr, mm_free1 ptr s))"

section \<open>mm\_explicit\_realloc.c\<close>

text \<open>This version has the functions of \<open>mm_explicit.c\<close> except \<open>mm_realloc\<close>.\<close>

definition mm_realloc2 :: "nat \<Rightarrow> nat \<Rightarrow> mm \<Rightarrow> (nat \<times> mm) option" where
  "mm_realloc2 ptr sz s =
     (if ptr = NULL then mm_malloc1 sz s
      else if sz = 0 then Some (NULL, mm_free1 ptr s)
      else
        let oldbsize = GET_SIZE s (HDRP ptr);
            newbsize = wrap32 (ALIGN sz + DSIZE);
            prevsize = GET_SIZE s (FTRP s (PREV_BLKP s ptr));
            nextsize = GET_SIZE s (FTRP s (NEXT_BLKP s ptr))
        in if oldbsize \<ge> wrap32 (newbsize + MIN_BSIZE) then
             let s = PUT (HDRP ptr) (PACK newbsize 1) s;
                 s = PUT (FTRP s ptr) (PACK newbsize 1) s;
                 s = PUT (HDRP (NEXT_BLKP s ptr)) (PACK (sub32 oldbsize newbsize) 0) s;
                 s = PUT (FTRP s (NEXT_BLKP s ptr)) (PACK (sub32 oldbsize newbsize) 0) s;
                 (bp, s) = coalesce1 (NEXT_BLKP s ptr) s
             in Some (ptr, snd (set_root1 bp s))
           else if oldbsize = newbsize then Some (ptr, s)
           else if GET_ALLOC s (FTRP s (PREV_BLKP s ptr)) = 0
                \<and> wrap32 (oldbsize + prevsize) \<ge> wrap32 (newbsize + MIN_BSIZE) then
             let totalbsize = wrap32 (oldbsize + prevsize);
                 newptr = PREV_BLKP s ptr;
                 s = cut_out1 newptr s;
                 s = s\<lparr>mem := memmove newptr ptr (sub32 newbsize DSIZE) (mem s)\<rparr>;
                 s = PUT (HDRP newptr) (PACK newbsize 1) s;
                 s = PUT (FTRP s newptr) (PACK newbsize 1) s;
                 s = PUT (HDRP (NEXT_BLKP s newptr)) (PACK (sub32 totalbsize newbsize) 0) s;
                 s = PUT (FTRP s (NEXT_BLKP s newptr)) (PACK (sub32 totalbsize newbsize) 0) s;
                 (bp, s) = coalesce1 (NEXT_BLKP s newptr) s
             in Some (newptr, snd (set_root1 bp s))
           else if GET_ALLOC s (HDRP (NEXT_BLKP s ptr)) = 0
                \<and> wrap32 (oldbsize + nextsize) \<ge> wrap32 (newbsize + MIN_BSIZE) then
             let totalbsize = wrap32 (oldbsize + nextsize);
                 s = cut_out1 (NEXT_BLKP s ptr) s;
                 s = PUT (HDRP ptr) (PACK newbsize 1) s;
                 s = PUT (FTRP s ptr) (PACK newbsize 1) s;
                 s = PUT (HDRP (NEXT_BLKP s ptr)) (PACK (sub32 totalbsize newbsize) 0) s;
                 s = PUT (FTRP s (NEXT_BLKP s ptr)) (PACK (sub32 totalbsize newbsize) 0) s;
                 (bp, s) = coalesce1 (NEXT_BLKP s ptr) s
             in Some (ptr, snd (set_root1 bp s))
           else
             case mm_malloc1 sz s of
               None \<Rightarrow> None
             | Some (newptr, s) \<Rightarrow>
                 if newptr = NULL then Some (NULL, s)
                 else
                   let copysize = sub32 (if oldbsize > newbsize then newbsize else oldbsize) DSIZE;
                       s = s\<lparr>mem := memmove newptr ptr copysize (mem s)\<rparr>
                   in Some (newptr, mm_free1 ptr s))"

end
