(* ===== verification/NaiveRealloc.thy ===== *)
theory NaiveRealloc
  imports AllocSpec
begin

text \<open>
  The \<open>mm_realloc\<close> of the first allocators: allocate, copy, free.  The locale \<open>malloc_free\<close> is what it
  needs of the other two operations; the law of reallocation follows, for every allocator that provides
  them.
\<close>

section \<open>Reallocating by copying\<close>

definition copy_realloc ::
  "(nat \<Rightarrow> 'a arena_scheme \<Rightarrow> (nat \<times> 'a arena_scheme) option) \<Rightarrow> (nat \<Rightarrow> 'a arena_scheme \<Rightarrow> 'a arena_scheme) \<Rightarrow>
   nat \<Rightarrow> nat \<Rightarrow> 'a arena_scheme \<Rightarrow> (nat \<times> 'a arena_scheme) option" where
  "copy_realloc malloc free ptr sz s =
     (case malloc sz s of
        None \<Rightarrow> None
      | Some (newptr, s) \<Rightarrow>
          if newptr = NULL then Some (NULL, s)
          else if ptr = NULL then None
          else
            let copysize = GET_SIZE s (HDRP ptr);
                copysize = (if sz < copysize then sz else copysize);
                s = s\<lparr>mem := memmove newptr ptr copysize (mem s)\<rparr>
            in Some (newptr, free ptr s))"

locale malloc_free =
  fixes malloc :: "nat \<Rightarrow> 'a arena_scheme \<Rightarrow> (nat \<times> 'a arena_scheme) option"
    and free :: "nat \<Rightarrow> 'a arena_scheme \<Rightarrow> 'a arena_scheme"
    and rel :: "nat \<Rightarrow> nat \<Rightarrow> 'a arena_scheme \<Rightarrow> (nat \<rightharpoonup> byte list) \<Rightarrow> bool"
    and full :: "nat \<Rightarrow> nat \<Rightarrow> 'a arena_scheme \<Rightarrow> nat \<Rightarrow> bool"
    and limit :: nat
  assumes malloc_law: "rel lo hi s L \<Longrightarrow> 0 < n \<Longrightarrow> n \<le> limit \<Longrightarrow>
      \<exists>p s'. malloc n s = Some (p, s') \<and> mem_brk s \<le> mem_brk s' \<and> (p = NULL \<longrightarrow> rel lo hi s' L \<and> full lo hi s' n) \<and>
        (p \<noteq> NULL \<longrightarrow> p \<notin> dom L \<and> (\<exists>c. n \<le> length c \<and> rel lo hi s' (L(p \<mapsto> c))))"
    and free_law: "rel lo hi s L \<Longrightarrow> p \<in> dom L \<Longrightarrow> mem_brk s \<le> mem_brk (free p s) \<and> rel lo hi (free p s) (L(p := None))"
    and write_law: "rel lo hi s L \<Longrightarrow> L p = Some c \<Longrightarrow> (\<And>x. x < p \<or> p + length c \<le> x \<Longrightarrow> m' x = mem s x) \<Longrightarrow>
      rel lo hi (s\<lparr>mem := m'\<rparr>) (L(p \<mapsto> bytes m' p (length c)))"
    and tag_law: "rel lo hi s L \<Longrightarrow> L p = Some c \<Longrightarrow>
      p \<noteq> NULL \<and> c = bytes (mem s) p (length c) \<and> GET_SIZE s (HDRP p) = length c + 8"
begin

lemma copy_realloc_ok:
  assumes r: "rel lo hi s L" and p: "L p = Some c" and n: "0 < n" "n \<le> limit"
  shows "\<exists>p' s'. copy_realloc malloc free p n s = Some (p', s') \<and> mem_brk s \<le> mem_brk s' \<and> (p' = NULL \<longrightarrow> rel lo hi s' L \<and> full lo hi s' n) \<and>
        (p' \<noteq> NULL \<longrightarrow> (p' = p \<or> p' \<notin> dom L) \<and>
          (\<exists>c'. n \<le> length c' \<and> take (min (length c) n) c' = take (min (length c) n) c \<and>
            rel lo hi s' ((L(p := None))(p' \<mapsto> c'))))"
proof -
  from malloc_law [OF r n] obtain q s1 where m: "malloc n s = Some (q, s1)" "mem_brk s \<le> mem_brk s1"
    and q0: "q = NULL \<Longrightarrow> rel lo hi s1 L \<and> full lo hi s1 n" and q: "q \<noteq> NULL \<Longrightarrow> q \<notin> dom L \<and> (\<exists>d. n \<le> length d \<and> rel lo hi s1 (L(q \<mapsto> d)))" by blast
  show ?thesis
  proof (cases "q = NULL")
    case False
    with q obtain d where d: "q \<notin> dom L" "n \<le> length d" and r1: "rel lo hi s1 (L(q \<mapsto> d))" by blast
    have ne: "p \<noteq> q" using p d(1) by auto
    then have "(L(q \<mapsto> d)) p = Some c" using p by simp
    note t = tag_law [OF r1 this]
    define k where "k = (if n < length c + 8 then n else length c + 8)"
    let ?m = "memmove q p k (mem s1)" and ?d = "bytes (memmove q p k (mem s1)) q (length d)"
    let ?s = "free p (s1\<lparr>mem := ?m\<rparr>)"
    have "rel lo hi (s1\<lparr>mem := ?m\<rparr>) ((L(q \<mapsto> d))(q \<mapsto> ?d))"
      by (rule write_law [OF r1]) (use d(2) in \<open>auto simp: memmove_outside k_def\<close>)
    then have "rel lo hi (s1\<lparr>mem := ?m\<rparr>) (L(q \<mapsto> ?d))" by simp
    from free_law [OF this, of p] p ne
    have f: "mem_brk s1 \<le> mem_brk ?s" "rel lo hi ?s ((L(p := None))(q \<mapsto> ?d))" by (auto simp: fun_upd_twist)
    have "c ! j = mem s1 (p + j)" if "j < length c" for j
      using t that nth_bytes [of j "length c" "mem s1" p] by metis
    then have "take (min (length c) n) ?d = take (min (length c) n) c"
      by (intro nth_equalityI) (use d(2) in \<open>auto simp: memmove_def k_def\<close>)
    moreover have "copy_realloc malloc free p n s = Some (q, ?s)"
      using m(1) False t by (simp add: copy_realloc_def k_def Let_def)
    ultimately show ?thesis using d m(2) f False by auto
  qed (use m q0 in \<open>simp add: copy_realloc_def\<close>)
qed

end

end
