(* ===== verification/MmVersionsProps.thy ===== *)
theory MmVersionsProps
  imports DriverProps MmVersions NaiveRealloc
begin

text \<open>
  The earlier versions on a heap of \<open>mm.c\<close>: their functions are the same as those of \<open>mm.c\<close> or
  agree with them wherever the invariant holds, so both provide the interface the driver needs.
\<close>

section \<open>The functions that have not changed\<close>

lemma set_root_same [simp]: "set_root1 = set_root"
  by (intro ext) (simp add: set_root1_def set_root_def)

lemma cut_out_same [simp]: "cut_out1 = cut_out"
  by (intro ext) (simp add: cut_out1_def cut_out_def)

lemma coalesce_same [simp]: "coalesce1 = coalesce"
  by (intro ext) (simp add: coalesce1_def coalesce_def Let_def)

lemma extend_heap_same [simp]: "extend_heap1 = extend_heap"
  by (intro ext) (unfold extend_heap1_def extend_heap_def coalesce_same set_root_same, rule refl)

lemma mm_init_same: "mm_init1 = mm_init"
  by (intro ext) (unfold mm_init1_def mm_init_def extend_heap_same, rule refl)

lemma mm_free_same [simp]: "mm_free1 = mm_free"
  by (intro ext) (unfold mm_free1_def mm_free_def coalesce_same set_root_same, rule refl)

lemma find_fit_from_same: "find_fit_from bp b s = Some r \<Longrightarrow> find_fit_from1 bp b s = Some r"
proof (rule find_fit_from.raw_induct [where P = "\<lambda>bp b s r. find_fit_from1 bp b s = Some r"])
  fix f bp b s r
  assume "\<And>bp b s r. f bp b s = Some r \<Longrightarrow> find_fit_from1 bp b s = Some r"
    and "(if bp = prol_bp s then Some NULL else if b \<le> GET_SIZE s (HDRP bp) then Some bp
      else f (NEXT_FREEBLKP s bp) b s) = Some r"
  then show "find_fit_from1 bp b s = Some r" by (subst find_fit_from1.simps) (auto split: if_splits)
qed assumption

lemma find_fit_same: "find_fit b s = Some r \<Longrightarrow> find_fit1 b s = Some r"
  by (simp add: find_fit_def find_fit1_def find_fit_from_same)

section \<open>Placing and allocating\<close>

text \<open>In a heap the two ways of asking whether a rest is too small to be a block agree.\<close>

lemma place_same:
  assumes i: "inv lo hi g s (xs @ (sz, Free) # ys) fl" and q: "q = lo + 24 + len xs" and b: "b \<le> sz"
  shows "place1 q b s = place q b s"
proof -
  note bd = core_bounds [OF inv_core [OF i]]
  have lo: "0 < lo" using inv_chain [OF i] by simp
  have g: "GET_SIZE s (HDRP q) = sz" using core_blk(1) [OF inv_core [OF i] q] .
  have "sz + 24 < 2 ^ 32" using bd lo by linarith
  then have "wrap32 (b + MIN_BSIZE) = b + 16" "sub32 sz b = sz - b" using b by (simp_all add: MIN_BSIZE_def sizes)
  then have "(sub32 sz b < MIN_BSIZE) = (sz < wrap32 (b + MIN_BSIZE))" using b by (simp add: MIN_BSIZE_def sizes) linarith
  then show ?thesis unfolding place1_def place_def by (simp add: g Let_def)
qed

lemma mm_malloc_same:
  assumes i: "inv lo hi g s bs fl" and n: "0 < n" "n \<le> 2 ^ 32 - 16"
  shows "mm_malloc1 n s = mm_malloc n s"
proof -
  note b = bsize_of [OF n]
  let ?b = "bsize_of n"
  obtain q where q: "find_fit ?b s = Some q" using find_fit_core [OF inv_core [OF i]] by blast
  note q1 = find_fit_same [OF q]
  show ?thesis
  proof (cases "q = NULL")
    case False
    from find_fit_found [OF i q False] obtain xs sz ys
      where x: "bs = xs @ (sz, Free) # ys" "q = lo + 24 + len xs" "?b \<le> sz" by blast
    with place_same [OF i [unfolded x(1)] x(2,3)] n q q1 False show ?thesis
      by (simp add: mm_malloc_def mm_malloc1_def bsize_of_def Let_def)
  next
    case True
    define w where "w = max ?b CHUNKSIZE div WSIZE"
    have w: "4 * w = max ?b CHUNKSIZE" "even w"
      using b(1) by (auto simp: w_def sizes max_def elim!: dvdE)
    have w2: "16 \<le> 4 * w" "4 * w < 2 ^ 32" using b(2,5) w by (auto simp: CHUNKSIZE_def)
    have eq: "mm_malloc n s = (let (bp, s) = extend_heap w s in
        if bp = NULL then Some (NULL, s) else Some (bp, place bp ?b s))"
      using n q True unfolding mm_malloc_def bsize_of_def w_def max_def Let_def by simp
    have eq1: "mm_malloc1 n s = (let (bp, s) = extend_heap w s in
        if bp = NULL then Some (NULL, s) else Some (bp, place1 bp ?b s))"
      using n q1 True unfolding mm_malloc1_def bsize_of_def w_def max_def Let_def by simp
    show ?thesis
    proof (cases "4 * w < 2 ^ 31 \<and> mem_brk s + 4 * w \<le> hi")
      case True
      with extend_heap_inv(2) [OF i w(2) w2] obtain q s' xs sz ys fl'
        where e: "extend_heap w s = (q, s')" "q = lo + 24 + len xs" "inv lo hi g s' (xs @ (sz, Free) # ys) fl'"
          "4 * w \<le> sz" by blast
      have "?b \<le> sz" using e(4) w by simp
      from place_same [OF e(3,2) this] show ?thesis by (simp add: eq eq1 e(1))
    next
      case False
      with extend_heap_inv(1) [OF i w(2) w2] show ?thesis by (auto simp: eq eq1)
    qed
  qed
qed

section \<open>Reallocating\<close>

lemma mm_rel_size:
  assumes "mm_rel lo hi g s L" "L p = Some c"
  shows "GET_SIZE s (HDRP p) = length c + 8"
proof -
  from assms obtain bs fl where i: "inv lo hi g s bs fl" and "live (lo + 24) bs p = Some c" by (auto simp: mm_rel_def)
  from live_split [OF this(2)] obtain xs sz ys where bs: "bs = xs @ (sz, Used c) # ys" "p = lo + 24 + len xs" by blast
  note c = inv_core [OF i [unfolded bs(1)]]
  from core_blk(1) [OF c bs(2)] core_bounds(1) [OF c] inv_chain(1) [OF i [unfolded bs(1)]] show ?thesis
    by (simp add: blk_ok_def)
qed

text \<open>Growing into a free block behind: what \<open>mm_explicit_realloc.c\<close> coalesces afterwards has no free
  neighbour.\<close>

lemma grown_settled:
  assumes i: "inv lo hi g s (xs @ (sz, Used c) # ys) fl" and q: "p = lo + 24 + len xs"
    and b: "8 dvd b" "16 \<le> b" "b \<le> 2 ^ 32 - 24" and free: "next_bit ys = 0"
  defines "tot \<equiv> wrap32 (sz + GET_SIZE s (FTRP s (NEXT_BLKP s p)))"
  assumes fit: "b + 16 \<le> tot"
  defines "t \<equiv> split_block p b (sub32 tot b) (cut_out (NEXT_BLKP s p) s)"
  shows "coalesce (NEXT_BLKP t p) t = (NEXT_BLKP t p, t)"
proof -
  from free obtain k zs where ys: "ys = (k, Free) # zs"
    by (cases ys) (auto simp: next_bit_def split: if_splits intro: prod_eqI)
  from i have i': "inv lo hi g s (xs @ (sz, Used c) # (k, Free) # zs) fl" by (simp add: ys)
  then have c2: "core lo hi g s ((xs @ [(sz, Used c)]) @ (k, Free) # zs) fl" by (simp add: inv_def)
  note bz = core_bounds [OF c2] and bd = core_bounds [OF inv_core [OF i]] and bk = core_blk [OF inv_core [OF i] q]
  have gs: "GET_SIZE s (FTRP s (NEXT_BLKP s p)) = k"
    using core_blk [OF c2, of "p + sz"] bk(3) q by simp
  have tot: "tot = sz + k" "sz + k < 2 ^ 32" using bz by (auto simp: tot_def gs)
  have p8: "8 dvd p" "8 \<le> p" using q bd by (auto simp: dvd_add)
  have "b - 8 + 8 \<le> b" "b + 16 \<le> sz + k" using fit tot b by auto
  from realloc_next [OF i' q b(1,2) this] obtain s1 where s1: "cut_out (p + sz) s = s1"
    "coalesce (p + b) (split_block p b (sz + k - b) s1) = (p + b, split_block p b (sz + k - b) s1)"
    by blast
  have t: "t = split_block p b (sz + k - b) s1" using fit tot bk(3) s1(1) by (simp add: t_def)
  have "NEXT_BLKP t p = p + b"
    unfolding t by (rule split_block_eq(2)) (use p8 bz fit tot bd b in \<open>auto simp: dvd_add dvd_diff_nat\<close>)
  then show ?thesis using s1(2) by (simp add: t)
qed

lemma mm_realloc2_same:
  assumes r: "mm_rel lo hi g s L" and Lp: "L p = Some c" and n: "0 < n" "n \<le> 2 ^ 32 - 32"
  shows "mm_realloc2 p n s = mm_realloc p n s"
proof -
  from r Lp obtain bs fl where i0: "inv lo hi g s bs fl" and "live (lo + 24) bs p = Some c" by (auto simp: mm_rel_def)
  from live_split [OF this(2)] obtain xs sz ys where bs: "bs = xs @ (sz, Used c) # ys" and q: "p = lo + 24 + len xs" by blast
  note i = i0 [unfolded bs]
  note cr = inv_core [OF i]
  have n': "n \<le> 2 ^ 32 - 16" using n by simp
  define b where "b = wrap32 (ALIGN n + DSIZE)"
  note bb = bsize_of [OF n(1) n', unfolded bsize_of_def, folded b_def]
  have b24: "b \<le> 2 ^ 32 - 24" using bb(1,4) n by (auto elim!: dvdE)
  have wb: "wrap32 (b + MIN_BSIZE) = b + 16" using bb n by (simp add: MIN_BSIZE_def sizes)
  note same = mm_malloc_same [OF i n(1) n']
  let ?tot = "wrap32 (sz + GET_SIZE s (FTRP s (NEXT_BLKP s p)))"
  let ?t = "split_block p b (sub32 ?tot b) (cut_out (NEXT_BLKP s p) s)"
  have settled: "coalesce (NEXT_BLKP ?t p) ?t = (NEXT_BLKP ?t p, ?t)"
    if "GET_ALLOC s (HDRP (NEXT_BLKP s p)) = 0" "wrap32 (b + MIN_BSIZE) \<le> ?tot"
    using grown_settled [OF i q bb(1,2) b24] that core_next [OF cr q] wb by simp
  show ?thesis
    using settled unfolding mm_realloc2_def mm_realloc_def realloc_move_def same b_def [symmetric]
      core_blk(1) [OF cr q] set_root_same cut_out_same coalesce_same mm_free_same split_block_def Let_def
    by (simp cong: if_cong)
qed

section \<open>Both versions provide the interface\<close>

definition mm_explicit_c :: "unit mm_ext mm_ops" where
  "mm_explicit_c = \<lparr>op_init = mm_init1, op_malloc = mm_malloc1, op_free = (\<lambda>p s. Some (mm_free1 p s)),
     op_realloc = mm_realloc1\<rparr>"

definition mm_explicit_realloc_c :: "unit mm_ext mm_ops" where
  "mm_explicit_realloc_c = mm_explicit_c\<lparr>op_realloc := mm_realloc2\<rparr>"

lemma mm_heap_malloc1: "mm_heap lo hi s L \<Longrightarrow> 0 < n \<Longrightarrow> n \<le> 2 ^ 32 - 16 \<Longrightarrow> mm_malloc1 n s = mm_malloc n s"
  using mm_malloc_same by (auto simp: mm_heap_def mm_rel_def)

lemma mm_heap_realloc2: "mm_heap lo hi s L \<Longrightarrow> p \<in> dom L \<Longrightarrow> 0 < n \<Longrightarrow> n \<le> 2 ^ 32 - 32 \<Longrightarrow>
    mm_realloc2 p n s = mm_realloc p n s"
  using mm_realloc2_same by (auto simp: mm_heap_def)

lemma mm_realloc1_copies: "mm_realloc1 = copy_realloc mm_malloc1 mm_free1"
  by (intro ext) (simp only: mm_realloc1_def copy_realloc_def)

interpretation naive_ops: malloc_free mm_malloc1 mm_free1 mm_heap mm_full "2 ^ 32 - 16"
proof (unfold_locales, goal_cases)
  case (1 lo hi s L n)
  then show ?case using mm_heap_malloc [of lo hi s L n] mm_heap_malloc1 [of lo hi s L n] by simp
next
  case (2 lo hi s L p)
  then show ?case using mm_wide.free_ok [of lo hi s L p] by (simp add: mm_c_def)
next
  case (3 lo hi s L p c m')
  then show ?case by (rule mm.write_ok)
next
  case (4 lo hi s L p c)
  from mm.live_not_NULL [OF this] mm.live_ok [OF this] 4 mm_rel_size show ?case by (auto simp: mm_heap_def)
qed

text \<open>What does not depend on the operations is the same as for \<open>mm.c\<close>.\<close>

lemmas mm_heap_laws = mm.write_ok mm.live_ok mm.disjoint_ok mm.arena_ok

interpretation naive_wide: allocator mm_explicit_c mm_room mm_heap mm_full "2 ^ 32 - 32"
proof (unfold_locales, goal_cases)
  case (1 lo hi s)
  then show ?case using mm_wide.init_ok [of lo hi s] by (simp add: mm_c_def mm_explicit_c_def mm_init_same)
next
  case (2 lo hi s L n)
  then have "n \<le> 2 ^ 32 - 16" by simp
  with 2 mm_wide.malloc_ok [of lo hi s L n] mm_heap_malloc1 [of lo hi s L n] show ?case
    by (simp add: mm_c_def mm_explicit_c_def)
next
  case (3 lo hi s L p)
  then show ?case using mm_wide.free_ok [of lo hi s L p] by (simp add: mm_c_def mm_explicit_c_def)
next
  case (4 lo hi s L p c n)
  then have "n \<le> 2 ^ 32 - 16" by simp
  from naive_ops.copy_realloc_ok [OF 4(1-3) this] show ?case by (simp add: mm_explicit_c_def mm_realloc1_copies)
qed (rule mm_heap_laws; assumption)+

interpretation inplace_wide: allocator mm_explicit_realloc_c mm_room mm_heap mm_full "2 ^ 32 - 32"
proof (unfold_locales, goal_cases)
  case (1 lo hi s)
  then show ?case using naive_wide.init_ok [of lo hi s] by (simp add: mm_explicit_realloc_c_def)
next
  case (2 lo hi s L n)
  then show ?case using naive_wide.malloc_ok [of lo hi s L n] by (simp add: mm_explicit_realloc_c_def)
next
  case (3 lo hi s L p)
  then show ?case using naive_wide.free_ok [of lo hi s L p] by (simp add: mm_explicit_realloc_c_def)
next
  case (4 lo hi s L p c n)
  then have "p \<in> dom L" by auto
  with 4 mm_wide.realloc_ok [of lo hi s L p c n] mm_heap_realloc2 [of lo hi s L p n] show ?case
    by (simp add: mm_c_def mm_explicit_realloc_c_def)
qed (rule mm_heap_laws; assumption)+

interpretation naive: allocator mm_explicit_c mm_room mm_heap mm_full INT_MAX
  by (rule allocator_smaller_limit [OF naive_wide.allocator_axioms]) (simp add: INT_MAX_def)

interpretation inplace: allocator mm_explicit_realloc_c mm_room mm_heap mm_full INT_MAX
  by (rule allocator_smaller_limit [OF inplace_wide.allocator_axioms]) (simp add: INT_MAX_def)

section \<open>Properties\<close>

text \<open>C27: on a heap, the functions of \<open>mm_explicit_realloc.c\<close> do exactly what those of \<open>mm.c\<close> do: the
  test in \<open>place\<close> and the second coalescing in \<open>mm_realloc\<close>, in which they differ, make no difference.\<close>

theorem mm_explicit_realloc_agrees:
  assumes "mm_heap lo hi s L" and "0 < n" and "n \<le> 2 ^ 32 - 32" and "p \<in> dom L"
  shows "mm_malloc1 n s = mm_malloc n s \<and> mm_realloc2 p n s = mm_realloc p n s \<and> mm_free1 p s = mm_free p s"
proof -
  have "n \<le> 2 ^ 32 - 16" using assms(3) by simp
  with mm_heap_malloc1 mm_heap_realloc2 assms show ?thesis by simp
qed

theorem mm_explicit_realloc_agrees_witness:
  "mm_realloc2 (fst block0) 10 (snd block0) = mm_realloc (fst block0) 10 (snd block0)"
proof -
  from block0_rel obtain c where "mm_rel 8 65544 (\<lambda>_. 0) (snd block0) [fst block0 \<mapsto> c]" by blast
  then have "mm_heap 8 65544 (snd block0) [fst block0 \<mapsto> c]" by (auto simp: mm_heap_def)
  from mm_explicit_realloc_agrees [OF this, of 10 "fst block0"] show ?thesis by simp
qed



text \<open>Two calls the C standard defines: reallocating to size 0 returns without freeing the block, and
  reallocating a null pointer faults as soon as there is memory for the new block.\<close>

theorem mm_realloc1_edges:
  "mm_realloc1 p 0 s = Some (NULL, s)"
  "mm_malloc1 n s = Some (q, s') \<Longrightarrow> q \<noteq> NULL \<Longrightarrow> mm_realloc1 NULL n s = None"
  by (simp_all add: mm_realloc1_def mm_malloc1_def)

end
