(* ===== verification/MmClient.thy ===== *)
theory MmClient
  imports MmVersionsProps
begin

text \<open>
  The heap in the hands of a client of the explicit-list allocators: the guarantees of \<open>Client\<close>, at \<open>mm.c\<close>
  and at the earlier versions, with the bounds of their heap layout.
\<close>

lemma explicit_client:
  assumes "ops \<in> {mm_c, mm_explicit_c, mm_explicit_realloc_c}"
    and "mm_room lo hi" and "client ops (2 ^ 32 - 32) lo hi s own"
  shows "\<exists>L. mm_heap lo hi s L \<and> covers L own"
  using assms mm_wide.client_inv naive_wide.client_inv inplace_wide.client_inv
  by (elim insertE emptyE; blast)

lemma explicit_client_blocks:
  assumes "ops \<in> {mm_c, mm_explicit_c, mm_explicit_realloc_c}"
    and "mm_room lo hi" and "client ops (2 ^ 32 - 32) lo hi s own" and "own p = Some c"
  shows "8 dvd p \<and> lo \<le> p \<and> p + length c \<le> mem_brk s \<and> bytes (mem s) p (length c) = c \<and>
    (\<forall>q d. q \<noteq> p \<and> own q = Some d \<longrightarrow> q + length d \<le> p \<or> p + length c \<le> q)"
  using assms mm_wide.client_blocks naive_wide.client_blocks inplace_wide.client_blocks
  by (elim insertE emptyE; blast)

section \<open>The property\<close>


lemma client0:
  "client mm_c (2 ^ 32 - 32) 8 65544 ((snd block0)\<lparr>mem := (mem (snd block0))(fst block0 + 3 := 77)\<rparr>)
     [fst block0 \<mapsto> (bytes (mem (snd block0)) (fst block0) 100)[3 := 77]]"
proof -
  have "op_init mm_c arena0 = (0, heap0)" using heap0_inv(2) by (simp add: mm_c_def)
  from client.start [OF arena0_fresh this] have "client mm_c (2 ^ 32 - 32) 8 65544 heap0 Map.empty" .
  moreover have "op_malloc mm_c 100 heap0 = Some (fst block0, snd block0)" "fst block0 \<noteq> NULL"
    using block0_rel by (simp_all add: mm_c_def)
  ultimately have "client mm_c (2 ^ 32 - 32) 8 65544 (snd block0) [fst block0 \<mapsto> bytes (mem (snd block0)) (fst block0) 100]"
    using client.request [of mm_c "2 ^ 32 - 32" 8 65544 heap0 Map.empty 100 "fst block0" "snd block0"] by simp
  from client.store [OF this, of "fst block0" _ 3 77] show ?thesis by simp
qed


end
