(* ===== verification/CacheSim.thy ===== *)
theory CacheSim
  imports Prelude
begin

text \<open>
  The cache simulator \<open>cachelab_handout/csim.c\<close>: \<open>accessCache\<close> statement by statement, and
  the loop of \<open>main\<close> over the records of a trace.  \<open>None\<close> is undefined behaviour: a shift of a
  64-bit value by 64 or more, or an access outside an array.  The 32-bit counters wrap.
  What \<open>printf\<close> writes in verbose mode is not modelled.
\<close>

section \<open>The simulator\<close>

record PARAM =
  s_bits :: nat
  b_bits :: nat
  E_lines :: nat
  S_sets :: nat
  nHit :: nat
  nMiss :: nat
  nEvict :: nat

record LINE =
  tag :: u64
  valid :: int
  useTime :: nat

record SET =
  lines :: "LINE list"
  useCnt :: nat

definition shr64 :: "u64 \<Rightarrow> nat \<Rightarrow> u64 option" where
  "shr64 x n = (if n < 64 then Some (drop_bit n x) else None)"

definition shl64 :: "u64 \<Rightarrow> nat \<Rightarrow> u64 option" where
  "shl64 x n = (if n < 64 then Some (push_bit n x) else None)"

text \<open>\<open>Tag\<close> and \<open>Set\<close>; the shift counts are \<open>unsigned\<close>.\<close>

definition split_addr :: "PARAM \<Rightarrow> u64 \<Rightarrow> (u64 \<times> u64) option" where
  "split_addr param addr =
     (let t = wrap32 (2 ^ 32 + 2 ^ 32 + 64 - s_bits param - b_bits param) in
      case (shr64 addr (wrap32 (s_bits param + b_bits param)), shl64 addr t) of
        (Some Tag, Some u) \<Rightarrow> map_option (\<lambda>Set. (Tag, Set)) (shr64 u (wrap32 (t + b_bits param)))
      | _ \<Rightarrow> None)"

text \<open>The search: \<open>Inl Ei\<close> when it breaks at a hit, otherwise \<open>emptyLine\<close> and \<open>setFull\<close>.\<close>

fun find_line :: "u64 \<Rightarrow> nat \<Rightarrow> LINE list \<Rightarrow> nat \<Rightarrow> bool \<Rightarrow> nat + nat \<times> bool" where
  "find_line Tag Ei [] emptyLine setFull = Inr (emptyLine, setFull)"
| "find_line Tag Ei (l # ls) emptyLine setFull =
     (if valid l \<noteq> 0 then
        if tag l = Tag then Inl Ei else find_line Tag (Suc Ei) ls emptyLine setFull
      else find_line Tag (Suc Ei) ls (if emptyLine < Ei then emptyLine else Ei) False)"

text \<open>The loop over lines \<open>Ei..\<close> that looks for the smallest timestamp.\<close>

fun find_victim :: "nat \<Rightarrow> LINE list \<Rightarrow> nat \<Rightarrow> nat \<Rightarrow> nat" where
  "find_victim Ei [] victimLine leastRecent = victimLine"
| "find_victim Ei (l # ls) victimLine leastRecent =
     (if leastRecent > useTime l then find_victim (Suc Ei) ls Ei (useTime l)
      else find_victim (Suc Ei) ls victimLine leastRecent)"

text \<open>\<open>set->lines[i].useTime = ++(set->useCnt)\<close> after an update of the line.\<close>

definition touch :: "nat \<Rightarrow> (LINE \<Rightarrow> LINE) \<Rightarrow> SET \<Rightarrow> SET" where
  "touch i f st =
     (let n = wrap32 (Suc (useCnt st)) in
      st\<lparr>lines := (lines st)[i := (f (lines st ! i))\<lparr>useTime := n\<rparr>], useCnt := n\<rparr>)"

text \<open>The branches of \<open>accessCache\<close> on one set.  The comparison \<open>prevHit < param.nHit\<close> fails
  when the counter of hits wraps; the code then goes on as if the line had not been found.\<close>

definition missLine :: "PARAM \<Rightarrow> u64 \<Rightarrow> nat \<Rightarrow> bool \<Rightarrow> SET \<Rightarrow> (PARAM \<times> SET) option" where
  "missLine param Tag emptyLine setFull st =
     (let param = param\<lparr>nMiss := wrap32 (Suc (nMiss param))\<rparr> in
      if setFull then
        if lines st = [] then None
        else
          let victimLine = find_victim 1 (tl (lines st)) 0 (useTime (hd (lines st)))
          in Some (param\<lparr>nEvict := wrap32 (Suc (nEvict param))\<rparr>, touch victimLine (\<lambda>l. l\<lparr>tag := Tag\<rparr>) st)
      else if emptyLine < length (lines st)
      then Some (param, touch emptyLine (\<lambda>l. l\<lparr>tag := Tag, valid := 1\<rparr>) st)
      else None)"

definition accessSet :: "PARAM \<Rightarrow> u64 \<Rightarrow> SET \<Rightarrow> (PARAM \<times> SET) option" where
  "accessSet param Tag st =
     (if length (lines st) \<noteq> E_lines param then None
      else case find_line Tag 0 (lines st) (E_lines param) True of
        Inl Ei \<Rightarrow>
          let st = touch Ei id st;
              prevHit = nHit param;
              param = param\<lparr>nHit := wrap32 (Suc (nHit param))\<rparr>
          in if prevHit < nHit param then Some (param, st)
             else (case find_line Tag 0 (take Ei (lines st)) (E_lines param) True of
                     Inr (emptyLine, setFull) \<Rightarrow> missLine param Tag emptyLine setFull st
                   | Inl _ \<Rightarrow> None)
      | Inr (emptyLine, setFull) \<Rightarrow> missLine param Tag emptyLine setFull st)"

definition accessCache :: "SET list \<Rightarrow> PARAM \<Rightarrow> u64 \<Rightarrow> (PARAM \<times> SET list) option" where
  "accessCache cache param addr =
     (case split_addr param addr of
        None \<Rightarrow> None
      | Some (Tag, Set) \<Rightarrow>
          if unat Set < length cache then
            map_option (\<lambda>(param, st). (param, cache[unat Set := st]))
              (accessSet param Tag (cache ! unat Set))
          else None)"

text \<open>One trace record; \<open>M\<close> falls through to the second access.\<close>

definition step_record :: "char \<times> u64 \<times> int \<Rightarrow> PARAM \<times> SET list \<Rightarrow> (PARAM \<times> SET list) option" where
  "step_record r st =
     (let (instr, addr, size) = r; (param, cache) = st in
      if instr = CHR ''M'' then
        (case accessCache cache param addr of
           None \<Rightarrow> None
         | Some (param, cache) \<Rightarrow> accessCache cache param addr)
      else if instr = CHR ''L'' \<or> instr = CHR ''S'' then accessCache cache param addr
      else Some st)"

text \<open>\<open>junk\<close> is what \<open>malloc\<close> left in the line arrays, which the code does not initialise.\<close>

definition build_cache :: "(nat \<Rightarrow> nat \<Rightarrow> LINE) \<Rightarrow> PARAM \<Rightarrow> SET list" where
  "build_cache junk param =
     map (\<lambda>Si. \<lparr>lines = map (junk Si) [0..<E_lines param], useCnt = 0\<rparr>) [0..<S_sets param]"

definition csim_param :: "nat \<Rightarrow> nat \<Rightarrow> nat \<Rightarrow> PARAM" where
  "csim_param s E b = \<lparr>s_bits = s, b_bits = b, E_lines = E, S_sets = wrap32 (2 ^ s), nHit = 0, nMiss = 0, nEvict = 0\<rparr>"

definition csim :: "(nat \<Rightarrow> nat \<Rightarrow> LINE) \<Rightarrow> nat \<Rightarrow> nat \<Rightarrow> nat \<Rightarrow> (char \<times> u64 \<times> int) list \<Rightarrow> (nat \<times> nat \<times> nat) option" where
  "csim junk s E b tr =
     (let param = csim_param s E b in
      case loop tr step_record (param, build_cache junk param) of
        None \<Rightarrow> None
      | Some (param, cache) \<Rightarrow> Some (nHit param, nMiss param, nEvict param))"

section \<open>The specification\<close>

text \<open>An LRU cache: every set is the list of its tags, the most recently used first.\<close>

datatype event = Hit | Miss | Evict

definition lru_access :: "nat \<Rightarrow> u64 \<Rightarrow> u64 list \<Rightarrow> event \<times> u64 list" where
  "lru_access E t ts =
     (if t \<in> set ts then (Hit, t # remove1 t ts)
      else if length ts < E then (Miss, t # ts)
      else (Evict, t # butlast ts))"

text \<open>The addresses a trace touches, in order.\<close>

fun accesses :: "(char \<times> u64 \<times> int) list \<Rightarrow> u64 list" where
  "accesses [] = []"
| "accesses ((i, a, n) # tr) =
     (if i = CHR ''M'' then [a, a] else if i = CHR ''L'' \<or> i = CHR ''S'' then [a] else []) @ accesses tr"

fun lru_run :: "nat \<Rightarrow> nat \<Rightarrow> nat \<Rightarrow> u64 list \<Rightarrow> (nat \<Rightarrow> u64 list) \<Rightarrow> event list" where
  "lru_run s E b [] c = []"
| "lru_run s E b (a # as) c =
     (let i = unat (take_bit s (drop_bit b a));
          (e, ts) = lru_access E (drop_bit (s + b) a) (c i)
      in e # lru_run s E b as (c(i := ts)))"

definition tally :: "event list \<Rightarrow> nat \<times> nat \<times> nat" where
  "tally es = (count_list es Hit, count_list es Miss + count_list es Evict, count_list es Evict)"

end
