(* ===== verification/CacheLru.thy ===== *)
theory CacheLru
  imports CacheSim
begin

text \<open>
  The simulator implements an LRU cache.  \<open>lru_rel st idx\<close> says that the valid lines of a set
  are those with the indices \<open>idx\<close>, in the order of their timestamps, the latest first; the
  tags in that order are the list the specification keeps.
\<close>

section \<open>The address\<close>

lemma split_addr_ok:
  assumes "0 < s_bits param" and "s_bits param + b_bits param < 64"
  shows "split_addr param a =
    Some (drop_bit (s_bits param + b_bits param) a, take_bit (s_bits param) (drop_bit (b_bits param) a))"
proof -
  let ?s = "s_bits param" and ?b = "b_bits param"
  have "2 ^ 32 + 2 ^ 32 + 64 - ?s - ?b = (64 - ?s - ?b) + 2 ^ 32 * 2" using assms by simp
  then have t: "wrap32 (2 ^ 32 + 2 ^ 32 + 64 - ?s - ?b) = 64 - ?s - ?b"
    unfolding wrap32_def using assms by (simp only: mod_mult_self2) simp
  have "drop_bit (64 - ?s) (push_bit (64 - ?s - ?b) a) = take_bit ?s (drop_bit ?b a)"
  proof (rule bit_word_eqI)
    fix n assume "n < LENGTH(64)"
    then show "bit (drop_bit (64 - ?s) (push_bit (64 - ?s - ?b) a)) n = bit (take_bit ?s (drop_bit ?b a)) n"
      using assms by (auto simp: bit_simps) (simp add: add.commute)+
  qed
  moreover have "64 - ?s - ?b + ?b = 64 - ?s" using assms by simp
  ultimately show ?thesis
    using assms unfolding split_addr_def t by (simp add: shr64_def shl64_def)
qed

section \<open>The two searches\<close>

lemma find_line_hit:
  "find_line T k ls e f = Inl i \<Longrightarrow> k \<le> i \<and> i < k + length ls \<and> valid (ls ! (i - k)) \<noteq> 0 \<and> tag (ls ! (i - k)) = T"
proof (induction ls arbitrary: k e f)
  case (Cons l ls)
  show ?case
  proof (cases "valid l \<noteq> 0 \<and> tag l = T")
    case False
    with Cons.prems obtain e' f' where "find_line T (Suc k) ls e' f' = Inl i" by (auto split: if_splits)
    from Cons.IH [OF this] show ?thesis by (auto simp: nth_Cons' Suc_diff_le)
  qed (use Cons.prems in auto)
qed simp

lemma find_line_found:
  "l \<in> set ls \<Longrightarrow> valid l \<noteq> 0 \<Longrightarrow> tag l = T \<Longrightarrow> \<exists>i. find_line T k ls e f = Inl i"
  by (induction ls arbitrary: k e f) auto

lemma find_line_full:
  "\<forall>l \<in> set ls. valid l \<noteq> 0 \<and> tag l \<noteq> T \<Longrightarrow> find_line T k ls e f = Inr (e, f)"
  by (induction ls arbitrary: k) auto

lemma find_line_free:
  assumes "\<forall>l \<in> set ls. valid l \<noteq> 0 \<longrightarrow> tag l \<noteq> T" and "e < k \<or> k + length ls \<le> e"
    and "e < k \<and> \<not> f \<or> (\<exists>l \<in> set ls. valid l = 0)"
  shows "\<exists>e'. find_line T k ls e f = Inr (e', False) \<and> (e < k \<longrightarrow> e' = e) \<and>
    (k + length ls \<le> e \<longrightarrow> k \<le> e' \<and> e' < k + length ls \<and> valid (ls ! (e' - k)) = 0)"
  using assms
proof (induction ls arbitrary: k e f)
  case (Cons l ls)
  show ?case
  proof (cases "valid l = 0")
    case False
    then have eq: "find_line T k (l # ls) e f = find_line T (Suc k) ls e f" using Cons.prems(1) by auto
    have "\<exists>e'. find_line T (Suc k) ls e f = Inr (e', False) \<and> (e < Suc k \<longrightarrow> e' = e) \<and>
      (Suc k + length ls \<le> e \<longrightarrow> Suc k \<le> e' \<and> e' < Suc k + length ls \<and> valid (ls ! (e' - Suc k)) = 0)"
      by (rule Cons.IH) (use Cons.prems False in auto)
    then obtain e' where e: "find_line T (Suc k) ls e f = Inr (e', False)" "e < Suc k \<longrightarrow> e' = e"
      "Suc k + length ls \<le> e \<longrightarrow> Suc k \<le> e' \<and> e' < Suc k + length ls \<and> valid (ls ! (e' - Suc k)) = 0" by blast
    have "valid ((l # ls) ! (e' - k)) = 0 \<and> k \<le> e' \<and> e' < k + length (l # ls)" if "k + length (l # ls) \<le> e"
    proof -
      from that e(3) have "Suc k \<le> e'" "e' < Suc k + length ls" "valid (ls ! (e' - Suc k)) = 0" by auto
      moreover from this(1) have "e' - k = Suc (e' - Suc k)" by simp
      ultimately show ?thesis by simp
    qed
    with e(1,2) show ?thesis unfolding eq by auto
  next
    case True
    let ?e = "if e < k then e else k"
    have "\<exists>e'. find_line T (Suc k) ls ?e False = Inr (e', False) \<and> (?e < Suc k \<longrightarrow> e' = ?e) \<and>
      (Suc k + length ls \<le> ?e \<longrightarrow> Suc k \<le> e' \<and> e' < Suc k + length ls \<and> valid (ls ! (e' - Suc k)) = 0)"
      by (rule Cons.IH) (use Cons.prems in auto)
    then show ?thesis using True Cons.prems(2) by auto
  qed
qed auto

lemma find_victim_min:
  assumes "ls = drop k L" and "v < k" and "k \<le> length L" and "m = useTime (L ! v)"
    and "\<And>j. j < k \<Longrightarrow> m \<le> useTime (L ! j)"
  shows "find_victim k ls v m < length L \<and> (\<forall>j < length L. useTime (L ! find_victim k ls v m) \<le> useTime (L ! j))"
  using assms
proof (induction ls arbitrary: k v m)
  case Nil
  then show ?case by auto
next
  case (Cons l ls)
  have "k < length L" using Cons.prems(1) by (metis drop_all list.distinct(1) not_le)
  moreover from this have "l # ls = L ! k # drop (Suc k) L" using Cons.prems(1) by (simp add: Cons_nth_drop_Suc)
  ultimately have k: "k < length L" "l = L ! k" "ls = drop (Suc k) L" by simp_all
  show ?case
  proof (cases "m > useTime l")
    case True
    have "useTime l \<le> useTime (L ! j)" if "j < Suc k" for j
      using that True Cons.prems(5) [of j] k(2) by (cases "j = k") auto
    from Cons.IH [OF k(3) _ _ _ this, of k] True k show ?thesis by simp
  next
    case False
    have "m \<le> useTime (L ! j)" if "j < Suc k" for j
      using that False Cons.prems(5) [of j] k(2) by (cases "j = k") auto
    from Cons.IH [OF k(3) _ _ Cons.prems(4) this] False k Cons.prems(2) show ?thesis by simp
  qed
qed

section \<open>One set\<close>

definition lru_rel :: "SET \<Rightarrow> nat list \<Rightarrow> bool" where
  "lru_rel st idx \<longleftrightarrow>
     distinct idx \<and> set idx = {i. i < length (lines st) \<and> valid (lines st ! i) \<noteq> 0} \<and>
     distinct (map (\<lambda>i. tag (lines st ! i)) idx) \<and>
     sorted_wrt (\<lambda>i j. useTime (lines st ! j) < useTime (lines st ! i)) idx \<and>
     (\<forall>i \<in> set idx. useTime (lines st ! i) \<le> useCnt st)"

definition tags_of :: "SET \<Rightarrow> nat list \<Rightarrow> u64 list" where
  "tags_of st idx = map (\<lambda>i. tag (lines st ! i)) idx"

text \<open>A touched line becomes the most recent one.\<close>

lemma touch_rel:
  assumes r: "lru_rel st idx" and i: "i < length (lines st)" and f: "valid (f (lines st ! i)) \<noteq> 0" "tag (f (lines st ! i)) = T"
    and T: "\<And>j. j \<in> set idx \<Longrightarrow> j \<noteq> i \<Longrightarrow> tag (lines st ! j) \<noteq> T" and n: "Suc (useCnt st) < 2 ^ 32"
  shows "lru_rel (touch i f st) (i # remove1 i idx)"
    and "tags_of (touch i f st) (i # remove1 i idx) = T # tags_of st (remove1 i idx)"
proof -
  let ?st = "touch i f st" and ?idx = "remove1 i idx"
  from r have d: "distinct idx" by (simp add: lru_rel_def)
  then have mem: "j \<in> set ?idx \<longleftrightarrow> j \<in> set idx \<and> j \<noteq> i" for j by auto
  have cnt: "useCnt ?st = Suc (useCnt st)" using n by (simp add: touch_def Let_def)
  have here: "lines ?st ! i = (f (lines st ! i))\<lparr>useTime := Suc (useCnt st)\<rparr>" "length (lines ?st) = length (lines st)"
    using i n by (simp_all add: touch_def Let_def)
  have there: "lines ?st ! j = lines st ! j" if "j \<noteq> i" for j
    using that by (simp add: touch_def Let_def)
  have sub: "sorted_wrt (\<lambda>i j. useTime (lines st ! j) < useTime (lines st ! i)) ?idx"
    using r d by (simp add: lru_rel_def distinct_remove1_removeAll removeAll_filter_not_eq sorted_wrt_filter)
  then have srt: "sorted_wrt (\<lambda>i j. useTime (lines ?st ! j) < useTime (lines ?st ! i)) ?idx"
    by (rule sorted_wrt_mono_rel [rotated]) (use d there in auto)
  have tg: "tags_of ?st ?idx = tags_of st ?idx"
    unfolding tags_of_def by (rule map_cong) (use d there in auto)
  have all: "tags_of ?st (i # ?idx) = T # tags_of st ?idx" using tg f here by (simp add: tags_of_def)
  have dt: "distinct (tags_of st ?idx)"
    using r d unfolding lru_rel_def tags_of_def by (auto simp: distinct_map intro: inj_on_subset)
  have "set (i # ?idx) = {j. j < length (lines ?st) \<and> valid (lines ?st ! j) \<noteq> 0}"
  proof (rule set_eqI)
    fix j
    show "j \<in> set (i # ?idx) \<longleftrightarrow> j \<in> {j. j < length (lines ?st) \<and> valid (lines ?st ! j) \<noteq> 0}"
      using r i f here there [of j] mem [of j] by (cases "j = i") (simp_all add: lru_rel_def)
  qed
  moreover have "distinct (tags_of ?st (i # ?idx))"
  proof -
    have "T \<notin> set (tags_of st ?idx)" using T mem by (fastforce simp: tags_of_def)
    then show ?thesis using dt all by simp
  qed
  moreover have "\<forall>j\<in>set (i # ?idx). useTime (lines ?st ! j) \<le> useCnt ?st"
  proof
    fix j assume "j \<in> set (i # ?idx)"
    moreover have "useTime (lines st ! j) \<le> useCnt st" if "j \<in> set idx" using r that by (simp add: lru_rel_def)
    ultimately show "useTime (lines ?st ! j) \<le> useCnt ?st"
      using here(1) there [of j] mem [of j] cnt by (cases "j = i") auto
  qed
  moreover have "sorted_wrt (\<lambda>i j. useTime (lines ?st ! j) < useTime (lines ?st ! i)) (i # ?idx)"
  proof -
    have "useTime (lines ?st ! j) < useTime (lines ?st ! i)" if "j \<in> set ?idx" for j
    proof -
      from that mem have "j \<in> set idx" "j \<noteq> i" by blast+
      moreover from this r have "useTime (lines st ! j) \<le> useCnt st" by (simp add: lru_rel_def)
      ultimately show ?thesis using here(1) there [of j] by simp
    qed
    with srt show ?thesis by simp
  qed
  moreover have "distinct (i # ?idx)" using d by simp
  ultimately show "lru_rel ?st (i # ?idx)" unfolding lru_rel_def tags_of_def by blast
  show "tags_of ?st (i # ?idx) = T # tags_of st ?idx" by (rule all)
qed

lemma touch_keeps [simp]: "length (lines (touch i f st)) = length (lines st)"
  "Suc (useCnt st) < 2 ^ 32 \<Longrightarrow> useCnt (touch i f st) = Suc (useCnt st)"
  by (simp_all add: touch_def Let_def)

text \<open>What an event does to the counters.\<close>

fun bump :: "event \<Rightarrow> PARAM \<Rightarrow> PARAM" where
  "bump Hit p = p\<lparr>nHit := Suc (nHit p)\<rparr>"
| "bump Miss p = p\<lparr>nMiss := Suc (nMiss p)\<rparr>"
| "bump Evict p = p\<lparr>nMiss := Suc (nMiss p), nEvict := Suc (nEvict p)\<rparr>"

lemma lru_rel_idx:
  assumes "lru_rel st idx"
  shows "T \<in> set (tags_of st idx) \<longleftrightarrow> (\<exists>l \<in> set (lines st). valid l \<noteq> 0 \<and> tag l = T)"
    and "length (tags_of st idx) = card {i. i < length (lines st) \<and> valid (lines st ! i) \<noteq> 0}"
proof -
  from assms have s: "set idx = {i. i < length (lines st) \<and> valid (lines st ! i) \<noteq> 0}" and d: "distinct idx"
    by (auto simp: lru_rel_def)
  show "T \<in> set (tags_of st idx) \<longleftrightarrow> (\<exists>l \<in> set (lines st). valid l \<noteq> 0 \<and> tag l = T)"
  proof
    assume "T \<in> set (tags_of st idx)"
    then obtain i where "i \<in> set idx" "tag (lines st ! i) = T" by (auto simp: tags_of_def)
    then show "\<exists>l \<in> set (lines st). valid l \<noteq> 0 \<and> tag l = T" using s nth_mem by blast
  next
    assume "\<exists>l \<in> set (lines st). valid l \<noteq> 0 \<and> tag l = T"
    then obtain i where "i < length (lines st)" "valid (lines st ! i) \<noteq> 0" "tag (lines st ! i) = T"
      by (metis in_set_conv_nth)
    then have "i \<in> set idx" "tag (lines st ! i) = T" by (simp_all add: s)
    then show "T \<in> set (tags_of st idx)" unfolding tags_of_def by (metis image_eqI set_map)
  qed
  show "length (tags_of st idx) = card {i. i < length (lines st) \<and> valid (lines st ! i) \<noteq> 0}"
    using s d by (simp add: tags_of_def distinct_card [symmetric])
qed

lemma map_remove1_inj: "distinct (map f xs) \<Longrightarrow> x \<in> set xs \<Longrightarrow> map f (remove1 x xs) = remove1 (f x) (map f xs)"
proof (induction xs)
  case (Cons a xs)
  show ?case
  proof (cases "x = a")
    case False
    with Cons.prems have "f x \<in> f ` set xs" by simp
    with Cons.prems have "f x \<noteq> f a" by auto
    with Cons False show ?thesis by simp
  qed simp
qed simp

lemma accessSet_lru:
  assumes r: "lru_rel st idx" and E: "length (lines st) = E_lines p" "0 < E_lines p"
    and n: "Suc (useCnt st) < 2 ^ 32" "Suc (nHit p) < 2 ^ 32" "Suc (nMiss p) < 2 ^ 32" "Suc (nEvict p) < 2 ^ 32"
  shows "\<exists>e st' idx'. accessSet p T st = Some (bump e p, st') \<and> lru_rel st' idx' \<and>
    lru_access (E_lines p) T (tags_of st idx) = (e, tags_of st' idx') \<and>
    length (lines st') = length (lines st) \<and> useCnt st' = Suc (useCnt st)"
proof -
  let ?E = "E_lines p"
  from r have s: "set idx = {i. i < length (lines st) \<and> valid (lines st ! i) \<noteq> 0}" and d: "distinct idx"
    and dt: "distinct (tags_of st idx)" by (auto simp: lru_rel_def tags_of_def)
  have rm: "tags_of st (remove1 i idx) = remove1 (tag (lines st ! i)) (tags_of st idx)" if "i \<in> set idx" for i
    using map_remove1_inj [of "\<lambda>i. tag (lines st ! i)" idx i] that dt by (simp add: tags_of_def)
  show ?thesis
  proof (cases "T \<in> set (tags_of st idx)")
    case True
    with lru_rel_idx(1) [OF r] obtain l where "l \<in> set (lines st)" "valid l \<noteq> 0" "tag l = T" by blast
    from find_line_found [OF this] obtain i where f: "find_line T 0 (lines st) ?E True = Inl i" by blast
    from find_line_hit [OF f] have i: "i < length (lines st)" "valid (lines st ! i) \<noteq> 0" "tag (lines st ! i) = T" by auto
    then have ii: "i \<in> set idx" by (simp add: s)
    have T: "tag (lines st ! j) \<noteq> T" if "j \<in> set idx" "j \<noteq> i" for j
      using that dt ii i(3) by (auto simp: tags_of_def distinct_map inj_on_def)
    have t: "lru_rel (touch i id st) (i # remove1 i idx)" "tags_of (touch i id st) (i # remove1 i idx) = T # tags_of st (remove1 i idx)"
      by (rule touch_rel [OF r i(1) _ _ T n(1)]; use i in simp)+
    have "accessSet p T st = Some (bump Hit p, touch i id st)"
      using f E n(2) by (simp add: accessSet_def)
    moreover have "lru_access ?E T (tags_of st idx) = (Hit, tags_of (touch i id st) (i # remove1 i idx))"
      unfolding t(2) rm [OF ii] i(3) using True by (simp add: lru_access_def)
    ultimately show ?thesis using t(1) n(1) by (intro exI conjI) (assumption | simp)+
  next
    case False
    with lru_rel_idx(1) [OF r] have nt: "\<forall>l \<in> set (lines st). valid l \<noteq> 0 \<longrightarrow> tag l \<noteq> T" by blast
    have T: "tag (lines st ! j) \<noteq> T" if "j \<in> set idx" for j using that False by (auto simp: tags_of_def)
    show ?thesis
    proof (cases "\<exists>l \<in> set (lines st). valid l = 0")
      case True
      from find_line_free [OF nt, of ?E 0 True] True E obtain e
        where f: "find_line T 0 (lines st) ?E True = Inr (e, False)" "e < length (lines st)" "valid (lines st ! e) = 0" by auto
      let ?f = "\<lambda>l. l\<lparr>tag := T, valid := 1\<rparr>"
      have ne: "e \<notin> set idx" using f by (simp add: s)
      have t: "lru_rel (touch e ?f st) (e # remove1 e idx)" "tags_of (touch e ?f st) (e # remove1 e idx) = T # tags_of st (remove1 e idx)"
        by (rule touch_rel [OF r f(2) _ _ T n(1)]; simp)+
      have "{i. i < length (lines st) \<and> valid (lines st ! i) \<noteq> 0} \<subset> {..<length (lines st)}" using f by auto
      note ps = psubset_card_mono [OF finite_lessThan this]
      have "length (tags_of st idx) < ?E"
        using ps E lru_rel_idx(2) [OF r] by simp
      then have "lru_access ?E T (tags_of st idx) = (Miss, tags_of (touch e ?f st) (e # remove1 e idx))"
        unfolding t(2) using False ne by (simp add: lru_access_def remove1_idem)
      moreover have "accessSet p T st = Some (bump Miss p, touch e ?f st)"
        using f E n(3) by (simp add: accessSet_def missLine_def)
      ultimately show ?thesis using t(1) n(1) by (intro exI conjI) (assumption | simp)+
    next
      case full: False
      then have f: "find_line T 0 (lines st) ?E True = Inr (?E, True)" using nt by (intro find_line_full) auto
      from E obtain l ls where ls: "lines st = l # ls" by (cases "lines st") auto
      let ?v = "find_victim 1 (tl (lines st)) 0 (useTime (hd (lines st)))" and ?f = "\<lambda>l. l\<lparr>tag := T\<rparr>"
      have v: "?v < length (lines st)" "\<forall>j < length (lines st). useTime (lines st ! ?v) \<le> useTime (lines st ! j)"
        using find_victim_min [of "tl (lines st)" 1 "lines st" 0] by (auto simp: ls)
      have all: "set idx = {..<length (lines st)}" using full s by (auto simp: all_set_conv_all_nth)
      have "0 \<in> set idx" unfolding all using E by simp
      then have "idx \<noteq> []" by (cases idx) simp_all
      then obtain js j where idx: "idx = js @ [j]" by (cases idx rule: rev_cases) auto
      have "?v = j"
      proof (rule ccontr)
        assume "?v \<noteq> j"
        then have "?v \<in> set js" using v(1) all idx by auto
        then have "useTime (lines st ! j) < useTime (lines st ! ?v)"
          using r idx by (auto simp: lru_rel_def sorted_wrt_append)
        moreover have "j < length (lines st)" using all idx by auto
        ultimately show False using v(2) by auto
      qed
      then have rj: "remove1 ?v idx = js" using d idx by (simp add: remove1_append)
      have ok: "valid (lines st ! ?v) \<noteq> 0" using v(1) all s by auto
      have t: "lru_rel (touch ?v ?f st) (?v # remove1 ?v idx)" "tags_of (touch ?v ?f st) (?v # remove1 ?v idx) = T # tags_of st (remove1 ?v idx)"
        by (rule touch_rel [OF r v(1) _ _ T n(1)]; use ok in simp)+
      have "length (tags_of st idx) = ?E" using all d E by (simp add: tags_of_def distinct_card [symmetric])
      moreover have "butlast (tags_of st idx) = tags_of st js" by (simp add: tags_of_def idx)
      ultimately have "lru_access ?E T (tags_of st idx) = (Evict, T # tags_of st js)"
        unfolding lru_access_def using False by simp
      then have "lru_access ?E T (tags_of st idx) = (Evict, tags_of (touch ?v ?f st) (?v # remove1 ?v idx))"
        unfolding t(2) unfolding rj .
      moreover have "accessSet p T st = Some (bump Evict p, touch ?v ?f st)"
        using f E n(3,4) ls by (simp add: accessSet_def missLine_def)
      ultimately show ?thesis using t(1) n(1) by (intro exI conjI) (assumption | simp)+
    qed
  qed
qed


section \<open>The whole cache\<close>

definition cache_rel :: "SET list \<Rightarrow> PARAM \<Rightarrow> nat \<Rightarrow> (nat \<Rightarrow> u64 list) \<Rightarrow> bool" where
  "cache_rel cache p n c \<longleftrightarrow>
     length cache = 2 ^ s_bits p \<and> 0 < E_lines p \<and> 0 < s_bits p \<and> s_bits p + b_bits p < 64 \<and>
     nHit p \<le> n \<and> nMiss p \<le> n \<and> nEvict p \<le> n \<and>
     (\<forall>i < length cache. \<exists>idx. lru_rel (cache ! i) idx \<and> tags_of (cache ! i) idx = c i \<and>
        length (lines (cache ! i)) = E_lines p \<and> useCnt (cache ! i) \<le> n)"

lemma bump_fields [simp]:
  "s_bits (bump e p) = s_bits p" "b_bits (bump e p) = b_bits p" "E_lines (bump e p) = E_lines p"
  by (cases e; simp)+

lemma bump_le: "nHit (bump e p) \<le> Suc (nHit p)" "nMiss (bump e p) \<le> Suc (nMiss p)" "nEvict (bump e p) \<le> Suc (nEvict p)"
  by (cases e; simp)+

lemma accessCache_lru:
  fixes a :: u64
  assumes c: "cache_rel cache p n c" and n: "Suc n < 2 ^ 32"
  defines "i \<equiv> unat (take_bit (s_bits p) (drop_bit (b_bits p) a))"
  shows "\<exists>e ts cache'. accessCache cache p a = Some (bump e p, cache') \<and>
    lru_access (E_lines p) (drop_bit (s_bits p + b_bits p) a) (c i) = (e, ts) \<and>
    cache_rel cache' (bump e p) (Suc n) (c(i := ts))"
proof -
  from c have p: "0 < E_lines p" "0 < s_bits p" "s_bits p + b_bits p < 64" and len: "length cache = 2 ^ s_bits p"
    and cnt: "nHit p \<le> n" "nMiss p \<le> n" "nEvict p \<le> n" by (auto simp: cache_rel_def)
  let ?T = "drop_bit (s_bits p + b_bits p) a"
  have i: "i < length cache"
    unfolding i_def len by (simp add: unsigned_take_bit_eq)
  with c obtain idx where r: "lru_rel (cache ! i) idx" "tags_of (cache ! i) idx = c i"
    "length (lines (cache ! i)) = E_lines p" "useCnt (cache ! i) \<le> n" by (auto simp: cache_rel_def)
  have "Suc (useCnt (cache ! i)) < 2 ^ 32" "Suc (nHit p) < 2 ^ 32" "Suc (nMiss p) < 2 ^ 32" "Suc (nEvict p) < 2 ^ 32"
    using r(4) cnt n by simp_all
  from accessSet_lru [OF r(1,3) p(1) this, of ?T] obtain e st' idx'
    where a: "accessSet p ?T (cache ! i) = Some (bump e p, st')" "lru_rel st' idx'"
      "lru_access (E_lines p) ?T (c i) = (e, tags_of st' idx')" "length (lines st') = E_lines p"
      "useCnt st' = Suc (useCnt (cache ! i))" unfolding r(2,3) by blast
  have "accessCache cache p a = Some (bump e p, cache[i := st'])"
    using split_addr_ok [OF p(2,3), of a] a(1) i by (simp add: accessCache_def i_def)
  moreover have "cache_rel (cache[i := st']) (bump e p) (Suc n) (c(i := tags_of st' idx'))"
    unfolding cache_rel_def
  proof (intro conjI allI impI)
    fix j assume j: "j < length (cache[i := st'])"
    show "\<exists>idx. lru_rel (cache[i := st'] ! j) idx \<and> tags_of (cache[i := st'] ! j) idx = (c(i := tags_of st' idx')) j \<and>
        length (lines (cache[i := st'] ! j)) = E_lines (bump e p) \<and> useCnt (cache[i := st'] ! j) \<le> Suc n"
    proof (cases "j = i")
      case True
      then show ?thesis using a i r(4) by auto
    next
      case False
      with j c obtain idx where "lru_rel (cache ! j) idx" "tags_of (cache ! j) idx = c j"
        "length (lines (cache ! j)) = E_lines p" "useCnt (cache ! j) \<le> n" by (auto simp: cache_rel_def)
      with False show ?thesis by (intro exI [of _ idx]) simp
    qed
  qed (use len p cnt bump_le [of e p] in \<open>simp_all add: le_SucI order_trans\<close>)
  ultimately show ?thesis using a(3) by blast
qed

definition accessAll :: "u64 list \<Rightarrow> PARAM \<times> SET list \<Rightarrow> (PARAM \<times> SET list) option" where
  "accessAll as st = loop as (\<lambda>a (p, cache). accessCache cache p a) st"

lemma accessAll_simps:
  "accessAll [] st = Some st"
  "accessAll (a # as) (p, cache) = (case accessCache cache p a of None \<Rightarrow> None | Some st \<Rightarrow> accessAll as st)"
  "accessAll (as @ bs) st = (case accessAll as st of None \<Rightarrow> None | Some st \<Rightarrow> accessAll bs st)"
  by (simp_all add: accessAll_def loop_append split: option.splits)

lemma trace_accesses: "loop tr step_record st = accessAll (accesses tr) st"
proof (induction tr arbitrary: st)
  case (Cons r tr)
  obtain i a n where r: "r = (i, a, n)" by (cases r) auto
  obtain p cache where st: "st = (p, cache)" by force
  have "step_record r st = accessAll (accesses [r]) st"
    by (auto simp: step_record_def r st accessAll_simps split: option.splits prod.splits)
  moreover have "accesses (r # tr) = accesses [r] @ accesses tr" by (simp add: r)
  ultimately show ?case using Cons.IH
    by (simp only: loop.simps accessAll_simps(3)) (simp split: option.splits)
qed (simp add: accessAll_simps)

lemma accessAll_lru:
  assumes "cache_rel cache p n c" and "n + length as < 2 ^ 32"
  shows "\<exists>p' cache'. accessAll as (p, cache) = Some (p', cache') \<and>
    (let es = lru_run (s_bits p) (E_lines p) (b_bits p) as c in
     nHit p' = nHit p + count_list es Hit \<and>
     nMiss p' = nMiss p + count_list es Miss + count_list es Evict \<and>
     nEvict p' = nEvict p + count_list es Evict)"
  using assms
proof (induction as arbitrary: cache p n c)
  case (Cons a as)
  let ?i = "unat (take_bit (s_bits p) (drop_bit (b_bits p) a))"
  have "Suc n < 2 ^ 32" using Cons.prems(2) by simp
  from accessCache_lru [OF Cons.prems(1) this, of a] obtain e ts cache'
    where a: "accessCache cache p a = Some (bump e p, cache')"
      "lru_access (E_lines p) (drop_bit (s_bits p + b_bits p) a) (c ?i) = (e, ts)"
      "cache_rel cache' (bump e p) (Suc n) (c(?i := ts))" by blast
  have "Suc n + length as < 2 ^ 32" using Cons.prems(2) by simp
  from Cons.IH [OF a(3) this] a(1,2) show ?case
    by (cases e) (auto simp: accessAll_simps Let_def simp del: fun_upd_apply)
qed (simp add: accessAll_simps)

text \<open>A cache whose line arrays were zero when they were allocated.\<close>

lemma build_cache_rel:
  assumes "0 < s" "s < 32" "s + b < 64" "0 < E" and z: "\<And>i j. valid (junk i j) = 0"
  shows "cache_rel (build_cache junk (csim_param s E b)) (csim_param s E b) 0 (\<lambda>_. [])"
proof -
  have "(2 :: nat) ^ s < 2 ^ 32" using power_strict_increasing [OF assms(2), of "2 :: nat"] by simp
  then have S: "S_sets (csim_param s E b) = 2 ^ s" by (simp add: csim_param_def)
  show ?thesis
    unfolding cache_rel_def build_cache_def S using assms
    by (auto simp: csim_param_def lru_rel_def tags_of_def intro!: exI [of _ "[]"])
qed

text \<open>The whole program, when \<open>malloc\<close> happens to leave every line invalid, which it does not promise.\<close>

lemma csim_lru:
  assumes "0 < s" "s < 32" "s + b < 64" "0 < E" "\<And>i j. valid (junk i j) = 0" and "length (accesses tr) < 2 ^ 32"
  shows "csim junk s E b tr = Some (tally (lru_run s E b (accesses tr) (\<lambda>_. [])))"
proof -
  let ?p = "csim_param s E b"
  have "0 + length (accesses tr) < 2 ^ 32" using assms(6) by simp
  have c: "cache_rel (build_cache junk ?p) ?p 0 (\<lambda>_. [])" by (rule build_cache_rel) (use assms(1-5) in auto)
  from accessAll_lru [OF c \<open>0 + length (accesses tr) < 2 ^ 32\<close>] show ?thesis
    by (auto simp: csim_def trace_accesses tally_def Let_def csim_param_def)
qed

section \<open>Any state of the cache\<close>

text \<open>The valid lines of a set, and their tags, the most recently used first.\<close>

definition valid_lines :: "SET \<Rightarrow> LINE list" where
  "valid_lines st = filter (\<lambda>l. valid l \<noteq> 0) (lines st)"

definition recency :: "SET \<Rightarrow> u64 list" where
  "recency st = map tag (rev (sort_key useTime (valid_lines st)))"

text \<open>The valid lines are in use: their tags differ, and so do their timestamps, none of which is later than
  the counter of the set.  A set without valid lines is in this state whatever else its lines hold.\<close>

definition timed :: "SET \<Rightarrow> bool" where
  "timed st \<longleftrightarrow> distinct (map tag (valid_lines st)) \<and> distinct (map useTime (valid_lines st)) \<and>
     (\<forall>l \<in> set (valid_lines st). useTime l \<le> useCnt st)"

lemma map_insort_key: "map g (insort_key (f \<circ> g) x xs) = insort_key f (g x) (map g xs)"
  by (induction xs) auto

lemma map_sort_key: "map g (sort_key (f \<circ> g) xs) = sort_key f (map g xs)"
  by (induction xs) (simp_all add: map_insort_key [unfolded comp_def] comp_def)

lemma timed_rel:
  assumes "timed st"
  shows "\<exists>idx. lru_rel st idx \<and> tags_of st idx = recency st"
proof -
  let ?is = "filter (\<lambda>i. valid (lines st ! i) \<noteq> 0) [0..<length (lines st)]"
  define idx where "idx = rev (sort_key (\<lambda>i. useTime (lines st ! i)) ?is)"
  have v: "map (\<lambda>i. lines st ! i) ?is = valid_lines st"
  proof -
    have "valid_lines st = filter (\<lambda>l. valid l \<noteq> 0) (map (\<lambda>i. lines st ! i) [0..<length (lines st)])"
      by (simp add: valid_lines_def map_nth)
    then show ?thesis by (simp add: filter_map comp_def)
  qed
  have s: "map (\<lambda>i. lines st ! i) (sort_key (\<lambda>i. useTime (lines st ! i)) ?is) = sort_key useTime (valid_lines st)"
    using map_sort_key [of "\<lambda>i. lines st ! i" useTime ?is] by (simp add: v comp_def)
  have d: "distinct idx" "set idx = {i. i < length (lines st) \<and> valid (lines st ! i) \<noteq> 0}"
    by (auto simp: idx_def)
  have m: "map (\<lambda>i. lines st ! i) idx = rev (sort_key useTime (valid_lines st))"
    using s by (simp add: idx_def rev_map [symmetric])
  have tg: "tags_of st idx = recency st"
    using arg_cong [OF m, of "map tag"] by (simp add: tags_of_def recency_def comp_def)
  have "distinct (recency st)"
    using assms by (simp add: recency_def timed_def distinct_map)
  then have dt: "distinct (map (\<lambda>i. tag (lines st ! i)) idx)" using tg by (simp add: tags_of_def)
  have "map useTime (rev (sort_key useTime (valid_lines st))) = rev (map useTime (sort_key useTime (valid_lines st)))"
    by (simp add: rev_map)
  moreover have "sorted_wrt (<) (map useTime (sort_key useTime (valid_lines st)))"
    using assms by (intro iffD2 [OF strict_sorted_iff]) (simp add: timed_def distinct_map)
  ultimately have "sorted_wrt (\<lambda>x y. y < x) (map useTime (map (\<lambda>i. lines st ! i) idx))"
    unfolding m by (simp add: sorted_wrt_rev)
  then have so: "sorted_wrt (\<lambda>i j. useTime (lines st ! j) < useTime (lines st ! i)) idx"
    by (simp add: sorted_wrt_map)
  have "\<forall>i \<in> set idx. useTime (lines st ! i) \<le> useCnt st"
    using assms d(2) unfolding timed_def valid_lines_def by auto
  with d dt so have "lru_rel st idx" by (simp add: lru_rel_def)
  with tg show ?thesis by blast
qed

lemma csim_step_undefined:
  assumes "s_bits p = 0" and "b_bits p < 64"
  shows "accessCache cache p a = None"
proof -
  let ?b = "b_bits p"
  have "2 ^ 32 + 2 ^ 32 + 64 - ?b = (64 - ?b) + 2 ^ 32 * 2" using assms(2) by simp
  then have "wrap32 (2 ^ 32 + 2 ^ 32 + 64 - ?b) = 64 - ?b"
    unfolding wrap32_def using assms(2) by (simp only: mod_mult_self2) simp
  then have "split_addr p a = None"
    using assms by (simp add: split_addr_def shr64_def Let_def split: option.splits)
  then show ?thesis by (simp add: accessCache_def)
qed

section \<open>The properties of csim.c\<close>

definition zeroed :: "nat \<Rightarrow> nat \<Rightarrow> LINE" where
  "zeroed i j = \<lparr>tag = 0, valid = 0, useTime = 0\<rparr>"

text \<open>C8: a trace runs through the simulator like this from every state of the cache in which the valid lines of a
  set have different tags and different timestamps, none later than the counter of the set (for example no valid
  line at all), with at least one line per set, fewer than 64 bits for set and block, and counters that stay
  below \<open>2^32\<close>.  With at least one set bit no operation is undefined, and the hits, misses and evictions
  counted are those of an LRU cache with that content, whose sets are lists of tags with the most recently used
  first.  Without set bits the first access shifts a 64-bit value by 64, which is undefined.\<close>

theorem csim_is_lru:
  assumes "0 < E_lines p" and "s_bits p + b_bits p < 64" and "length cache = 2 ^ s_bits p"
    and "\<forall>st \<in> set cache. length (lines st) = E_lines p \<and> timed st"
    and "\<forall>n \<in> {nHit p, nMiss p, nEvict p} \<union> useCnt ` set cache. n + length (accesses tr) < 2 ^ 32"
  shows "if s_bits p = 0 \<and> accesses tr \<noteq> [] then loop tr step_record (p, cache) = None
    else \<exists>p' cache'. loop tr step_record (p, cache) = Some (p', cache') \<and>
      (nHit p' - nHit p, nMiss p' - nMiss p, nEvict p' - nEvict p) =
        tally (lru_run (s_bits p) (E_lines p) (b_bits p) (accesses tr) (\<lambda>i. recency (cache ! i))) \<and>
      nHit p \<le> nHit p' \<and> nMiss p \<le> nMiss p' \<and> nEvict p \<le> nEvict p'"
proof (cases "accesses tr = []")
  case True
  then show ?thesis unfolding trace_accesses by (simp add: accessAll_simps tally_def)
next
  case False
  show ?thesis
  proof (cases "s_bits p = 0")
    case s: True
    then have "accessAll (accesses tr) (p, cache) = None"
      using False csim_step_undefined assms(2) by (cases "accesses tr") (auto simp: accessAll_simps)
    then show ?thesis using s False by (simp add: trace_accesses)
  next
    case s: False
    define n where "n = 2 ^ 32 - 1 - length (accesses tr)"
    have le: "x \<le> n" if "x + length (accesses tr) < 2 ^ 32" for x using that by (simp add: n_def)
    have n: "n + length (accesses tr) < 2 ^ 32" using assms(5) by (auto simp: n_def)
    have "cache_rel cache p n (\<lambda>i. recency (cache ! i))"
      unfolding cache_rel_def
    proof (intro conjI allI impI)
      fix i assume "i < length cache"
      then have st: "cache ! i \<in> set cache" by simp
      with assms(4,5) le timed_rel [of "cache ! i"]
      show "\<exists>idx. lru_rel (cache ! i) idx \<and> tags_of (cache ! i) idx = recency (cache ! i) \<and>
        length (lines (cache ! i)) = E_lines p \<and> useCnt (cache ! i) \<le> n" by blast
    qed (use assms s le in auto)
    from accessAll_lru [OF this n] show ?thesis
      using s False by (auto simp: trace_accesses tally_def Let_def)
  qed
qed

theorem csim_is_lru_witness:
  "csim zeroed 1 1 4 [(CHR ''L'', 16, 1), (CHR ''M'', 32, 1), (CHR ''L'', 34, 1), (CHR ''S'', 96, 1), (CHR ''I'', 0, 1)]
     = Some (2, 3, 1)"
proof -
  let ?tr = "[(CHR ''L'', 16, 1), (CHR ''M'', 32, 1), (CHR ''L'', 34, 1), (CHR ''S'', 96, 1), (CHR ''I'', 0, 1)] :: (char \<times> u64 \<times> int) list"
  define p where "p = csim_param 1 1 4"
  define c where "c = build_cache zeroed p"
  have p: "nHit p = 0" "nMiss p = 0" "nEvict p = 0" "s_bits p = 1" "E_lines p = 1" "b_bits p = 4" "S_sets p = 2"
    by (simp_all add: csim_param_def p_def)
  have st: "\<forall>st \<in> set c. length (lines st) = 1 \<and> valid_lines st = [] \<and> useCnt st = 0"
    by (auto simp: c_def build_cache_def p valid_lines_def zeroed_def)
  have l: "length c = 2" by (simp add: c_def build_cache_def p)
  have r: "recency (c ! 0) = []" "recency (c ! Suc 0) = []"
    by (simp_all add: c_def build_cache_def p recency_def valid_lines_def zeroed_def)
  have "\<exists>p' cache'. loop ?tr step_record (p, c) = Some (p', cache') \<and>
    (nHit p', nMiss p', nEvict p') = tally (lru_run 1 1 4 (accesses ?tr) (\<lambda>i. recency (c ! i)))"
    using csim_is_lru [of p c ?tr] st l by (auto simp: p timed_def)
  moreover have "accesses ?tr = [16, 32, 32, 34, 96]" by simp
  moreover have "tally (lru_run 1 1 4 [16, 32, 32, 34, 96] (\<lambda>i. recency (c ! i))) = (2, 3, 1)"
    by (simp add: r tally_def lru_access_def Let_def take_bit_eq_mod drop_bit_eq_div split: prod.split)
  ultimately show ?thesis unfolding csim_def Let_def p_def [symmetric] c_def [symmetric] by auto
qed

text \<open>The line arrays are never initialised: if \<open>malloc\<close> returns memory in which a line looks
  valid, the first access to an empty cache can be counted as a hit.\<close>

theorem csim_uninitialised_lines:
  "csim (\<lambda>i j. \<lparr>tag = 0, valid = 1, useTime = 0\<rparr>) 1 1 4 [(CHR ''L'', 0, 1)] = Some (1, 0, 0)"
proof -
  have s: "split_addr (csim_param 1 1 4) 0 = Some (0, 0)"
    using split_addr_ok [of "csim_param 1 1 4" 0] by (simp add: csim_param_def)
  show ?thesis
    using s by (simp add: csim_def step_record_def accessCache_def build_cache_def accessSet_def csim_param_def touch_def Let_def)
qed

text \<open>A fully associative cache (\<open>s = 0\<close>) makes the first access shift a 64-bit value by 64
  places, which is undefined.\<close>

theorem csim_fully_associative_undefined:
  assumes "b < 64" and "i = CHR ''L'' \<or> i = CHR ''S'' \<or> i = CHR ''M''"
  shows "csim junk 0 E b ((i, a, n) # tr) = None"
proof -
  have "wrap32 (2 ^ 32 + 2 ^ 32 + 64 - b) = 64 - b"
  proof -
    have "2 ^ 32 + 2 ^ 32 + 64 - b = (64 - b) + 2 ^ 32 * 2" using assms(1) by simp
    then show ?thesis unfolding wrap32_def using assms(1) by (simp only: mod_mult_self2) simp
  qed
  then have "split_addr (csim_param 0 E b) a = None"
    using assms(1) by (simp add: split_addr_def csim_param_def shr64_def Let_def split: option.splits)
  then show ?thesis using assms(2) by (auto simp: csim_def step_record_def accessCache_def)
qed

theorem csim_fully_associative_undefined_witness: "csim zeroed 0 4 5 [(CHR ''L'', 64, 8)] = None"
  by (rule csim_fully_associative_undefined) simp_all

end
