(* ===== verification/Transpose.thy ===== *)
theory Transpose
  imports Prelude "HOL-Library.Monad_Syntax"
begin

text \<open>
  The matrix transposition \<open>cachelab_handout/trans.c\<close>.  A matrix is a map from index pairs to
  elements; every access is checked against the dimensions, and \<open>None\<close> is an access outside
  the array or the use of a local variable that was never assigned.  The two arrays do not
  overlap.  The first part is the code, the second the correctness of every branch.
\<close>

section \<open>The code\<close>

type_synonym 'v matrix = "nat \<times> nat \<Rightarrow> 'v"

definition rd :: "nat \<Rightarrow> nat \<Rightarrow> 'v matrix \<Rightarrow> nat \<Rightarrow> nat \<Rightarrow> 'v option" where
  "rd rows cols X i j = (if i < rows \<and> j < cols then Some (X (i, j)) else None)"

definition wr :: "nat \<Rightarrow> nat \<Rightarrow> nat \<Rightarrow> nat \<Rightarrow> 'v \<Rightarrow> 'v matrix \<Rightarrow> 'v matrix option" where
  "wr rows cols i j v X = (if i < rows \<and> j < cols then Some (X((i, j) := v)) else None)"

text \<open>The index values of \<open>for (x = 0; x < n; x += k)\<close>.\<close>

definition steps :: "nat \<Rightarrow> nat \<Rightarrow> nat list" where
  "steps k n = map (\<lambda>i. k * i) [0..<(n + k - 1) div k]"

text \<open>\<open>N == 32\<close>: one row \<open>n\<close> of a block.  The variables \<open>t0\<close> and \<open>t1\<close> are assigned together.\<close>

definition row32 :: "nat \<Rightarrow> nat \<Rightarrow> 'v matrix \<Rightarrow> nat \<Rightarrow> nat \<Rightarrow> nat \<Rightarrow>
    'v matrix \<times> (nat \<times> 'v) option \<Rightarrow> ('v matrix \<times> (nat \<times> 'v) option) option" where
  "row32 N M A nn mm n st = do {
     (B, t) \<leftarrow> loop [0..<8] (\<lambda>m (B, t).
       if nn + n \<noteq> mm + m then do {
         v \<leftarrow> rd N M A (nn + n) (mm + m);
         B \<leftarrow> wr M N (mm + m) (nn + n) v B;
         Some (B, t) }
       else do {
         v \<leftarrow> rd N M A (nn + n) (nn + n);
         Some (B, Some (nn + n, v)) }) st;
     if nn = mm then (case t of
         None \<Rightarrow> None
       | Some (t0, t1) \<Rightarrow> do { B \<leftarrow> wr M N t0 t0 t1 B; Some (B, t) })
     else Some (B, t) }"

definition trans32 :: "nat \<Rightarrow> nat \<Rightarrow> 'v matrix \<Rightarrow> 'v matrix \<Rightarrow> 'v matrix option" where
  "trans32 N M A B = do {
     (B, t) \<leftarrow> loop (steps 8 N) (\<lambda>nn. loop (steps 8 M) (\<lambda>mm. loop [0..<8] (\<lambda>n. row32 N M A nn mm n))) (B, None);
     Some B }"

text \<open>\<open>N == 64\<close>: blocks off the diagonal, in four phases.\<close>

definition copy_top :: "nat \<Rightarrow> nat \<Rightarrow> 'v matrix \<Rightarrow> nat \<Rightarrow> nat \<Rightarrow> 'v matrix \<Rightarrow> 'v matrix option" where
  "copy_top N M A nn mm = loop [0..<4] (\<lambda>n. loop [0..<8] (\<lambda>m B. do {
     v \<leftarrow> rd N M A (nn + n) (mm + m);
     wr M N (mm + n) (nn + m) v B }))"

definition swap :: "nat \<Rightarrow> nat \<Rightarrow> nat \<Rightarrow> nat \<Rightarrow> nat \<Rightarrow> nat \<Rightarrow> 'v matrix \<Rightarrow> 'v matrix option" where
  "swap M N i j k l B = do {
     t0 \<leftarrow> rd M N B i j;
     v \<leftarrow> rd M N B k l;
     B \<leftarrow> wr M N i j v B;
     wr M N k l t0 B }"

definition transpose_top :: "nat \<Rightarrow> nat \<Rightarrow> nat \<Rightarrow> nat \<Rightarrow> 'v matrix \<Rightarrow> 'v matrix option" where
  "transpose_top N M nn mm = loop [0..<4] (\<lambda>n. loop [n + 1..<4] (\<lambda>m B. do {
     B \<leftarrow> swap M N (mm + n) (nn + m) (mm + m) (nn + n) B;
     swap M N (mm + n) (nn + 4 + m) (mm + m) (nn + 4 + n) B }))"

definition exchange :: "nat \<Rightarrow> nat \<Rightarrow> 'v matrix \<Rightarrow> nat \<Rightarrow> nat \<Rightarrow> 'v matrix \<Rightarrow> 'v matrix option" where
  "exchange N M A nn mm = loop [0..<4] (\<lambda>m B. do {
     t0 \<leftarrow> rd N M A (nn + 4) (mm + m);
     t1 \<leftarrow> rd N M A (nn + 5) (mm + m);
     t2 \<leftarrow> rd N M A (nn + 6) (mm + m);
     t3 \<leftarrow> rd N M A (nn + 7) (mm + m);
     t4 \<leftarrow> rd M N B (mm + m) (nn + 4);
     t5 \<leftarrow> rd M N B (mm + m) (nn + 5);
     t6 \<leftarrow> rd M N B (mm + m) (nn + 6);
     t7 \<leftarrow> rd M N B (mm + m) (nn + 7);
     B \<leftarrow> wr M N (mm + m) (nn + 4) t0 B;
     B \<leftarrow> wr M N (mm + m) (nn + 5) t1 B;
     B \<leftarrow> wr M N (mm + m) (nn + 6) t2 B;
     B \<leftarrow> wr M N (mm + m) (nn + 7) t3 B;
     B \<leftarrow> wr M N (mm + 4 + m) (nn + 0) t4 B;
     B \<leftarrow> wr M N (mm + 4 + m) (nn + 1) t5 B;
     B \<leftarrow> wr M N (mm + 4 + m) (nn + 2) t6 B;
     wr M N (mm + 4 + m) (nn + 3) t7 B })"

definition copy_a4 :: "nat \<Rightarrow> nat \<Rightarrow> 'v matrix \<Rightarrow> nat \<Rightarrow> nat \<Rightarrow> 'v matrix \<Rightarrow> 'v matrix option" where
  "copy_a4 N M A nn mm = loop [4..<8] (\<lambda>n. loop [4..<8] (\<lambda>m B. do {
     v \<leftarrow> rd N M A (nn + n) (mm + m);
     wr M N (mm + m) (nn + n) v B }))"

definition block64 :: "nat \<Rightarrow> nat \<Rightarrow> 'v matrix \<Rightarrow> nat \<Rightarrow> nat \<Rightarrow> 'v matrix \<Rightarrow> 'v matrix option" where
  "block64 N M A nn mm B = do {
     B \<leftarrow> copy_top N M A nn mm B;
     B \<leftarrow> transpose_top N M nn mm B;
     B \<leftarrow> exchange N M A nn mm B;
     copy_a4 N M A nn mm B }"

text \<open>Diagonal blocks except the last one, through the block to the right of them.\<close>

definition diag64 :: "nat \<Rightarrow> nat \<Rightarrow> 'v matrix \<Rightarrow> nat \<Rightarrow> nat \<Rightarrow> 'v matrix \<Rightarrow> 'v matrix option" where
  "diag64 N M A nn mm B = do {
     B \<leftarrow> loop [0..<8] (\<lambda>n. loop [0..<8] (\<lambda>m B. do {
       v \<leftarrow> rd N M A (nn + n) (mm + m);
       wr M N (nn + n) (mm + m + 8) v B })) B;
     B \<leftarrow> loop (rev [0..<8]) (\<lambda>m. loop [4..<8] (\<lambda>n B. do {
       v \<leftarrow> rd M N B (nn + n) (mm + m + 8);
       wr M N (mm + m) (nn + n) v B })) B;
     loop [0..<8] (\<lambda>m. loop [0..<4] (\<lambda>n B. do {
       v \<leftarrow> rd M N B (nn + n) (mm + m + 8);
       wr M N (mm + m) (nn + n) v B })) B }"

text \<open>The last diagonal block, eight elements at a time.\<close>

definition last64 :: "nat \<Rightarrow> nat \<Rightarrow> 'v matrix \<Rightarrow> nat \<Rightarrow> nat \<Rightarrow> 'v matrix \<Rightarrow> 'v matrix option" where
  "last64 N M A nn mm = loop [0..<8] (\<lambda>n B. do {
     t0 \<leftarrow> rd N M A (nn + n) (mm + 0);
     t1 \<leftarrow> rd N M A (nn + n) (mm + 1);
     t2 \<leftarrow> rd N M A (nn + n) (mm + 2);
     t3 \<leftarrow> rd N M A (nn + n) (mm + 3);
     t4 \<leftarrow> rd N M A (nn + n) (mm + 4);
     t5 \<leftarrow> rd N M A (nn + n) (mm + 5);
     t6 \<leftarrow> rd N M A (nn + n) (mm + 6);
     t7 \<leftarrow> rd N M A (nn + n) (mm + 7);
     B \<leftarrow> wr M N (mm + 0) (nn + n) t0 B;
     B \<leftarrow> wr M N (mm + 1) (nn + n) t1 B;
     B \<leftarrow> wr M N (mm + 2) (nn + n) t2 B;
     B \<leftarrow> wr M N (mm + 3) (nn + n) t3 B;
     B \<leftarrow> wr M N (mm + 4) (nn + n) t4 B;
     B \<leftarrow> wr M N (mm + 5) (nn + n) t5 B;
     B \<leftarrow> wr M N (mm + 6) (nn + n) t6 B;
     wr M N (mm + 7) (nn + n) t7 B })"

definition step64 :: "nat \<Rightarrow> nat \<Rightarrow> 'v matrix \<Rightarrow> nat \<Rightarrow> nat \<Rightarrow> 'v matrix \<Rightarrow> 'v matrix option" where
  "step64 N M A nn mm =
     (if nn \<noteq> mm then block64 N M A nn mm
      else if nn + 8 < N then diag64 N M A nn mm
      else last64 N M A nn mm)"

definition trans64 :: "nat \<Rightarrow> nat \<Rightarrow> 'v matrix \<Rightarrow> 'v matrix \<Rightarrow> 'v matrix option" where
  "trans64 N M A = loop (steps 8 N) (\<lambda>nn. loop (steps 8 M) (\<lambda>mm. step64 N M A nn mm))"

text \<open>Any other \<open>N\<close>: blocks of 16, cut off at the edges.\<close>

definition trans_any :: "nat \<Rightarrow> nat \<Rightarrow> 'v matrix \<Rightarrow> 'v matrix \<Rightarrow> 'v matrix option" where
  "trans_any N M A = loop (steps 16 M) (\<lambda>mm. loop (steps 16 N) (\<lambda>nn.
     loop [0..<min 16 (N - nn)] (\<lambda>n. loop [0..<min 16 (M - mm)] (\<lambda>m B. do {
       v \<leftarrow> rd N M A (nn + n) (mm + m);
       wr M N (mm + m) (nn + n) v B }))))"

definition transpose_submit :: "nat \<Rightarrow> nat \<Rightarrow> 'v matrix \<Rightarrow> 'v matrix \<Rightarrow> 'v matrix option" where
  "transpose_submit M N A B =
     (if N = 32 then trans32 N M A B
      else if N = 64 then trans64 N M A B
      else trans_any N M A B)"

text \<open>\<open>is_transpose\<close>: the inner loop, and the outer one with its early return.\<close>

definition is_transpose :: "nat \<Rightarrow> nat \<Rightarrow> 'v matrix \<Rightarrow> 'v matrix \<Rightarrow> bool" where
  "is_transpose M N A B \<longleftrightarrow> list_all (\<lambda>i. list_all (\<lambda>j. A (i, j) = B (j, i)) [0..<M]) [0..<N]"

section \<open>Loops over disjoint cells\<close>

lemma loop_product:
  "loop xs (\<lambda>x. loop ys (\<lambda>y. f x y)) s = loop (List.product xs ys) (\<lambda>(x, y). f x y) s"
proof (induction xs arbitrary: s)
  case (Cons x xs)
  have "loop (map (Pair x) ys) (\<lambda>(x, y). f x y) s = loop ys (f x) s" for s
    by (induction ys arbitrary: s) (auto split: option.splits)
  with Cons show ?case by (simp add: loop_append split: option.splits)
qed simp

text \<open>Every round \<open>p\<close> changes only the cells \<open>W p\<close>, to values that depend on nothing another
  round changes.  Then the loop succeeds and every cell has the value of its round.\<close>

lemma loop_cells:
  fixes V :: "'x \<Rightarrow> 'v"
  assumes "distinct ps"
    and "\<And>p X. p \<in> set ps \<Longrightarrow> (\<And>x. (\<forall>q \<in> set ps. q \<noteq> p \<longrightarrow> x \<notin> W q) \<Longrightarrow> X x = B x) \<Longrightarrow>
      \<exists>X'. f p X = Some X' \<and> (\<forall>x \<in> W p. X' x = V x) \<and> (\<forall>x. x \<notin> W p \<longrightarrow> X' x = X x)"
    and "\<And>p q. p \<in> set ps \<Longrightarrow> q \<in> set ps \<Longrightarrow> p \<noteq> q \<Longrightarrow> W p \<inter> W q = {}"
  shows "\<exists>B'. loop ps f B = Some B' \<and> (\<forall>x \<in> \<Union> (W ` set ps). B' x = V x) \<and>
    (\<forall>x. x \<notin> \<Union> (W ` set ps) \<longrightarrow> B' x = B x)"
proof -
  let ?I = "\<lambda>k X. (\<forall>x \<in> \<Union> (W ` set (take k ps)). X x = V x) \<and> (\<forall>x. x \<notin> \<Union> (W ` set (take k ps)) \<longrightarrow> X x = B x)"
  have "\<exists>B'. loop ps f B = Some B' \<and> ?I (length ps) B'"
  proof (rule loop_rule [where I = ?I])
    fix k X assume k: "k < length ps" and I: "?I k X"
    let ?p = "ps ! k"
    have p: "?p \<in> set ps" "?p \<notin> set (take k ps)"
      using k assms(1) by (auto simp: in_set_conv_nth nth_eq_iff_index_eq)
    have tk: "set (take (Suc k) ps) = insert ?p (set (take k ps))" using k by (auto simp: take_Suc_conv_app_nth)
    have "X x = B x" if "\<forall>q \<in> set ps. q \<noteq> ?p \<longrightarrow> x \<notin> W q" for x
    proof -
      have "x \<notin> \<Union> (W ` set (take k ps))" using that p by (metis UN_E in_set_takeD)
      with I show ?thesis by blast
    qed
    from assms(2) [OF p(1) this] obtain X' where X': "f ?p X = Some X'" "\<forall>x \<in> W ?p. X' x = V x"
      "\<forall>x. x \<notin> W ?p \<longrightarrow> X' x = X x" by blast
    have "W ?p \<inter> W q = {}" if "q \<in> set (take k ps)" for q
      using assms(3) p that by (metis in_set_takeD)
    then have "?I (Suc k) X'"
      using X'(2,3) I unfolding tk by (auto; metis)
    with X'(1) show "\<exists>X'. f ?p X = Some X' \<and> ?I (Suc k) X'" by blast
  qed simp
  then show ?thesis by simp
qed

lemma loop_None: "x \<in> set xs \<Longrightarrow> (\<And>s. f x s = None) \<Longrightarrow> loop xs f s = None"
  by (induction xs arbitrary: s) (auto split: option.splits)

end
