(* ===== verification/TransposeCorrect.thy ===== *)
theory TransposeCorrect
  imports Transpose
begin

text \<open>
  Every branch of \<open>transpose_submit\<close> computes the transposition: the phases of an 8 by 8 block,
  the diagonal blocks with their detour through the block to the right, and the loops over all
  blocks in the order of the code.
\<close>

section \<open>One block\<close>

text \<open>What a block step achieves: the cells of the block at rows \<open>mm\<close>, columns \<open>nn\<close> hold the
  transposed elements, and only cells of \<open>S\<close> have changed.\<close>

definition block :: "nat \<Rightarrow> nat \<Rightarrow> nat \<Rightarrow> nat \<Rightarrow> (nat \<times> nat) set" where
  "block i j h w = {i..<i + h} \<times> {j..<j + w}"

lemma block_iff [simp]: "(x, y) \<in> block i j h w \<longleftrightarrow> i \<le> x \<and> x < i + h \<and> j \<le> y \<and> y < j + w"
  by (auto simp: block_def)

definition transposed :: "'v matrix \<Rightarrow> 'v matrix \<Rightarrow> (nat \<times> nat) set \<Rightarrow> bool" where
  "transposed A B S \<longleftrightarrow> (\<forall>(i, j) \<in> S. B (i, j) = A (j, i))"

text \<open>Plain copies: every round writes one cell, from a matrix that no round changes.\<close>

lemma loop_copy:
  assumes d: "distinct xs" "distinct ys" and inj: "inj_on (\<lambda>(x, y). W x y) (set xs \<times> set ys)"
    and f: "\<And>x y X. x \<in> set xs \<Longrightarrow> y \<in> set ys \<Longrightarrow> (\<And>c. c \<notin> (\<lambda>(x, y). W x y) ` (set xs \<times> set ys) \<Longrightarrow> X c = B c) \<Longrightarrow>
      f x y X = Some (X(W x y := V x y))"
  shows "\<exists>B'. loop xs (\<lambda>x. loop ys (f x)) B = Some B' \<and>
    (\<forall>x \<in> set xs. \<forall>y \<in> set ys. B' (W x y) = V x y) \<and>
    (\<forall>c. c \<notin> (\<lambda>(x, y). W x y) ` (set xs \<times> set ys) \<longrightarrow> B' c = B c)"
proof -
  let ?W = "\<lambda>p. {case p of (x, y) \<Rightarrow> W x y}"
  let ?V = "\<lambda>c. case inv_into (set xs \<times> set ys) (\<lambda>(x, y). W x y) c of (x, y) \<Rightarrow> V x y"
  have v: "?V (W x y) = V x y" if "x \<in> set xs" "y \<in> set ys" for x y
    using inv_into_f_f [OF inj, of "(x, y)"] that by simp
  have "\<exists>B'. loop (List.product xs ys) (\<lambda>(x, y). f x y) B = Some B' \<and>
      (\<forall>c \<in> \<Union> (?W ` set (List.product xs ys)). B' c = ?V c) \<and>
      (\<forall>c. c \<notin> \<Union> (?W ` set (List.product xs ys)) \<longrightarrow> B' c = B c)"
  proof (rule loop_cells)
    show "distinct (List.product xs ys)" using d by (rule distinct_product)
  next
    fix p X assume p: "p \<in> set (List.product xs ys)"
      and X: "\<And>c. \<forall>q \<in> set (List.product xs ys). q \<noteq> p \<longrightarrow> c \<notin> ?W q \<Longrightarrow> X c = B c"
    obtain x y where xy: "p = (x, y)" "x \<in> set xs" "y \<in> set ys" using p unfolding set_product by auto
    have "f x y X = Some (X(W x y := V x y))"
      by (rule f [OF xy(2,3)], rule X) (auto simp: image_iff)
    then show "\<exists>X'. (case p of (x, y) \<Rightarrow> f x y) X = Some X' \<and> (\<forall>c \<in> ?W p. X' c = ?V c) \<and> (\<forall>c. c \<notin> ?W p \<longrightarrow> X' c = X c)"
      using v xy by simp
  next
    fix p q assume "p \<in> set (List.product xs ys)" "q \<in> set (List.product xs ys)" "p \<noteq> q"
    then show "?W p \<inter> ?W q = {}" using inj by (auto simp: inj_on_def)
  qed
  then obtain B' where B': "loop (List.product xs ys) (\<lambda>(x, y). f x y) B = Some B'"
    "\<forall>c \<in> \<Union> (?W ` set (List.product xs ys)). B' c = ?V c"
    "\<forall>c. c \<notin> \<Union> (?W ` set (List.product xs ys)) \<longrightarrow> B' c = B c" by blast
  have eq: "\<Union> (?W ` set (List.product xs ys)) = (\<lambda>(x, y). W x y) ` (set xs \<times> set ys)" by auto
  have "B' (W x y) = V x y" if "x \<in> set xs" "y \<in> set ys" for x y
  proof -
    have "W x y \<in> (\<lambda>(x, y). W x y) ` (set xs \<times> set ys)" using that by force
    with B'(2) v [OF that] show ?thesis unfolding eq using that by simp
  qed
  with B'(1,3) show ?thesis unfolding loop_product eq by blast
qed

lemma wr_ok: "i < r \<Longrightarrow> j < c \<Longrightarrow> wr r c i j v X = Some (X((i, j) := v))"
  by (simp add: wr_def)

lemma rd_ok: "i < r \<Longrightarrow> j < c \<Longrightarrow> rd r c X i j = Some (X (i, j))"
  by (simp add: rd_def)

lemma copy_block:
  assumes "nn + h \<le> N" and "mm + w \<le> M"
  shows "\<exists>B'. loop [a..<h] (\<lambda>n. loop [b..<w] (\<lambda>m B. do {
     v \<leftarrow> rd N M A (nn + n) (mm + m);
     wr M N (mm + m) (nn + n) v B })) B = Some B' \<and>
    (\<forall>n m. a \<le> n \<longrightarrow> n < h \<longrightarrow> b \<le> m \<longrightarrow> m < w \<longrightarrow> B' (mm + m, nn + n) = A (nn + n, mm + m)) \<and>
    (\<forall>i j. \<not> (mm + b \<le> i \<and> i < mm + w \<and> nn + a \<le> j \<and> j < nn + h) \<longrightarrow> B' (i, j) = B (i, j))"
proof -
  let ?W = "\<lambda>n m. (mm + m, nn + n)" and ?V = "\<lambda>n m. A (nn + n, mm + m)"
  have "\<exists>B'. loop [a..<h] (\<lambda>n. loop [b..<w] (\<lambda>m B. do {
       v \<leftarrow> rd N M A (nn + n) (mm + m);
       wr M N (mm + m) (nn + n) v B })) B = Some B' \<and>
    (\<forall>n \<in> set [a..<h]. \<forall>m \<in> set [b..<w]. B' (?W n m) = ?V n m) \<and>
    (\<forall>c. c \<notin> (\<lambda>(n, m). ?W n m) ` (set [a..<h] \<times> set [b..<w]) \<longrightarrow> B' c = B c)"
    by (rule loop_copy) (use assms in \<open>auto simp: inj_on_def wr_ok rd_ok\<close>)
  then obtain B' where B': "loop [a..<h] (\<lambda>n. loop [b..<w] (\<lambda>m B. do {
       v \<leftarrow> rd N M A (nn + n) (mm + m);
       wr M N (mm + m) (nn + n) v B })) B = Some B'"
    "\<forall>n \<in> set [a..<h]. \<forall>m \<in> set [b..<w]. B' (?W n m) = ?V n m"
    "\<forall>c. c \<notin> (\<lambda>(n, m). ?W n m) ` (set [a..<h] \<times> set [b..<w]) \<longrightarrow> B' c = B c" by blast
  from B'(3) have "\<forall>i j. \<not> (mm + b \<le> i \<and> i < mm + w \<and> nn + a \<le> j \<and> j < nn + h) \<longrightarrow> B' (i, j) = B (i, j)"
    by (auto simp: image_iff)
  with B'(1,2) show ?thesis by auto
qed


section \<open>The phases of a 64-column block\<close>

lemma copy_top_ok:
  assumes "nn + 8 \<le> N" and "mm + 8 \<le> M"
  shows "\<exists>B'. copy_top N M A nn mm B = Some B' \<and>
    (\<forall>n m. n < 4 \<longrightarrow> m < 8 \<longrightarrow> B' (mm + n, nn + m) = A (nn + n, mm + m)) \<and>
    (\<forall>c. c \<notin> block mm nn 4 8 \<longrightarrow> B' c = B c)"
proof -
  have "\<exists>B'. copy_top N M A nn mm B = Some B' \<and>
    (\<forall>n \<in> set [0..<4]. \<forall>m \<in> set [0..<8]. B' (mm + n, nn + m) = A (nn + n, mm + m)) \<and>
    (\<forall>c. c \<notin> (\<lambda>(n, m). (mm + n, nn + m)) ` (set [0..<4] \<times> set [0..<8]) \<longrightarrow> B' c = B c)"
    unfolding copy_top_def by (rule loop_copy) (use assms in \<open>auto simp: inj_on_def wr_ok rd_ok\<close>)
  then obtain B' where B': "copy_top N M A nn mm B = Some B'"
    "\<forall>n \<in> set [0..<4]. \<forall>m \<in> set [0..<8]. B' (mm + n, nn + m) = A (nn + n, mm + m)"
    "\<forall>c. c \<notin> (\<lambda>(n, m). (mm + n, nn + m)) ` (set [0..<4] \<times> set [0..<8]) \<longrightarrow> B' c = B c" by blast
  from B'(3) have "\<forall>c. c \<notin> block mm nn 4 8 \<longrightarrow> B' c = B c" by (force simp: block_def)
  with B'(1,2) show ?thesis by auto
qed

lemma swap_ok:
  "i < M \<Longrightarrow> j < N \<Longrightarrow> k < M \<Longrightarrow> l < N \<Longrightarrow>
   swap M N i j k l B = Some (B((i, j) := B (k, l), (k, l) := B (i, j)))"
  by (simp add: swap_def rd_def wr_def)

lemma upt4: "[0..<4] = [0, 1, 2, 3 :: nat]" "[1..<4] = [1, 2, 3 :: nat]" "[2..<4] = [2, 3 :: nat]" "[3..<4] = [3 :: nat]"
  "[Suc 0..<4] = [1, 2, 3]" "[Suc (Suc 0)..<4] = [2, 3]" "[Suc 2..<4] = [3]" "[Suc 3..<4] = []"
  by (simp_all add: upt_rec)

lemma less4: "(i :: nat) < 4 \<Longrightarrow> i = 0 \<or> i = 1 \<or> i = 2 \<or> i = 3"
  by auto

text \<open>The in-place transposition of the two quadrants at the top.\<close>

definition sw :: "nat \<Rightarrow> nat \<Rightarrow> nat \<Rightarrow> nat \<Rightarrow> 'v matrix \<Rightarrow> 'v matrix" where
  "sw nn mm n m X = X((mm + n, nn + m) := X (mm + m, nn + n), (mm + m, nn + n) := X (mm + n, nn + m),
      (mm + n, nn + 4 + m) := X (mm + m, nn + 4 + n), (mm + m, nn + 4 + n) := X (mm + n, nn + 4 + m))"

lemma upd_outside: "c \<notin> S \<Longrightarrow> (i, j) \<in> S \<Longrightarrow> (X((i, j) := v)) c = X c"
  by auto

lemma sw_outside: "c \<notin> block mm nn 4 8 \<Longrightarrow> n < 4 \<Longrightarrow> m < 4 \<Longrightarrow> sw nn mm n m X c = X c"
  by (simp add: sw_def upd_outside [of c "block mm nn 4 8"] del: fun_upd_apply)

text \<open>The same exchange on one of the two quadrants, in coordinates of its own.\<close>

definition quad :: "nat \<Rightarrow> nat \<Rightarrow> nat \<Rightarrow> 'v matrix \<Rightarrow> 'v matrix" where
  "quad nn mm c X = (\<lambda>(i, j). if i < 4 \<and> j < 4 then X (mm + i, nn + (c + j)) else undefined)"

definition swq :: "nat \<Rightarrow> nat \<Rightarrow> 'v matrix \<Rightarrow> 'v matrix" where
  "swq n m X = (\<lambda>(i, j). if (i, j) = (n, m) \<or> (i, j) = (m, n) then X (j, i) else X (i, j))"

lemma sw_at0:
  assumes "n < 4" "m < 4" "i < 4" "j < 4"
  shows "sw nn mm n m X (mm + i, nn + j) =
        X (if (i, j) = (n, m) \<or> (i, j) = (m, n) then (mm + j, nn + i) else (mm + i, nn + j))"
proof -
  have "j \<noteq> 4 + m" "j \<noteq> 4 + n" using assms by auto
  then show ?thesis by (simp add: sw_def)
qed

lemma sw_at4:
  assumes "n < 4" "m < 4" "i < 4" "j < 4"
  shows "sw nn mm n m X (mm + i, nn + (4 + j)) =
        X (if (i, j) = (n, m) \<or> (i, j) = (m, n) then (mm + j, nn + (4 + i)) else (mm + i, nn + (4 + j)))"
proof -
  have "4 + j \<noteq> m" "4 + j \<noteq> n" using assms by auto
  then show ?thesis by (simp add: sw_def add.assoc)
qed
lemma sw_quad:
  assumes "c = 0 \<or> c = 4" "n < 4" "m < 4"
  shows "quad nn mm c (sw nn mm n m X) = swq n m (quad nn mm c X)"
proof
  fix p :: "nat \<times> nat"
  obtain i j where p: "p = (i, j)" by force
  show "quad nn mm c (sw nn mm n m X) p = swq n m (quad nn mm c X) p"
  proof (cases "i < 4 \<and> j < 4")
    case True
    with assms show ?thesis
      by (elim disjE) (simp_all add: p quad_def swq_def sw_at0 sw_at4)
  qed (use assms(2,3) in \<open>auto simp: p quad_def swq_def\<close>)
qed

lemma swq_all:
  assumes "i < 4" "j < 4"
  shows "swq 2 3 (swq 1 3 (swq 1 2 (swq 0 3 (swq 0 2 (swq 0 1 X))))) (i, j) = X (j, i)"
  using less4 [OF assms(1)] less4 [OF assms(2)] by (elim disjE) (simp_all add: swq_def)

lemma transpose_top_ok:
  fixes B :: "'v matrix"
  assumes "nn + 8 \<le> N" and "mm + 8 \<le> M"
  shows "\<exists>B'. transpose_top N M nn mm B = Some B' \<and>
    (\<forall>i j. i < 4 \<longrightarrow> j < 4 \<longrightarrow> B' (mm + i, nn + j) = B (mm + j, nn + i)) \<and>
    (\<forall>i j. i < 4 \<longrightarrow> j < 4 \<longrightarrow> B' (mm + i, nn + 4 + j) = B (mm + j, nn + 4 + i)) \<and>
    (\<forall>c. c \<notin> block mm nn 4 8 \<longrightarrow> B' c = B c)"
proof -
  let ?sw = "sw nn mm"
  let ?B = "?sw 2 3 (?sw 1 3 (?sw 1 2 (?sw 0 3 (?sw 0 2 (?sw 0 1 B)))))"
  have step: "Option.bind (swap M N (mm + n) (nn + m) (mm + m) (nn + n) X)
      (swap M N (mm + n) (nn + 4 + m) (mm + m) (nn + 4 + n)) = Some (?sw n m X)"
    if "n < m" "m < 4" for n m and X :: "'v matrix"
  proof -
    have "swap M N (mm + n) (nn + m) (mm + m) (nn + n) X =
        Some (X((mm + n, nn + m) := X (mm + m, nn + n), (mm + m, nn + n) := X (mm + n, nn + m)))"
      by (rule swap_ok) (use that assms in auto)
    moreover have "swap M N (mm + n) (nn + 4 + m) (mm + m) (nn + 4 + n) Y =
        Some (Y((mm + n, nn + 4 + m) := Y (mm + m, nn + 4 + n), (mm + m, nn + 4 + n) := Y (mm + n, nn + 4 + m)))" for Y :: "'v matrix"
      by (rule swap_ok) (use that assms in auto)
    ultimately show ?thesis using that by (simp add: sw_def)
  qed
  have "transpose_top N M nn mm B = Some ?B"
    unfolding transpose_top_def upt4 using step [of 0 1] step [of 0 2] step [of 0 3] step [of 1 2] step [of 1 3] step [of 2 3]
    by (simp add: upt4)
  moreover have "?B (mm + i, nn + (c + j)) = B (mm + j, nn + (c + i))" if "c = 0 \<or> c = 4" "i < 4" "j < 4" for c i j
  proof -
    have "quad nn mm c ?B (i, j) = quad nn mm c B (j, i)"
      by (simp add: sw_quad [OF that(1)] swq_all [OF that(2,3), simplified])
    then show ?thesis using that by (simp add: quad_def)
  qed
  from this [of 0] this [of 4] have "\<forall>i j. i < 4 \<longrightarrow> j < 4 \<longrightarrow> ?B (mm + i, nn + j) = B (mm + j, nn + i)"
    "\<forall>i j. i < 4 \<longrightarrow> j < 4 \<longrightarrow> ?B (mm + i, nn + 4 + j) = B (mm + j, nn + 4 + i)" by (simp_all add: add.assoc)
  moreover have "?B c = B c" if "c \<notin> block mm nn 4 8" for c
    using that by (simp add: sw_outside)
  ultimately show ?thesis by blast
qed


lemma exchange_ok:
  fixes B :: "'v matrix"
  assumes "nn + 8 \<le> N" and "mm + 8 \<le> M"
  shows "\<exists>B'. exchange N M A nn mm B = Some B' \<and>
    (\<forall>m k. m < 4 \<longrightarrow> k < 4 \<longrightarrow> B' (mm + m, nn + 4 + k) = A (nn + 4 + k, mm + m) \<and>
       B' (mm + 4 + m, nn + k) = B (mm + m, nn + 4 + k)) \<and>
    (\<forall>c. c \<notin> block mm (nn + 4) 4 4 \<and> c \<notin> block (mm + 4) nn 4 4 \<longrightarrow> B' c = B c)"
proof -
  let ?W = "\<lambda>m. block (mm + m) (nn + 4) 1 4 \<union> block (mm + 4 + m) nn 1 4"
  let ?V = "\<lambda>(i, j). if i < mm + 4 then A (j, i) else B (i - 4, j + 4)"
  have "\<exists>B'. exchange N M A nn mm B = Some B' \<and> (\<forall>c \<in> \<Union> (?W ` set [0..<4]). B' c = ?V c) \<and>
    (\<forall>c. c \<notin> \<Union> (?W ` set [0..<4]) \<longrightarrow> B' c = B c)"
    unfolding exchange_def
  proof (rule loop_cells)
    fix m X assume "m \<in> set [0..<4]"
      and "\<And>c. \<forall>q \<in> set [0..<4]. q \<noteq> m \<longrightarrow> c \<notin> ?W q \<Longrightarrow> X c = B c"
    then have m: "m < 4" and X: "X (mm + m, nn + 4 + k) = B (mm + m, nn + 4 + k)" for k by auto
    let ?X = "X((mm + m, nn + 4) := A (nn + 4, mm + m), (mm + m, nn + 5) := A (nn + 5, mm + m),
      (mm + m, nn + 6) := A (nn + 6, mm + m), (mm + m, nn + 7) := A (nn + 7, mm + m),
      (mm + 4 + m, nn) := B (mm + m, nn + 4), (mm + 4 + m, nn + 1) := B (mm + m, nn + 5),
      (mm + 4 + m, nn + 2) := B (mm + m, nn + 6), (mm + 4 + m, nn + 3) := B (mm + m, nn + 7))"
    have "?X c = ?V c" if "c \<in> ?W m" for c
    proof -
      obtain i j where c: "c = (i, j)" by force
      from that have "i = mm + m \<and> (j = nn + 4 \<or> j = nn + 5 \<or> j = nn + 6 \<or> j = nn + 7) \<or>
        i = mm + 4 + m \<and> (j = nn \<or> j = nn + 1 \<or> j = nn + 2 \<or> j = nn + 3)" by (auto simp: c)
      then show ?thesis using m by (elim disjE conjE) (simp_all add: c add.commute)
    qed
    moreover have "?X c = X c" if "c \<notin> ?W m" for c
    proof -
      have "c \<noteq> (mm + m, nn + 4 + k)" "c \<noteq> (mm + 4 + m, nn + k)" if "k < 4" for k
        using \<open>c \<notin> ?W m\<close> that by auto
      from this [of 0] this [of 1] this [of 2] this [of 3] show ?thesis by (simp add: add.commute)
    qed
    moreover have "X (mm + m, nn + 5) = B (mm + m, nn + 5)" "X (mm + m, nn + 6) = B (mm + m, nn + 6)"
      "X (mm + m, nn + 7) = B (mm + m, nn + 7)" "X (mm + m, nn + 4) = B (mm + m, nn + 4)"
      using X [of 0] X [of 1] X [of 2] X [of 3] by (simp_all add: add.commute)
    ultimately show "\<exists>X'. (do {
     t0 \<leftarrow> rd N M A (nn + 4) (mm + m);
     t1 \<leftarrow> rd N M A (nn + 5) (mm + m);
     t2 \<leftarrow> rd N M A (nn + 6) (mm + m);
     t3 \<leftarrow> rd N M A (nn + 7) (mm + m);
     t4 \<leftarrow> rd M N X (mm + m) (nn + 4);
     t5 \<leftarrow> rd M N X (mm + m) (nn + 5);
     t6 \<leftarrow> rd M N X (mm + m) (nn + 6);
     t7 \<leftarrow> rd M N X (mm + m) (nn + 7);
     B \<leftarrow> wr M N (mm + m) (nn + 4) t0 X;
     B \<leftarrow> wr M N (mm + m) (nn + 5) t1 B;
     B \<leftarrow> wr M N (mm + m) (nn + 6) t2 B;
     B \<leftarrow> wr M N (mm + m) (nn + 7) t3 B;
     B \<leftarrow> wr M N (mm + 4 + m) (nn + 0) t4 B;
     B \<leftarrow> wr M N (mm + 4 + m) (nn + 1) t5 B;
     B \<leftarrow> wr M N (mm + 4 + m) (nn + 2) t6 B;
     wr M N (mm + 4 + m) (nn + 3) t7 B }) = Some X' \<and> (\<forall>c \<in> ?W m. X' c = ?V c) \<and> (\<forall>c. c \<notin> ?W m \<longrightarrow> X' c = X c)"
      using m assms by (intro exI [of _ ?X]) (simp add: rd_ok wr_ok del: fun_upd_apply)
  qed auto
  then obtain B' where B': "exchange N M A nn mm B = Some B'" "\<forall>c \<in> \<Union> (?W ` set [0..<4]). B' c = ?V c"
    "\<forall>c. c \<notin> \<Union> (?W ` set [0..<4]) \<longrightarrow> B' c = B c" by blast
  have "B' (mm + m, nn + 4 + k) = A (nn + 4 + k, mm + m)" "B' (mm + 4 + m, nn + k) = B (mm + m, nn + 4 + k)"
    if "m < 4" "k < 4" for m k
  proof -
    have "(mm + m, nn + 4 + k) \<in> \<Union> (?W ` set [0..<4])" "(mm + 4 + m, nn + k) \<in> \<Union> (?W ` set [0..<4])"
      using that by force+
    from B'(2) [rule_format, OF this(1)] B'(2) [rule_format, OF this(2)] that
    show "B' (mm + m, nn + 4 + k) = A (nn + 4 + k, mm + m)" "B' (mm + 4 + m, nn + k) = B (mm + m, nn + 4 + k)"
      by (simp_all add: ac_simps)
  qed
  moreover have "B' c = B c" if "c \<notin> block mm (nn + 4) 4 4 \<and> c \<notin> block (mm + 4) nn 4 4" for c
    using B'(3) that by (cases c) auto
  ultimately show ?thesis using B'(1) by blast
qed


lemma upper_half: "(i :: nat) < 8 \<Longrightarrow> \<not> i < 4 \<Longrightarrow> \<exists>k. i = 4 + k \<and> k < 4"
  by presburger

text \<open>A block off the diagonal.\<close>

lemma block64_ok:
  assumes "nn + 8 \<le> N" and "mm + 8 \<le> M"
  shows "\<exists>B'. block64 N M A nn mm B = Some B' \<and> transposed A B' (block mm nn 8 8) \<and>
    (\<forall>c. c \<notin> block mm nn 8 8 \<longrightarrow> B' c = B c)"
proof -
  from copy_top_ok [OF assms, of A B] obtain B1 where B1: "copy_top N M A nn mm B = Some B1"
    "\<forall>n m. n < 4 \<longrightarrow> m < 8 \<longrightarrow> B1 (mm + n, nn + m) = A (nn + n, mm + m)"
    "\<forall>c. c \<notin> block mm nn 4 8 \<longrightarrow> B1 c = B c" by blast
  from transpose_top_ok [OF assms, of B1] obtain B2 where B2: "transpose_top N M nn mm B1 = Some B2"
    "\<forall>i j. i < 4 \<longrightarrow> j < 4 \<longrightarrow> B2 (mm + i, nn + j) = B1 (mm + j, nn + i)"
    "\<forall>i j. i < 4 \<longrightarrow> j < 4 \<longrightarrow> B2 (mm + i, nn + 4 + j) = B1 (mm + j, nn + 4 + i)"
    "\<forall>c. c \<notin> block mm nn 4 8 \<longrightarrow> B2 c = B1 c" by blast
  from exchange_ok [OF assms, of A B2] obtain B3 where B3: "exchange N M A nn mm B2 = Some B3"
    "\<forall>m k. m < 4 \<longrightarrow> k < 4 \<longrightarrow> B3 (mm + m, nn + 4 + k) = A (nn + 4 + k, mm + m) \<and>
       B3 (mm + 4 + m, nn + k) = B2 (mm + m, nn + 4 + k)"
    "\<forall>c. c \<notin> block mm (nn + 4) 4 4 \<and> c \<notin> block (mm + 4) nn 4 4 \<longrightarrow> B3 c = B2 c" by blast
  from copy_block [OF assms, of 4 4 A B3] obtain B4 where B4: "copy_a4 N M A nn mm B3 = Some B4"
    "\<And>n m. 4 \<le> n \<Longrightarrow> n < 8 \<Longrightarrow> 4 \<le> m \<Longrightarrow> m < 8 \<Longrightarrow> B4 (mm + m, nn + n) = A (nn + n, mm + m)"
    "\<And>i j. \<not> (mm + 4 \<le> i \<and> i < mm + 8 \<and> nn + 4 \<le> j \<and> j < nn + 8) \<Longrightarrow> B4 (i, j) = B3 (i, j)"
    unfolding copy_a4_def by blast
  have "B4 (mm + i, nn + j) = A (nn + j, mm + i)" if ij: "i < 8" "j < 8" for i j
  proof (cases "i < 4")
    case i: True
    show ?thesis
    proof (cases "j < 4")
      case True
      then show ?thesis using i B4(3) [of "mm + i" "nn + j"] B3(3) B2(2) B1(2) by simp
    next
      case False
      then obtain k where "j = 4 + k" "k < 4" using ij upper_half by blast
      then show ?thesis using i B4(3) [of "mm + i" "nn + j"] B3(2) by (simp add: add.assoc)
    qed
  next
    case False
    then obtain l where i: "i = 4 + l" "l < 4" using ij upper_half by blast
    show ?thesis
    proof (cases "j < 4")
      case True
      have "B4 (mm + i, nn + j) = B3 (mm + 4 + l, nn + j)" using True B4(3) [of "mm + i" "nn + j"] i by (simp add: add.assoc)
      also have "\<dots> = B2 (mm + l, nn + 4 + j)" using B3(2) True i by simp
      also have "\<dots> = A (nn + j, mm + (4 + l))" using B2(3) B1(2) True i by (simp add: add.assoc)
      finally show ?thesis by (simp add: i)
    next
      case False
      then show ?thesis using B4(2) [of j i] ij i by simp
    qed
  qed
  then have "transposed A B4 (block mm nn 8 8)"
    unfolding transposed_def block_def by (auto dest!: le_Suc_ex)
  moreover have "B4 c = B c" if "c \<notin> block mm nn 8 8" for c
    proof -
    obtain i j where c: "c = (i, j)" by force
    from that have n: "\<not> (mm \<le> i \<and> i < mm + 8 \<and> nn \<le> j \<and> j < nn + 8)" by (simp add: c)
    then have "B4 c = B3 c" unfolding c by (intro B4(3)) linarith
    also have "\<dots> = B2 c" by (intro B3(3) [rule_format]) (use n in \<open>auto simp: c\<close>)
    also have "\<dots> = B1 c" by (intro B2(4) [rule_format]) (use n in \<open>auto simp: c\<close>)
    also have "\<dots> = B c" by (intro B1(3) [rule_format]) (use n in \<open>auto simp: c\<close>)
    finally show ?thesis .
  qed
  ultimately show ?thesis
    using B1(1) B2(1) B3(1) B4(1) by (simp add: block64_def)
qed


section \<open>Diagonal blocks\<close>

text \<open>Copying out of cells of the same matrix that the loop does not write.\<close>

lemma copy_within:
  assumes "k + 16 \<le> N" and "k + 8 \<le> M" and d: "distinct ms" "set ms = {0..<8}" and ab: "b \<le> 8"
  shows "\<exists>B'. loop ms (\<lambda>m. loop [a..<b] (\<lambda>n B. do {
       v \<leftarrow> rd M N B (k + n) (k + m + 8);
       wr M N (k + m) (k + n) v B })) B = Some B' \<and>
    (\<forall>n m. a \<le> n \<longrightarrow> n < b \<longrightarrow> m < 8 \<longrightarrow> B' (k + m, k + n) = B (k + n, k + m + 8)) \<and>
    (\<forall>c. c \<notin> block k (k + a) 8 (b - a) \<longrightarrow> B' c = B c)"
proof -
  let ?W = "\<lambda>m n. (k + m, k + n)" and ?V = "\<lambda>m n. B (k + n, k + m + 8)"
  have "\<exists>B'. loop ms (\<lambda>m. loop [a..<b] (\<lambda>n B. do {
       v \<leftarrow> rd M N B (k + n) (k + m + 8);
       wr M N (k + m) (k + n) v B })) B = Some B' \<and>
    (\<forall>m \<in> set ms. \<forall>n \<in> set [a..<b]. B' (?W m n) = ?V m n) \<and>
    (\<forall>c. c \<notin> (\<lambda>(m, n). ?W m n) ` (set ms \<times> set [a..<b]) \<longrightarrow> B' c = B c)"
  proof (rule loop_copy)
    fix m n X assume m: "m \<in> set ms" "n \<in> set [a..<b]"
      and X: "\<And>c. c \<notin> (\<lambda>(m, n). ?W m n) ` (set ms \<times> set [a..<b]) \<Longrightarrow> X c = B c"
    have "X (k + n, k + m + 8) = B (k + n, k + m + 8)" by (rule X) (use ab in auto)
    then show "(do { v \<leftarrow> rd M N X (k + n) (k + m + 8); wr M N (k + m) (k + n) v X }) = Some (X(?W m n := ?V m n))"
      using m d ab assms(1,2) by (simp add: rd_ok wr_ok)
  qed (use d in \<open>auto simp: inj_on_def\<close>)
  then obtain B' where B': "loop ms (\<lambda>m. loop [a..<b] (\<lambda>n B. do {
       v \<leftarrow> rd M N B (k + n) (k + m + 8);
       wr M N (k + m) (k + n) v B })) B = Some B'"
    "\<forall>m \<in> set ms. \<forall>n \<in> set [a..<b]. B' (?W m n) = ?V m n"
    "\<forall>c. c \<notin> (\<lambda>(m, n). ?W m n) ` (set ms \<times> set [a..<b]) \<longrightarrow> B' c = B c" by blast
  have "B' c = B c" if "c \<notin> block k (k + a) 8 (b - a)" for c
    by (rule B'(3) [rule_format]) (use that d in \<open>auto simp: block_def\<close>)
  with B'(1,2) d show ?thesis by auto
qed

lemma diag64_ok:
  assumes "k + 16 \<le> N" and "k + 8 \<le> M"
  shows "\<exists>B'. diag64 N M A k k B = Some B' \<and> transposed A B' (block k k 8 8) \<and>
    (\<forall>c. c \<notin> block k k 8 16 \<longrightarrow> B' c = B c)"
proof -
  have "\<exists>B'. loop [0..<8] (\<lambda>n. loop [0..<8] (\<lambda>m B. do {
       v \<leftarrow> rd N M A (k + n) (k + m);
       wr M N (k + n) (k + m + 8) v B })) B = Some B' \<and>
    (\<forall>n \<in> set [0..<8]. \<forall>m \<in> set [0..<8]. B' (k + n, k + m + 8) = A (k + n, k + m)) \<and>
    (\<forall>c. c \<notin> (\<lambda>(n, m). (k + n, k + m + 8)) ` (set [0..<8] \<times> set [0..<8]) \<longrightarrow> B' c = B c)"
    by (rule loop_copy) (use assms in \<open>auto simp: inj_on_def wr_ok rd_ok\<close>)
  then obtain B1 where B1: "loop [0..<8] (\<lambda>n. loop [0..<8] (\<lambda>m B. do {
       v \<leftarrow> rd N M A (k + n) (k + m);
       wr M N (k + n) (k + m + 8) v B })) B = Some B1"
    "\<forall>n \<in> set [0..<8]. \<forall>m \<in> set [0..<8]. B1 (k + n, k + m + 8) = A (k + n, k + m)"
    "\<forall>c. c \<notin> (\<lambda>(n, m). (k + n, k + m + 8)) ` (set [0..<8] \<times> set [0..<8]) \<longrightarrow> B1 c = B c" by blast
  have r: "distinct (rev [0..<8])" "set (rev [0..<8]) = {0..<8}" "distinct [0..<8]" "set [0..<8] = {0..<8}" by simp_all
  from copy_within [OF assms r(1,2), of 8 4 B1] obtain B2 where B2: "loop (rev [0..<8]) (\<lambda>m. loop [4..<8] (\<lambda>n B. do {
       v \<leftarrow> rd M N B (k + n) (k + m + 8);
       wr M N (k + m) (k + n) v B })) B1 = Some B2"
    "\<And>n m. 4 \<le> n \<Longrightarrow> n < 8 \<Longrightarrow> m < 8 \<Longrightarrow> B2 (k + m, k + n) = B1 (k + n, k + m + 8)"
    "\<And>c. c \<notin> block k (k + 4) 8 4 \<Longrightarrow> B2 c = B1 c" by auto
  from copy_within [OF assms r(3,4), of 4 0 B2] obtain B3 where B3: "loop [0..<8] (\<lambda>m. loop [0..<4] (\<lambda>n B. do {
       v \<leftarrow> rd M N B (k + n) (k + m + 8);
       wr M N (k + m) (k + n) v B })) B2 = Some B3"
    "\<And>n m. n < 4 \<Longrightarrow> m < 8 \<Longrightarrow> B3 (k + m, k + n) = B2 (k + n, k + m + 8)"
    "\<And>c. c \<notin> block k k 8 4 \<Longrightarrow> B3 c = B2 c" by auto
  have "B3 (k + i, k + j) = A (k + j, k + i)" if ij: "i < 8" "j < 8" for i j
  proof (cases "j < 4")
    case True
    then have "B3 (k + i, k + j) = B2 (k + j, k + i + 8)" using B3(2) ij by simp
    also have "\<dots> = B1 (k + j, k + i + 8)" by (rule B2(3)) simp
    finally show ?thesis using B1(2) ij by simp
  next
    case False
    then have "B3 (k + i, k + j) = B2 (k + i, k + j)" by (intro B3(3)) simp
    also have "\<dots> = B1 (k + j, k + i + 8)" using B2(2) [of j i] False ij by simp
    finally show ?thesis using B1(2) ij by simp
  qed
  then have "transposed A B3 (block k k 8 8)"
    unfolding transposed_def block_def by (auto dest!: le_Suc_ex)
  moreover have "B3 c = B c" if "c \<notin> block k k 8 16" for c
  proof -
    obtain i j where c: "c = (i, j)" by force
    from that have n: "\<not> (k \<le> i \<and> i < k + 8 \<and> k \<le> j \<and> j < k + 16)" by (simp add: c)
    have "B3 c = B2 c" by (rule B3(3)) (use n in \<open>auto simp: c\<close>)
    also have "\<dots> = B1 c" by (rule B2(3)) (use n in \<open>auto simp: c\<close>)
    also have "\<dots> = B c" by (rule B1(3) [rule_format]) (use n in \<open>auto simp: c\<close>)
    finally show ?thesis .
  qed
  ultimately show ?thesis
    using B1(1) B2(1) B3(1) by (simp add: diag64_def)
qed

lemma last64_ok:
  assumes "nn + 8 \<le> N" and "mm + 8 \<le> M"
  shows "\<exists>B'. last64 N M A nn mm B = Some B' \<and> transposed A B' (block mm nn 8 8) \<and>
    (\<forall>c. c \<notin> block mm nn 8 8 \<longrightarrow> B' c = B c)"
proof -
  let ?W = "\<lambda>n. block mm (nn + n) 8 1" and ?V = "\<lambda>(i, j). A (j, i)"
  have "\<exists>B'. last64 N M A nn mm B = Some B' \<and> (\<forall>c \<in> \<Union> (?W ` set [0..<8]). B' c = ?V c) \<and>
    (\<forall>c. c \<notin> \<Union> (?W ` set [0..<8]) \<longrightarrow> B' c = B c)"
    unfolding last64_def
  proof (rule loop_cells)
    fix n X assume "n \<in> set [0..<8]"
    then have n: "n < 8" by simp
    let ?j = "nn + n"
    let ?X = "X((mm, ?j) := A (?j, mm), (mm + 1, ?j) := A (?j, mm + 1), (mm + 2, ?j) := A (?j, mm + 2),
      (mm + 3, ?j) := A (?j, mm + 3), (mm + 4, ?j) := A (?j, mm + 4), (mm + 5, ?j) := A (?j, mm + 5),
      (mm + 6, ?j) := A (?j, mm + 6), (mm + 7, ?j) := A (?j, mm + 7))"
    have "?X c = ?V c" if "c \<in> ?W n" for c
    proof -
      obtain i j where c: "c = (i, j)" by force
      from that have "j = ?j \<and> (i = mm \<or> i = mm + 1 \<or> i = mm + 2 \<or> i = mm + 3 \<or> i = mm + 4 \<or> i = mm + 5 \<or> i = mm + 6 \<or> i = mm + 7)"
        by (auto simp: c)
      then show ?thesis by (elim disjE conjE) (simp_all add: c)
    qed
    moreover have "?X c = X c" if "c \<notin> ?W n" for c
    proof -
      have "c \<noteq> (mm + l, ?j)" if "l < 8" for l using \<open>c \<notin> ?W n\<close> that by auto
      from this [of 0] this [of 1] this [of 2] this [of 3] this [of 4] this [of 5] this [of 6] this [of 7]
      show ?thesis by (simp add: add.commute)
    qed
    ultimately show "\<exists>X'. (do {
     t0 \<leftarrow> rd N M A ?j (mm + 0);
     t1 \<leftarrow> rd N M A ?j (mm + 1);
     t2 \<leftarrow> rd N M A ?j (mm + 2);
     t3 \<leftarrow> rd N M A ?j (mm + 3);
     t4 \<leftarrow> rd N M A ?j (mm + 4);
     t5 \<leftarrow> rd N M A ?j (mm + 5);
     t6 \<leftarrow> rd N M A ?j (mm + 6);
     t7 \<leftarrow> rd N M A ?j (mm + 7);
     B \<leftarrow> wr M N (mm + 0) ?j t0 X;
     B \<leftarrow> wr M N (mm + 1) ?j t1 B;
     B \<leftarrow> wr M N (mm + 2) ?j t2 B;
     B \<leftarrow> wr M N (mm + 3) ?j t3 B;
     B \<leftarrow> wr M N (mm + 4) ?j t4 B;
     B \<leftarrow> wr M N (mm + 5) ?j t5 B;
     B \<leftarrow> wr M N (mm + 6) ?j t6 B;
     wr M N (mm + 7) ?j t7 B }) = Some X' \<and> (\<forall>c \<in> ?W n. X' c = ?V c) \<and> (\<forall>c. c \<notin> ?W n \<longrightarrow> X' c = X c)"
      using n assms by (intro exI [of _ ?X]) (simp add: rd_ok wr_ok del: fun_upd_apply)
  qed auto
  then obtain B' where B': "last64 N M A nn mm B = Some B'" "\<forall>c \<in> \<Union> (?W ` set [0..<8]). B' c = ?V c"
    "\<forall>c. c \<notin> \<Union> (?W ` set [0..<8]) \<longrightarrow> B' c = B c" by blast
  have U: "\<Union> (?W ` set [0..<8]) = block mm nn 8 8"
    by (auto simp: block_def) (metis add_less_cancel_left atLeastLessThan_iff le0 le_Suc_ex less_Suc_eq_le order_refl)
  have "transposed A B' (block mm nn 8 8)" using B'(2) unfolding U transposed_def by auto
  with B'(1,3) show ?thesis unfolding U by blast
qed

section \<open>The loops over all blocks\<close>

lemma steps_set: "0 < k \<Longrightarrow> set (steps k n) = {x. k dvd x \<and> x < n}"
proof -
  assume k: "0 < k"
  have "i < (n + k - 1) div k \<longleftrightarrow> k * i < n" for i
  proof -
    have "i < (n + k - 1) div k \<longleftrightarrow> Suc i * k \<le> n + k - 1"
      unfolding Suc_le_eq [symmetric] by (rule less_eq_div_iff_mult_less_eq [OF k])
    also have "\<dots> \<longleftrightarrow> k + k * i \<le> n + k - 1" by (simp add: mult.commute)
    also have "\<dots> \<longleftrightarrow> k * i < n"
    proof -
      have "k + p \<le> n + k - 1 \<longleftrightarrow> p < n" for p using k by (cases k) (simp_all add: Suc_le_eq)
      then show ?thesis .
    qed
    finally show ?thesis .
  qed
  then have "{0..<(n + k - 1) div k} = {i. k * i < n}" by (intro set_eqI) (simp only: atLeastLessThan_iff mem_Collect_eq zero_le simp_thms)
  then have "set (steps k n) = (\<lambda>i. k * i) ` {i. k * i < n}" by (simp only: steps_def set_map set_upt)
  then show ?thesis by (simp add: image_Collect dvd_def) metis
qed

lemma steps_nth: "i < length (steps k n) \<Longrightarrow> steps k n ! i = k * i"
  by (simp add: steps_def)

lemma steps_length: "k dvd n \<Longrightarrow> 0 < k \<Longrightarrow> length (steps k n) = n div k"
proof (elim dvdE)
  fix i assume k: "0 < k" and n: "n = k * i"
  have "(n + k - 1) div k = (k - 1 + i * k) div k" using k n by (simp add: algebra_simps)
  also have "\<dots> = i + (k - 1) div k" using k by (intro div_mult_self1) simp
  finally show ?thesis using k n by (simp add: steps_def)
qed

lemma steps_distinct: "0 < k \<Longrightarrow> distinct (steps k n)"
  by (simp add: steps_def distinct_map inj_on_def)

text \<open>Blocks of 8 in the order of the code; a round may also change cells to the right of it.\<close>

lemma blocks_ok:
  fixes P :: "'s \<Rightarrow> 'v matrix"
  assumes dvd: "8 dvd N" "8 dvd M"
    and step: "\<And>nn mm s. 8 dvd nn \<Longrightarrow> 8 dvd mm \<Longrightarrow> nn + 8 \<le> N \<Longrightarrow> mm + 8 \<le> M \<Longrightarrow>
      \<exists>s'. f nn mm s = Some s' \<and> transposed A (P s') (block mm nn 8 8) \<and>
        (\<forall>i j. (i, j) \<notin> block mm nn 8 8 \<longrightarrow> j < nn + 8 \<or> M \<le> i \<or> N \<le> j \<longrightarrow> P s' (i, j) = P s (i, j))"
  shows "\<exists>s'. loop (steps 8 N) (\<lambda>nn. loop (steps 8 M) (f nn)) s = Some s' \<and>
    transposed A (P s') ({..<M} \<times> {..<N}) \<and> (\<forall>i j. \<not> (i < M \<and> j < N) \<longrightarrow> P s' (i, j) = P s (i, j))"
proof -
  let ?O = "\<lambda>s'. \<forall>i j. \<not> (i < M \<and> j < N) \<longrightarrow> P s' (i, j) = P s (i, j)"
  let ?I = "\<lambda>k s'. (\<forall>i j. i < M \<longrightarrow> j < 8 * k \<longrightarrow> P s' (i, j) = A (j, i)) \<and> ?O s'"
  have len: "length (steps 8 N) = N div 8" "length (steps 8 M) = M div 8" using dvd by (simp_all add: steps_length)
  have "\<exists>s'. loop (steps 8 N) (\<lambda>nn. loop (steps 8 M) (f nn)) s = Some s' \<and> ?I (length (steps 8 N)) s'"
  proof (rule loop_rule [where I = ?I])
    fix k s1 assume k: "k < length (steps 8 N)" and I: "?I k s1"
    have nn: "8 * k + 8 \<le> N" using k dvd len by auto
    let ?J = "\<lambda>l s'. (\<forall>i j. i < 8 * l \<longrightarrow> j < 8 * k + 8 \<longrightarrow> i < M \<longrightarrow> P s' (i, j) = A (j, i)) \<and>
      (\<forall>i j. i < M \<longrightarrow> j < 8 * k \<longrightarrow> P s' (i, j) = A (j, i)) \<and> ?O s'"
    have "\<exists>s'. loop (steps 8 M) (f (8 * k)) s1 = Some s' \<and> ?J (length (steps 8 M)) s'"
    proof (rule loop_rule [where I = ?J])
      fix l s2 assume l: "l < length (steps 8 M)" and J: "?J l s2"
      have mm: "8 * l + 8 \<le> M" using l dvd len by auto
      from step [of "8 * k" "8 * l", OF _ _ nn mm, of s2] obtain s3 where
        s3: "f (8 * k) (8 * l) s2 = Some s3" "transposed A (P s3) (block (8 * l) (8 * k) 8 8)"
        "\<And>i j. (i, j) \<notin> block (8 * l) (8 * k) 8 8 \<Longrightarrow> j < 8 * k + 8 \<or> M \<le> i \<or> N \<le> j \<Longrightarrow> P s3 (i, j) = P s2 (i, j)"
        by auto
      have t: "P s3 (i, j) = A (j, i)" if "(i, j) \<in> block (8 * l) (8 * k) 8 8" for i j
        using s3(2) that by (auto simp: transposed_def simp del: block_iff)
      have "P s3 (i, j) = A (j, i)" if "i < 8 * Suc l" "j < 8 * k + 8" "i < M" for i j
        using t [of i j] s3(3) [of i j] J that by (cases "(i, j) \<in> block (8 * l) (8 * k) 8 8") auto
      moreover have "P s3 (i, j) = A (j, i)" if "i < M" "j < 8 * k" for i j
        using s3(3) [of i j] J that by auto
      moreover have "P s3 (i, j) = P s (i, j)" if "\<not> (i < M \<and> j < N)" for i j
        using s3(3) [of i j] J that nn mm by auto
      ultimately show "\<exists>s'. f (8 * k) (steps 8 M ! l) s2 = Some s' \<and> ?J (Suc l) s'"
        using s3(1) l by (simp add: steps_nth)
    qed (use I in auto)
    then obtain s' where s': "loop (steps 8 M) (f (8 * k)) s1 = Some s'" "?J (length (steps 8 M)) s'" by blast
    have "8 * length (steps 8 M) = M" using dvd len by simp
    with s' k show "\<exists>s'. loop (steps 8 M) (f (steps 8 N ! k)) s1 = Some s' \<and> ?I (Suc k) s'"
      by (auto simp: steps_nth)
  qed simp
  moreover have "8 * length (steps 8 N) = N" using dvd len by simp
  ultimately show ?thesis by (auto simp: transposed_def)
qed

lemma step64_ok:
  assumes "8 dvd N" "8 dvd nn" "8 dvd mm" "nn + 8 \<le> N" "mm + 8 \<le> M"
  shows "\<exists>B'. step64 N M A nn mm B = Some B' \<and> transposed A B' (block mm nn 8 8) \<and>
    (\<forall>i j. (i, j) \<notin> block mm nn 8 8 \<longrightarrow> j < nn + 8 \<or> M \<le> i \<or> N \<le> j \<longrightarrow> B' (i, j) = B (i, j))"
proof (cases "nn = mm \<and> nn + 8 < N")
  case True
  obtain i j where "N = 8 * i" "nn = 8 * j" using assms(1,2) by (elim dvdE)
  moreover from this True have "j + 1 < i" by linarith
  ultimately have "nn + 16 \<le> N" by linarith
  from diag64_ok [OF this, of M A B] True assms obtain B' where B': "diag64 N M A nn nn B = Some B'"
    "transposed A B' (block nn nn 8 8)" "\<forall>c. c \<notin> block nn nn 8 16 \<longrightarrow> B' c = B c" by auto
  have "B' (i, j) = B (i, j)" if "(i, j) \<notin> block mm nn 8 8" "j < nn + 8 \<or> M \<le> i \<or> N \<le> j" for i j
    by (rule B'(3) [rule_format]) (use that True assms \<open>nn + 16 \<le> N\<close> in auto)
  then show ?thesis using B' True by (auto simp: step64_def)
next
  case False
  then show ?thesis
    using block64_ok [OF assms(4,5), of A B] last64_ok [OF assms(4,5), of A B] by (auto simp: step64_def)
qed

lemma row32_ok:
  assumes "8 dvd nn" "8 dvd mm" "nn + 8 \<le> N" "mm + 8 \<le> M" "n < 8"
  shows "\<exists>B' t'. row32 N M A nn mm n (B, t) = Some (B', t') \<and>
    (\<forall>m < 8. B' (mm + m, nn + n) = A (nn + n, mm + m)) \<and>
    (\<forall>c. c \<notin> block mm (nn + n) 8 1 \<longrightarrow> B' c = B c)"
proof -
  let ?f = "\<lambda>m (B, t).
       if nn + n \<noteq> mm + m then do {
         v \<leftarrow> rd N M A (nn + n) (mm + m);
         B \<leftarrow> wr M N (mm + m) (nn + n) v B;
         Some (B, t) }
       else do {
         v \<leftarrow> rd N M A (nn + n) (nn + n);
         Some (B, Some (nn + n, v)) }"
  let ?I = "\<lambda>k (B', t'). (\<forall>m < k. mm + m \<noteq> nn + n \<longrightarrow> B' (mm + m, nn + n) = A (nn + n, mm + m)) \<and>
    (\<forall>c. c \<notin> block mm (nn + n) 8 1 \<longrightarrow> B' c = B c) \<and> (nn = mm \<and> n < k \<longrightarrow> t' = Some (nn + n, A (nn + n, nn + n)))"
  have "\<exists>s'. loop [0..<8] ?f (B, t) = Some s' \<and> ?I 8 s'"
  proof (rule loop_upt_rule [where I = ?I])
    fix m s assume m: "0 \<le> m" "m < 8" and I: "?I m s"
    obtain B1 t1 where s: "s = (B1, t1)" by force
    show "\<exists>s'. ?f m s = Some s' \<and> ?I (Suc m) s'"
    proof (cases "nn + n = mm + m")
      case True
      have "?f m s = Some (B1, Some (nn + n, A (nn + n, nn + n)))"
        unfolding s using True rd_ok [of "nn + n" N "nn + n" M A] assms m by simp
      moreover have "\<forall>m' < Suc m. mm + m' \<noteq> nn + n \<longrightarrow> B1 (mm + m', nn + n) = A (nn + n, mm + m')"
        using I True by (simp add: s less_Suc_eq)
      ultimately show ?thesis using I by (simp add: s)
    next
      case False
      let ?B = "B1((mm + m, nn + n) := A (nn + n, mm + m))"
      have "?f m s = Some (?B, t1)" using False assms m by (simp add: s rd_ok wr_ok)
      moreover have "?B (mm + m', nn + n) = A (nn + n, mm + m')" if "m' < Suc m" "mm + m' \<noteq> nn + n" for m'
        using that I by (cases "m' = m") (simp_all add: s)
      moreover have "?B c = B c" if "c \<notin> block mm (nn + n) 8 1" for c
      proof -
        have "c \<noteq> (mm + m, nn + n)" using that m by auto
        then have "?B c = B1 c" by simp
        also have "\<dots> = B c" using I that unfolding s by blast
        finally show ?thesis .
      qed
      moreover have "nn = mm \<and> n < Suc m \<longrightarrow> t1 = Some (nn + n, A (nn + n, nn + n))"
        using False I by (auto simp: s less_Suc_eq)
      ultimately show ?thesis by (simp del: fun_upd_apply)
    qed
  qed auto
  then obtain B1 t1 where 1: "loop [0..<8] ?f (B, t) = Some (B1, t1)" "?I 8 (B1, t1)" by auto
  show ?thesis
  proof (cases "nn = mm")
    case True
    let ?B = "B1((nn + n, nn + n) := A (nn + n, nn + n))"
    have t1: "t1 = Some (nn + n, A (nn + n, nn + n))" using 1(2) True assms by simp
    have "row32 N M A nn mm n (B, t) = Some (?B, t1)"
      unfolding row32_def 1(1) using True assms by (simp add: t1 wr_ok)
    moreover have "?B (mm + m, nn + n) = A (nn + n, mm + m)" if "m < 8" for m
      using 1(2) that True by (cases "m = n") auto
    moreover have "?B c = B c" if "c \<notin> block mm (nn + n) 8 1" for c
    proof -
      have "c \<noteq> (nn + n, nn + n)" using that assms True by auto
      then have "?B c = B1 c" by simp
      also have "\<dots> = B c" using 1(2) that by blast
      finally show ?thesis .
    qed
    ultimately show ?thesis by blast
  next
    case False
    have "mm + m \<noteq> nn + n" if "m < 8" for m
    proof -
      obtain i j where ij: "nn = 8 * i" "mm = 8 * j" using assms(1,2) by (elim dvdE)
      with False have "i \<noteq> j" by simp
      with ij that assms(5) show ?thesis by linarith
    qed
    then have "\<forall>m < 8. B1 (mm + m, nn + n) = A (nn + n, mm + m)" using 1(2) by simp
    moreover have "row32 N M A nn mm n (B, t) = Some (B1, t1)"
      unfolding row32_def 1(1) using False by simp
    ultimately show ?thesis using 1(2) by blast
  qed
qed

lemma block32_ok:
  fixes s :: "'v matrix \<times> (nat \<times> 'v) option"
  assumes "8 dvd nn" "8 dvd mm" "nn + 8 \<le> N" "mm + 8 \<le> M"
  shows "\<exists>s'. loop [0..<8] (\<lambda>n. row32 N M A nn mm n) s = Some s' \<and>
    transposed A (fst s') (block mm nn 8 8) \<and>
    (\<forall>c. c \<notin> block mm nn 8 8 \<longrightarrow> fst s' c = fst s c)"
proof -
  let ?I = "\<lambda>k s'. (\<forall>n < k. \<forall>m < 8. fst s' (mm + m, nn + n) = A (nn + n, mm + m)) \<and>
    (\<forall>c. c \<notin> block mm nn 8 8 \<longrightarrow> fst s' c = fst s c)"
  have "\<exists>s'. loop [0..<8] (\<lambda>n. row32 N M A nn mm n) s = Some s' \<and> ?I 8 s'"
  proof (rule loop_upt_rule [where I = ?I])
    fix n and s1 :: "'v matrix \<times> (nat \<times> 'v) option" assume n: "n < 8" and I: "?I n s1"
    from row32_ok [OF assms n, of A "fst s1" "snd s1"] obtain B' t' where
      r: "row32 N M A nn mm n s1 = Some (B', t')" "\<forall>m < 8. B' (mm + m, nn + n) = A (nn + n, mm + m)"
      "\<forall>c. c \<notin> block mm (nn + n) 8 1 \<longrightarrow> B' c = fst s1 c" by auto
    have "B' (mm + m, nn + k) = A (nn + k, mm + m)" if "k < Suc n" "m < 8" for k m
    proof (cases "k = n")
      case False
      then have "B' (mm + m, nn + k) = fst s1 (mm + m, nn + k)" by (intro r(3) [rule_format]) simp
      with I that False show ?thesis by simp
    qed (use r(2) that in simp)
    moreover have "B' c = fst s c" if "c \<notin> block mm nn 8 8" for c
    proof -
      have "B' c = fst s1 c" by (rule r(3) [rule_format]) (use that n in \<open>auto simp: block_def\<close>)
      also have "\<dots> = fst s c" using I that by blast
      finally show ?thesis .
    qed
    ultimately show "\<exists>s'. row32 N M A nn mm n s1 = Some s' \<and> ?I (Suc n) s'"
      using r(1) by (intro exI [of _ "(B', t')"]) simp
  qed auto
  then obtain s' where s': "loop [0..<8] (\<lambda>n. row32 N M A nn mm n) s = Some s'" "?I 8 s'" by blast
  have "transposed A (fst s') (block mm nn 8 8)"
    unfolding transposed_def block_def using s'(2) by (auto dest!: le_Suc_ex)
  with s' show ?thesis by blast
qed

text \<open>The result every branch delivers.\<close>

definition correct :: "nat \<Rightarrow> nat \<Rightarrow> 'v matrix \<Rightarrow> 'v matrix \<Rightarrow> 'v matrix option \<Rightarrow> bool" where
  "correct M N A B r \<longleftrightarrow> (\<exists>B'. r = Some B' \<and> (\<forall>i j. B' (i, j) = (if i < M \<and> j < N then A (j, i) else B (i, j))))"

lemma correctI:
  "r = Some B' \<Longrightarrow> transposed A B' ({..<M} \<times> {..<N}) \<Longrightarrow>
   (\<And>i j. \<not> (i < M \<and> j < N) \<Longrightarrow> B' (i, j) = B (i, j)) \<Longrightarrow> correct M N A B r"
  by (auto simp: correct_def transposed_def)

lemma trans64_ok:
  assumes "8 dvd N" "8 dvd M"
  shows "correct M N A B (trans64 N M A B)"
proof -
  have "\<exists>B'. loop (steps 8 N) (\<lambda>nn. loop (steps 8 M) (step64 N M A nn)) B = Some B' \<and>
    transposed A B' ({..<M} \<times> {..<N}) \<and> (\<forall>i j. \<not> (i < M \<and> j < N) \<longrightarrow> B' (i, j) = B (i, j))"
    by (rule blocks_ok [OF assms, where P = "\<lambda>B. B"], rule step64_ok [OF assms(1)])
  then show ?thesis unfolding trans64_def by (blast intro: correctI)
qed

lemma trans32_ok:
  assumes "8 dvd N" "8 dvd M"
  shows "correct M N A B (trans32 N M A B)"
proof -
  have "\<exists>s'. loop (steps 8 N) (\<lambda>nn. loop (steps 8 M) (\<lambda>mm. loop [0..<8] (\<lambda>n. row32 N M A nn mm n))) (B, None) = Some s' \<and>
    transposed A (fst s') ({..<M} \<times> {..<N}) \<and>
    (\<forall>i j. \<not> (i < M \<and> j < N) \<longrightarrow> fst s' (i, j) = fst (B, None :: (nat \<times> 'a) option) (i, j))"
  proof (rule blocks_ok [OF assms])
    fix nn mm and s :: "'a matrix \<times> (nat \<times> 'a) option"
    assume "8 dvd nn" "8 dvd mm" "nn + 8 \<le> N" "mm + 8 \<le> M"
    from block32_ok [OF this, of A s] obtain s' where "loop [0..<8] (\<lambda>n. row32 N M A nn mm n) s = Some s'"
      "transposed A (fst s') (block mm nn 8 8)" "\<forall>c. c \<notin> block mm nn 8 8 \<longrightarrow> fst s' c = fst s c" by blast
    then show "\<exists>s'. loop [0..<8] (\<lambda>n. row32 N M A nn mm n) s = Some s' \<and> transposed A (fst s') (block mm nn 8 8) \<and>
        (\<forall>i j. (i, j) \<notin> block mm nn 8 8 \<longrightarrow> j < nn + 8 \<or> M \<le> i \<or> N \<le> j \<longrightarrow> fst s' (i, j) = fst s (i, j))"
      by (simp del: block_iff)
  qed
  then obtain s' where s': "loop (steps 8 N) (\<lambda>nn. loop (steps 8 M) (\<lambda>mm. loop [0..<8] (\<lambda>n. row32 N M A nn mm n))) (B, None) = Some s'"
    "transposed A (fst s') ({..<M} \<times> {..<N})" "\<forall>i j. \<not> (i < M \<and> j < N) \<longrightarrow> fst s' (i, j) = B (i, j)" by auto
  have "trans32 N M A B = Some (fst s')" by (simp add: trans32_def s'(1) split: prod.splits)
  then show ?thesis by (rule correctI) (use s'(2,3) in auto)
qed

lemma trans_any_ok: "correct M N A B (trans_any N M A B)"
proof -
  let ?b = "\<lambda>(mm, nn). loop [0..<min 16 (N - nn)] (\<lambda>n. loop [0..<min 16 (M - mm)] (\<lambda>m B. do {
       v \<leftarrow> rd N M A (nn + n) (mm + m);
       wr M N (mm + m) (nn + n) v B }))"
  let ?W = "\<lambda>(mm, nn). block mm nn (min 16 (M - mm)) (min 16 (N - nn))" and ?V = "\<lambda>(i, j). A (j, i)"
  let ?ps = "List.product (steps 16 M) (steps 16 N)"
  have m16: "x < a + min 16 k \<Longrightarrow> x < a + 16" for x a k :: nat by (simp add: less_le_trans)
  have same: "x = y" if "16 dvd x" "16 dvd y" "x \<le> i" "i < x + 16" "y \<le> i" "i < y + 16" for x y i :: nat
  proof -
    from that(1,2) obtain k l where kl: "x = 16 * k" "y = 16 * l" by (elim dvdE)
    from that(3-6) have "k < Suc l" "l < Suc k" unfolding kl by linarith+
    then show ?thesis unfolding kl by simp
  qed
  have "\<exists>B'. loop ?ps ?b B = Some B' \<and> (\<forall>c \<in> \<Union> (?W ` set ?ps). B' c = ?V c) \<and>
    (\<forall>c. c \<notin> \<Union> (?W ` set ?ps) \<longrightarrow> B' c = B c)"
  proof (rule loop_cells)
    show "distinct ?ps" by (intro distinct_product steps_distinct) simp_all
  next
    fix p X assume "p \<in> set ?ps"
    then obtain mm nn where p: "p = (mm, nn)" "mm < M" "nn < N" by (auto simp: steps_set)
    have "nn + min 16 (N - nn) \<le> N" "mm + min 16 (M - mm) \<le> M" using p by auto
    from copy_block [OF this, of 0 0 A X] obtain B' where B': "?b (mm, nn) X = Some B'"
      "\<And>n m. n < min 16 (N - nn) \<Longrightarrow> m < min 16 (M - mm) \<Longrightarrow> B' (mm + m, nn + n) = A (nn + n, mm + m)"
      "\<And>i j. \<not> (mm \<le> i \<and> i < mm + min 16 (M - mm) \<and> nn \<le> j \<and> j < nn + min 16 (N - nn)) \<Longrightarrow> B' (i, j) = X (i, j)"
      by auto
    have "B' c = ?V c" if "c \<in> ?W (mm, nn)" for c
    proof -
      obtain m n where "c = (mm + m, nn + n)" "m < min 16 (M - mm)" "n < min 16 (N - nn)"
        using \<open>c \<in> ?W (mm, nn)\<close> by (cases c) (auto simp del: min_less_iff_conj dest!: le_Suc_ex)
      with B'(2) show ?thesis by simp
    qed
    moreover have "B' c = X c" if "c \<notin> ?W (mm, nn)" for c
      using that B'(3) by (cases c) (simp del: min_less_iff_conj)
    ultimately show "\<exists>X'. ?b p X = Some X' \<and> (\<forall>c \<in> ?W p. X' c = ?V c) \<and> (\<forall>c. c \<notin> ?W p \<longrightarrow> X' c = X c)"
      using B'(1) unfolding p by blast
  next
    fix p q assume p: "p \<in> set ?ps" and q: "q \<in> set ?ps" and "p \<noteq> q"
    obtain a b c d where pq: "p = (a, b)" "q = (c, d)" by force
    have d: "16 dvd a" "16 dvd b" "16 dvd c" "16 dvd d" using p q by (simp_all add: pq steps_set)
    show "?W p \<inter> ?W q = {}"
    proof (rule ccontr)
      assume "?W p \<inter> ?W q \<noteq> {}"
      then obtain i j where "(i, j) \<in> ?W p" "(i, j) \<in> ?W q" by force
      then have "a \<le> i \<and> i < a + 16 \<and> c \<le> i \<and> i < c + 16" "b \<le> j \<and> j < b + 16 \<and> d \<le> j \<and> j < d + 16"
        unfolding pq prod.case block_iff using m16 by blast+
      then have "a = c" "b = d" using same d by blast+
      with \<open>p \<noteq> q\<close> pq show False by simp
    qed
  qed
  then obtain B' where B': "loop ?ps ?b B = Some B'" "\<forall>c \<in> \<Union> (?W ` set ?ps). B' c = ?V c"
    "\<forall>c. c \<notin> \<Union> (?W ` set ?ps) \<longrightarrow> B' c = B c" by blast
  have U: "(i, j) \<in> \<Union> (?W ` set ?ps) \<longleftrightarrow> i < M \<and> j < N" for i j
  proof
    assume "i < M \<and> j < N"
    moreover have "x < 16 * (x div 16) + 16" "16 * (x div 16) \<le> x" for x :: nat by presburger+
    ultimately have "(16 * (i div 16), 16 * (j div 16)) \<in> set ?ps" "(i, j) \<in> ?W (16 * (i div 16), 16 * (j div 16))"
      by (auto simp: steps_set intro: le_less_trans)
    then show "(i, j) \<in> \<Union> (?W ` set ?ps)" by blast
  qed (auto simp: steps_set)
  have "trans_any N M A B = Some B'" using B'(1) by (simp add: trans_any_def loop_product)
  moreover have "B' (i, j) = (if i < M \<and> j < N then A (j, i) else B (i, j))" for i j
    using B'(2) [rule_format, of "(i, j)"] B'(3) [rule_format, of "(i, j)"] unfolding U by simp
  ultimately show ?thesis unfolding correct_def by blast
qed


lemma transpose_submit_ok:
  assumes "N = 32 \<or> N = 64 \<longrightarrow> 8 dvd M"
  shows "correct M N A B (transpose_submit M N A B)"
  using assms trans32_ok [of 32 M] trans64_ok [of 64 M] trans_any_ok [of M N] by (auto simp: transpose_submit_def)

text \<open>C9: for an array of 32 or 64 rows whose width is a multiple of 8, and for every other shape,
  \<open>transpose_submit\<close> stays inside both arrays, writes the transposed elements and nothing else,
  and \<open>is_transpose\<close> accepts the result.\<close>

theorem transpose_submit_correct:
  assumes "N = 32 \<or> N = 64 \<longrightarrow> 8 dvd M"
  shows "\<exists>B'. transpose_submit M N A B = Some B' \<and> is_transpose M N A B' \<and>
    (\<forall>i j. B' (i, j) = (if i < M \<and> j < N then A (j, i) else B (i, j)))"
  using transpose_submit_ok [OF assms, of A B] by (auto simp: correct_def is_transpose_def list_all_iff)

theorem transpose_submit_correct_witness:
  "\<exists>B'. transpose_submit 64 64 (\<lambda>(i, j). 100 * i + j) (\<lambda>_. 0 :: nat) = Some B' \<and>
     is_transpose 64 64 (\<lambda>(i, j). 100 * i + j) B' \<and>
     (\<forall>i j. B' (i, j) = (if i < 64 \<and> j < 64 then (\<lambda>(i, j). 100 * i + j) (j, i) else 0))"
  by (rule transpose_submit_correct) simp

text \<open>With a width that is not a multiple of 8 the last blocks run past the end of the rows.\<close>

lemma steps_last:
  assumes "0 < k" "\<not> k dvd M"
  shows "k * (M div k) \<in> set (steps k M)" "k * (M div k) < M" "M < k * (M div k) + k"
proof -
  have "M = k * (M div k) + M mod k" "0 < M mod k" "M mod k < k" using assms by (auto simp: dvd_eq_mod_eq_0)
  then show "k * (M div k) < M" "M < k * (M div k) + k" by linarith+
  with assms(1) show "k * (M div k) \<in> set (steps k M)" by (simp add: steps_set)
qed

lemma trans_outside:
  assumes "\<not> 8 dvd M" and "0 < N" and f: "\<And>mm s. mm < M \<Longrightarrow> M < mm + 8 \<Longrightarrow> f 0 mm s = None"
  shows "loop (steps 8 N) (\<lambda>nn. loop (steps 8 M) (f nn)) s = None"
proof (rule loop_None)
  show "0 \<in> set (steps 8 N)" using assms(2) by (simp add: steps_set)
  show "loop (steps 8 M) (f 0) s = None" for s
    by (rule loop_None [OF steps_last(1)]) (use assms steps_last [of 8 M] in auto)
qed

lemma row32_outside: "mm < M \<Longrightarrow> M < mm + 8 \<Longrightarrow> row32 N M A 0 mm n s = None"
  unfolding row32_def by (subst loop_None [of "M - mm"]) (auto simp: rd_def)

lemma step64_outside:
  assumes "mm < M" "M < mm + 8"
  shows "step64 64 M A 0 mm s = None"
proof -
  have "copy_top 64 M A 0 mm s = None"
    unfolding copy_top_def by (rule loop_None [of 0], simp, rule loop_None [of "M - mm"]) (use assms in \<open>auto simp: rd_def\<close>)
  moreover have "diag64 64 M A 0 0 s = None" if "mm = 0"
    unfolding diag64_def using assms that
    by (subst loop_None [of 0]) (simp_all, rule loop_None [of M], auto simp: rd_def)
  ultimately show ?thesis by (auto simp: step64_def block64_def)
qed

text \<open>C10: with 32 or 64 rows and a width that is not a multiple of 8, \<open>transpose_submit\<close> accesses
  a matrix outside its bounds.\<close>

theorem transpose_submit_outside:
  assumes "N = 32 \<or> N = 64" and "\<not> 8 dvd M"
  shows "transpose_submit M N A B = None"
  using assms(1)
proof
  assume "N = 32"
  have "loop (steps 8 32) (\<lambda>nn. loop (steps 8 M) (\<lambda>mm. loop [0..<8] (\<lambda>n. row32 32 M A nn mm n))) (B, None) = None"
    by (rule trans_outside [OF assms(2)], simp, rule loop_None [of 0]) (use row32_outside in auto)
  with \<open>N = 32\<close> show ?thesis by (simp add: transpose_submit_def trans32_def)
next
  assume "N = 64"
  have "loop (steps 8 64) (\<lambda>nn. loop (steps 8 M) (step64 64 M A nn)) B = None"
    by (rule trans_outside [OF assms(2)]) (use step64_outside in auto)
  with \<open>N = 64\<close> show ?thesis by (simp add: transpose_submit_def trans64_def)
qed

theorem transpose_submit_outside_witness: "transpose_submit 61 64 (\<lambda>_. 1) (\<lambda>_. 0 :: int) = None"
  by (rule transpose_submit_outside) simp_all

end
