(* ===== verification/Memlist.thy ===== *)
theory Memlist
  imports Prelude
begin

text \<open>
  The list of traced blocks, \<open>linklab-handout/utils/memlist.c\<close>: a linked list behind a dummy
  element, ordered by block address.  The items after the dummy are a list here; a list pointer
  that may still be \<open>NULL\<close> is an option.  The contract of the list (a finite table from block
  addresses to sizes and reference counts) is the locale \<open>block_table\<close>.
\<close>

section \<open>The code\<close>

record item =
  ptr :: nat
  sz :: u64
  cnt :: int

definition new_list :: "item list option" where
  "new_list = Some []"

text \<open>The walk of \<open>alloc\<close> and what it does at the first item whose address is not smaller.\<close>

primrec alloc_at :: "nat \<Rightarrow> u64 \<Rightarrow> item list \<Rightarrow> item \<times> item list" where
  "alloc_at p n [] = (let i = \<lparr>ptr = p, sz = n, cnt = 1\<rparr> in (i, [i]))"
| "alloc_at p n (cur # rest) =
     (if ptr cur < p then let (i, rest) = alloc_at p n rest in (i, cur # rest)
      else if ptr cur = p then let i = cur\<lparr>sz := n, cnt := cnt cur + 1\<rparr> in (i, i # rest)
      else let i = \<lparr>ptr = p, sz = n, cnt = 1\<rparr> in (i, i # cur # rest))"

definition alloc :: "nat \<Rightarrow> u64 \<Rightarrow> item list option \<Rightarrow> item option \<times> item list option" where
  "alloc p n list = (case list of
       None \<Rightarrow> (None, None)
     | Some l \<Rightarrow> let (i, l) = alloc_at p n l in (Some i, Some l))"

primrec dealloc_at :: "nat \<Rightarrow> item list \<Rightarrow> item option \<times> item list" where
  "dealloc_at p [] = (None, [])"
| "dealloc_at p (cur # rest) =
     (if ptr cur \<noteq> p then let (i, rest) = dealloc_at p rest in (i, cur # rest)
      else let i = cur\<lparr>cnt := cnt cur - 1\<rparr> in (Some i, i # rest))"

definition dealloc :: "nat \<Rightarrow> item list option \<Rightarrow> item option \<times> item list option" where
  "dealloc p list = (case list of
       None \<Rightarrow> (None, None)
     | Some l \<Rightarrow> let (i, l) = dealloc_at p l in (i, Some l))"

primrec find_at :: "nat \<Rightarrow> item list \<Rightarrow> item option" where
  "find_at p [] = None"
| "find_at p (cur # rest) =
     (if p > ptr cur then find_at p rest else if ptr cur = p then Some cur else None)"

definition find_item :: "nat \<Rightarrow> item list option \<Rightarrow> item option" where
  "find_item p list = (case list of None \<Rightarrow> None | Some l \<Rightarrow> find_at p l)"

text \<open>The rows \<open>dump_list\<close> prints; its assertion fails on \<open>NULL\<close>.\<close>

definition dump_list :: "item list option \<Rightarrow> (nat \<times> u64 \<times> int) list option" where
  "dump_list list = map_option (map (\<lambda>i. (ptr i, sz i, cnt i))) list"

section \<open>The contract\<close>

type_synonym table = "nat \<Rightarrow> (u64 \<times> int) option"

definition live :: "table \<Rightarrow> nat set" where
  "live t = {p. \<exists>n c. t p = Some (n, c) \<and> 0 < c}"

definition live_bytes :: "table \<Rightarrow> u64" where
  "live_bytes t = (\<Sum>p \<in> live t. fst (the (t p)))"

definition held :: "table \<Rightarrow> nat \<Rightarrow> u64 option" where
  "held t p = (case t p of Some (n, c) \<Rightarrow> if 0 < c then Some n else None | None \<Rightarrow> None)"

lemma live_dom: "live t = dom (held t)"
  by (auto simp: live_def held_def split: option.splits if_splits)

lemma live_bytes_held: "live_bytes t = (\<Sum>p \<in> dom (held t). the (held t p))"
  unfolding live_bytes_def live_dom by (rule sum.cong) (auto simp: held_def split: option.splits if_splits)

definition counted :: "table \<Rightarrow> bool" where
  "counted t \<longleftrightarrow> (\<forall>p n c. t p = Some (n, c) \<longrightarrow> c = 0 \<or> c = 1)"

locale block_table =
  fixes inv :: "'l \<Rightarrow> bool" and tab :: "'l \<Rightarrow> table"
    and add :: "nat \<Rightarrow> u64 \<Rightarrow> 'l \<Rightarrow> 'l" and sub :: "nat \<Rightarrow> 'l \<Rightarrow> 'l"
    and look :: "nat \<Rightarrow> 'l \<Rightarrow> (u64 \<times> int) option"
  assumes inv_add: "inv l \<Longrightarrow> inv (add p n l)"
    and inv_sub: "inv l \<Longrightarrow> inv (sub p l)"
    and finite_tab: "inv l \<Longrightarrow> finite (dom (tab l))"
    and tab_add: "inv l \<Longrightarrow> tab (add p n l) =
      (tab l)(p \<mapsto> (n, case tab l p of None \<Rightarrow> 1 | Some (_, c) \<Rightarrow> c + 1))"
    and tab_sub: "inv l \<Longrightarrow> tab (sub p l) = (tab l)(p := map_option (\<lambda>(n, c). (n, c - 1)) (tab l p))"
    and tab_look: "inv l \<Longrightarrow> look p l = tab l p"
begin

lemma finite_live: "inv l \<Longrightarrow> finite (live (tab l))"
  by (rule finite_subset [OF _ finite_tab [of l]]) (auto simp: live_def)

lemma counted_add: "inv l \<Longrightarrow> counted (tab l) \<Longrightarrow> p \<notin> live (tab l) \<Longrightarrow> counted (tab (add p n l))"
  by (fastforce simp: counted_def live_def tab_add split: option.splits)

lemma counted_sub: "inv l \<Longrightarrow> counted (tab l) \<Longrightarrow> p \<in> live (tab l) \<Longrightarrow> counted (tab (sub p l))"
  by (fastforce simp: counted_def live_def tab_sub split: if_splits)

lemma live_add:
  "inv l \<Longrightarrow> counted (tab l) \<Longrightarrow> p \<notin> live (tab l) \<Longrightarrow> live (tab (add p n l)) = insert p (live (tab l))"
  by (fastforce simp: counted_def live_def tab_add split: option.splits if_splits)

lemma live_sub:
  "inv l \<Longrightarrow> counted (tab l) \<Longrightarrow> p \<in> live (tab l) \<Longrightarrow> live (tab (sub p l)) = live (tab l) - {p}"
  by (fastforce simp: counted_def live_def tab_sub split: if_splits)

lemma held_add:
  "inv l \<Longrightarrow> counted (tab l) \<Longrightarrow> p \<notin> live (tab l) \<Longrightarrow> held (tab (add p n l)) = (held (tab l))(p \<mapsto> n)"
  by (fastforce simp: counted_def live_def held_def tab_add fun_eq_iff split: option.splits)

lemma held_sub:
  "inv l \<Longrightarrow> counted (tab l) \<Longrightarrow> p \<in> live (tab l) \<Longrightarrow> held (tab (sub p l)) = (held (tab l))(p := None)"
  by (fastforce simp: counted_def live_def held_def tab_sub fun_eq_iff split: option.splits)

lemma live_bytes_add:
  assumes "inv l" "counted (tab l)" "p \<notin> live (tab l)"
  shows "live_bytes (tab (add p n l)) = live_bytes (tab l) + n"
proof -
  have "(\<Sum>q \<in> live (tab l). fst (the (tab (add p n l) q))) = live_bytes (tab l)"
    unfolding live_bytes_def by (rule sum.cong) (use assms in \<open>auto simp: tab_add\<close>)
  moreover have "fst (the (tab (add p n l) p)) = n" by (simp add: tab_add [OF assms(1)])
  ultimately show ?thesis
    unfolding live_bytes_def [of "tab (add p n l)"] live_add [OF assms]
    using finite_live [OF assms(1)] assms(3) by (simp add: add.commute)
qed

lemma live_bytes_sub:
  assumes "inv l" "counted (tab l)" "p \<in> live (tab l)" "tab l p = Some (n, c)"
  shows "live_bytes (tab (sub p l)) = live_bytes (tab l) - n"
proof -
  have "live_bytes (tab (sub p l)) = (\<Sum>q \<in> live (tab l) - {p}. fst (the (tab l q)))"
    unfolding live_bytes_def live_sub [OF assms(1-3)] by (rule sum.cong) (use assms in \<open>auto simp: tab_sub\<close>)
  moreover have "live_bytes (tab l) = fst (the (tab l p)) + (\<Sum>q \<in> live (tab l) - {p}. fst (the (tab l q)))"
    unfolding live_bytes_def using finite_live [OF assms(1)] assms(3) by (rule sum.remove)
  ultimately show ?thesis using assms(4) by simp
qed

end

section \<open>The list meets the contract\<close>

definition ordered :: "item list \<Rightarrow> bool" where
  "ordered l \<longleftrightarrow> sorted_wrt (<) (map ptr l)"

definition table_of :: "item list \<Rightarrow> table" where
  "table_of l = map_of (map (\<lambda>i. (ptr i, (sz i, cnt i))) l)"

lemma ordered_simps [simp]:
  "ordered []" "ordered (i # l) \<longleftrightarrow> (\<forall>j \<in> set l. ptr i < ptr j) \<and> ordered l"
  by (auto simp: ordered_def)

lemma table_of_simps [simp]:
  "table_of [] = Map.empty" "table_of (i # l) = (table_of l)(ptr i \<mapsto> (sz i, cnt i))"
  by (simp_all add: table_of_def)

lemma table_of_None: "\<forall>j \<in> set l. p < ptr j \<Longrightarrow> table_of l p = None"
  by (induction l) auto

lemma alloc_at_ptrs: "set (map ptr (snd (alloc_at p n l))) = insert p (set (map ptr l))"
  by (induction l) (auto simp: Let_def split: prod.splits)

lemma dealloc_at_ptrs: "map ptr (snd (dealloc_at p l)) = map ptr l"
  by (induction l) (auto simp: Let_def split: prod.splits)

lemma ordered_alloc: "ordered l \<Longrightarrow> ordered (snd (alloc_at p n l))"
proof (induction l)
  case (Cons i l)
  have "set (map ptr (snd (alloc_at p n l))) = insert p (set (map ptr l))" by (rule alloc_at_ptrs)
  then have "\<forall>j \<in> set (snd (alloc_at p n l)). ptr j = p \<or> (\<exists>k \<in> set l. ptr j = ptr k)" by (auto simp: image_iff set_eq_iff)
  with Cons show ?case by (fastforce simp: Let_def split: prod.splits)
qed (simp add: Let_def)

lemma ordered_dealloc: "ordered l \<Longrightarrow> ordered (snd (dealloc_at p l))"
  by (simp add: ordered_def dealloc_at_ptrs)

lemma table_alloc: "ordered l \<Longrightarrow> table_of (snd (alloc_at p n l)) =
    (table_of l)(p \<mapsto> (n, case table_of l p of None \<Rightarrow> 1 | Some (_, c) \<Rightarrow> c + 1))"
proof (induction l)
  case (Cons i l)
  show ?case
  proof (cases "ptr i < p")
    case True
    then show ?thesis using Cons by (auto simp: Let_def fun_upd_twist split: prod.splits)
  next
    case False
    then have "\<forall>j \<in> set l. p < ptr j" using Cons.prems by auto
    then show ?thesis using False by (auto simp: Let_def table_of_None split: prod.splits)
  qed
qed (simp add: Let_def)

lemma table_dealloc: "ordered l \<Longrightarrow> table_of (snd (dealloc_at p l)) =
    (table_of l)(p := map_option (\<lambda>(n, c). (n, c - 1)) (table_of l p))"
  by (induction l) (auto simp: Let_def fun_upd_twist split: prod.splits)

lemma table_find: "ordered l \<Longrightarrow> map_option (\<lambda>i. (sz i, cnt i)) (find_at p l) = table_of l p"
proof (induction l)
  case (Cons i l)
  have "table_of l p = None" if "p < ptr i"
    by (rule table_of_None) (use Cons.prems that in auto)
  with Cons show ?case by auto
qed simp

lemma find_at_ptr: "find_at p l = Some i \<Longrightarrow> ptr i = p"
  by (induction l) (auto split: if_splits)

lemma finite_table: "finite (dom (table_of l))"
  by (simp add: table_of_def finite_dom_map_of)

interpretation blocks: block_table ordered table_of "\<lambda>p n l. snd (alloc_at p n l)"
  "\<lambda>p l. snd (dealloc_at p l)" "\<lambda>p l. map_option (\<lambda>i. (sz i, cnt i)) (find_at p l)"
  by unfold_locales (simp_all add: ordered_alloc ordered_dealloc finite_table table_alloc table_dealloc table_find)

end
