(* ===== verification/MemTrace.thy ===== *)
theory MemTrace
  imports Memlist
begin

text \<open>
  The memory tracers \<open>linklab-handout/part1\<close>, \<open>part2\<close> and \<open>part3/memtrace.c\<close>: wrappers around
  the memory functions of libc, which are a parameter \<open>libc\<close> acting on a state of its own.
  The lookup of those functions by \<open>dlsym\<close> is taken to succeed.  Part 1 counts, part 2 also
  keeps the list of blocks, part 3 also refuses to free what is not allocated.  Everything is
  64 bits wide and wraps.
\<close>

section \<open>State\<close>

record 'h libc =
  mallocp :: "u64 \<Rightarrow> 'h \<Rightarrow> nat \<times> 'h"
  callocp :: "u64 \<Rightarrow> u64 \<Rightarrow> 'h \<Rightarrow> nat \<times> 'h"
  reallocp :: "nat \<Rightarrow> u64 \<Rightarrow> 'h \<Rightarrow> nat \<times> 'h"
  freep :: "nat \<Rightarrow> 'h \<Rightarrow> 'h"

datatype line =
    LOG_START | LOG_MALLOC u64 nat | LOG_CALLOC u64 u64 nat | LOG_REALLOC nat u64 nat | LOG_FREE nat
  | LOG_DOUBLE_FREE | LOG_ILL_FREE | LOG_BLANK
  | LOG_STATISTICS | LOG_ALLOC_TOTAL u64 | LOG_ALLOC_AVG u64 | LOG_FREE_TOTAL u64
  | LOG_NONFREED | LOG_COLUMNS | LOG_BLOCK nat u64 int | LOG_STOP

record 'h tracer =
  n_malloc :: u64
  n_calloc :: u64
  n_realloc :: u64
  n_allocb :: u64
  n_freeb :: u64
  items :: "item list option"
  log_id :: u32
  logged :: "(u32 \<times> line) list"
  heap :: 'h

definition mlog :: "line \<Rightarrow> 'h tracer \<Rightarrow> 'h tracer" where
  "mlog l t = t\<lparr>logged := logged t @ [(log_id t, l)], log_id := log_id t + 1\<rparr>"

definition init :: "'h \<Rightarrow> 'h tracer" where
  "init h = mlog LOG_START \<lparr>n_malloc = 0, n_calloc = 0, n_realloc = 0, n_allocb = 0, n_freeb = 0,
     items = new_list, log_id = 1, logged = [], heap = h\<rparr>"

text \<open>The statistics at exit; \<open>None\<close> is a division by zero.\<close>

definition statistics :: "'h tracer \<Rightarrow> 'h tracer option" where
  "statistics t =
     (let n = n_malloc t + n_calloc t + n_realloc t in
      if n = 0 then None
      else Some (mlog (LOG_FREE_TOTAL (n_freeb t)) (mlog (LOG_ALLOC_AVG (n_allocb t div n))
        (mlog (LOG_ALLOC_TOTAL (n_allocb t)) (mlog LOG_STATISTICS (mlog LOG_BLANK t))))))"

section \<open>Part 1\<close>

definition malloc1 :: "'h libc \<Rightarrow> u64 \<Rightarrow> 'h tracer \<Rightarrow> nat \<times> 'h tracer" where
  "malloc1 lib n t =
     (let (res, h) = mallocp lib n (heap t);
          t = t\<lparr>heap := h, n_malloc := n_malloc t + 1, n_allocb := n_allocb t + n\<rparr>
      in (res, mlog (LOG_MALLOC n res) t))"

definition calloc1 :: "'h libc \<Rightarrow> u64 \<Rightarrow> u64 \<Rightarrow> 'h tracer \<Rightarrow> nat \<times> 'h tracer" where
  "calloc1 lib nmemb n t =
     (let (res, h) = callocp lib nmemb n (heap t);
          t = t\<lparr>heap := h, n_calloc := n_calloc t + 1, n_allocb := n_allocb t + nmemb * n\<rparr>
      in (res, mlog (LOG_CALLOC nmemb n res) t))"

definition realloc1 :: "'h libc \<Rightarrow> nat \<Rightarrow> u64 \<Rightarrow> 'h tracer \<Rightarrow> nat \<times> 'h tracer" where
  "realloc1 lib p n t =
     (let (res, h) = reallocp lib p n (heap t);
          t = t\<lparr>heap := h, n_realloc := n_realloc t + 1, n_allocb := n_allocb t + n\<rparr>
      in (res, mlog (LOG_REALLOC p n res) t))"

definition free1 :: "'h libc \<Rightarrow> nat \<Rightarrow> 'h tracer \<Rightarrow> 'h tracer" where
  "free1 lib p t =
     (let t = mlog (LOG_FREE p) t in
      if p = NULL then t else t\<lparr>heap := freep lib p (heap t)\<rparr>)"

definition fini1 :: "'h tracer \<Rightarrow> 'h tracer option" where
  "fini1 t = map_option (\<lambda>t. mlog LOG_STOP (mlog LOG_BLANK t)) (statistics t)"

section \<open>Part 2\<close>

text \<open>\<open>if (res != NULL) alloc(list, res, size)\<close>\<close>

definition track :: "nat \<Rightarrow> u64 \<Rightarrow> 'h tracer \<Rightarrow> 'h tracer" where
  "track res n t = (if res \<noteq> NULL then t\<lparr>items := snd (alloc res n (items t))\<rparr> else t)"

definition malloc2 :: "'h libc \<Rightarrow> u64 \<Rightarrow> 'h tracer \<Rightarrow> nat \<times> 'h tracer" where
  "malloc2 lib n t =
     (let (res, h) = mallocp lib n (heap t);
          t = t\<lparr>heap := h, n_malloc := n_malloc t + 1, n_allocb := n_allocb t + n\<rparr>;
          t = track res n t
      in (res, mlog (LOG_MALLOC n res) t))"

definition calloc2 :: "'h libc \<Rightarrow> u64 \<Rightarrow> u64 \<Rightarrow> 'h tracer \<Rightarrow> nat \<times> 'h tracer" where
  "calloc2 lib nmemb n t =
     (let (res, h) = callocp lib nmemb n (heap t);
          t = t\<lparr>heap := h, n_calloc := n_calloc t + 1, n_allocb := n_allocb t + nmemb * n\<rparr>;
          t = track res (nmemb * n) t
      in (res, mlog (LOG_CALLOC nmemb n res) t))"

text \<open>The branches of \<open>realloc\<close> for a block that is in the list with a positive count.\<close>

definition realloc_block :: "'h libc \<Rightarrow> nat \<Rightarrow> u64 \<Rightarrow> item \<Rightarrow> 'h tracer \<Rightarrow> nat \<times> 'h tracer" where
  "realloc_block lib p n i t =
     (let (res, h) = reallocp lib p n (heap t);
          t = mlog (LOG_REALLOC p n res) (t\<lparr>heap := h\<rparr>) in
      if n = 0 then
        (res, t\<lparr>n_freeb := n_freeb t + sz i, items := snd (dealloc p (items t))\<rparr>)
      else if n \<le> sz i then (res, t)
      else
        let t = t\<lparr>n_freeb := n_freeb t + sz i, n_allocb := n_allocb t + n,
              n_realloc := n_realloc t + 1, items := snd (dealloc p (items t))\<rparr>
        in (res, track res n t))"

text \<open>The branch for \<open>ptr == NULL\<close>.\<close>

definition realloc_null :: "'h libc \<Rightarrow> u64 \<Rightarrow> 'h tracer \<Rightarrow> nat \<times> 'h tracer" where
  "realloc_null lib n t =
     (let (res, h) = reallocp lib NULL n (heap t);
          t = mlog (LOG_REALLOC NULL n res) (t\<lparr>heap := h\<rparr>);
          t = t\<lparr>n_allocb := n_allocb t + n\<rparr> in
      if n > 0 then (res, track res n (t\<lparr>n_realloc := n_realloc t + 1\<rparr>)) else (res, t))"

definition realloc2 :: "'h libc \<Rightarrow> nat \<Rightarrow> u64 \<Rightarrow> 'h tracer \<Rightarrow> nat \<times> 'h tracer" where
  "realloc2 lib p n t =
     (if p = NULL then realloc_null lib n t
      else case find_item p (items t) of
        Some i \<Rightarrow>
          if cnt i = 0 then
            let (res, h) = reallocp lib NULL n (heap t);
                t = mlog (LOG_REALLOC p n res) (t\<lparr>heap := h\<rparr>);
                t = t\<lparr>n_allocb := n_allocb t + n, n_realloc := n_realloc t + 1\<rparr>
            in (res, track res n t)
          else realloc_block lib p n i t
      | None \<Rightarrow>
          let (res, h) = reallocp lib NULL n (heap t);
              t = mlog (LOG_REALLOC p n res) (t\<lparr>heap := h\<rparr>);
              t = t\<lparr>n_allocb := n_allocb t + n, n_realloc := n_realloc t + 1\<rparr>
          in (res, track res n t))"

definition free2 :: "'h libc \<Rightarrow> nat \<Rightarrow> 'h tracer \<Rightarrow> 'h tracer" where
  "free2 lib p t =
     (let t = mlog (LOG_FREE p) t in
      if p = NULL then t
      else
        let t = (case find_item p (items t) of
                   Some i \<Rightarrow> if cnt i > 0 then t\<lparr>n_freeb := n_freeb t + sz i\<rparr> else t
                 | None \<Rightarrow> t);
            t = t\<lparr>items := snd (dealloc p (items t))\<rparr>
        in t\<lparr>heap := freep lib p (heap t)\<rparr>)"

text \<open>The walk over the list in \<open>fini\<close>.\<close>

fun report :: "item list \<Rightarrow> bool \<Rightarrow> 'h tracer \<Rightarrow> 'h tracer" where
  "report [] firstblock t = t"
| "report (cur # rest) firstblock t =
     (if cnt cur > 0 then
        let t = (if firstblock then mlog LOG_COLUMNS (mlog LOG_NONFREED (mlog LOG_BLANK t)) else t)
        in report rest False (mlog (LOG_BLOCK (ptr cur) (sz cur) (cnt cur)) t)
      else report rest firstblock t)"

text \<open>\<open>None\<close> also for a list that was never created.\<close>

definition fini2 :: "'h tracer \<Rightarrow> 'h tracer option" where
  "fini2 t = (case (statistics t, items t) of
       (Some t, Some l) \<Rightarrow> Some (mlog LOG_STOP (mlog LOG_BLANK (report l True t)))
     | _ \<Rightarrow> None)"

section \<open>Part 3\<close>

definition realloc3 :: "'h libc \<Rightarrow> nat \<Rightarrow> u64 \<Rightarrow> 'h tracer \<Rightarrow> nat \<times> 'h tracer" where
  "realloc3 lib p n t =
     (if p = NULL then realloc_null lib n t
      else case find_item p (items t) of
        Some i \<Rightarrow>
          if cnt i = 0 then
            let (res, h) = reallocp lib NULL n (heap t);
                t = mlog (LOG_REALLOC p n res) (t\<lparr>heap := h\<rparr>);
                t = mlog LOG_DOUBLE_FREE t;
                t = t\<lparr>n_allocb := n_allocb t + n, n_realloc := n_realloc t + 1\<rparr>
            in (res, track res n t)
          else realloc_block lib p n i t
      | None \<Rightarrow>
          let (res, h) = reallocp lib NULL n (heap t);
              t = mlog (LOG_REALLOC p n res) (t\<lparr>heap := h\<rparr>);
              t = mlog LOG_ILL_FREE t;
              t = t\<lparr>n_allocb := n_allocb t + n, n_realloc := n_realloc t + 1\<rparr>
          in (res, track res n t))"

text \<open>\<open>i->size\<close> is read after \<open>dealloc\<close>, which changes only the count of the item.\<close>

definition free3 :: "'h libc \<Rightarrow> nat \<Rightarrow> 'h tracer \<Rightarrow> 'h tracer" where
  "free3 lib p t =
     (let t = mlog (LOG_FREE p) t in
      if p = NULL then t
      else case find_item p (items t) of
        None \<Rightarrow> mlog LOG_ILL_FREE t
      | Some i \<Rightarrow>
          if cnt i = 0 then mlog LOG_DOUBLE_FREE t
          else
            let (i, l) = dealloc p (items t);
                t = t\<lparr>items := l\<rparr>;
                t = t\<lparr>n_freeb := n_freeb t + (case i of None \<Rightarrow> 0 | Some i \<Rightarrow> sz i)\<rparr>
            in t\<lparr>heap := freep lib p (heap t)\<rparr>)"

section \<open>Programs\<close>

datatype call = Malloc u64 | Calloc u64 u64 | Realloc nat u64 | Free nat

fun call1 :: "'h libc \<Rightarrow> call \<Rightarrow> 'h tracer \<Rightarrow> 'h tracer" where
  "call1 lib (Malloc n) t = snd (malloc1 lib n t)"
| "call1 lib (Calloc k n) t = snd (calloc1 lib k n t)"
| "call1 lib (Realloc p n) t = snd (realloc1 lib p n t)"
| "call1 lib (Free p) t = free1 lib p t"

fun call2 :: "'h libc \<Rightarrow> call \<Rightarrow> 'h tracer \<Rightarrow> 'h tracer" where
  "call2 lib (Malloc n) t = snd (malloc2 lib n t)"
| "call2 lib (Calloc k n) t = snd (calloc2 lib k n t)"
| "call2 lib (Realloc p n) t = snd (realloc2 lib p n t)"
| "call2 lib (Free p) t = free2 lib p t"

text \<open>\<open>malloc\<close>, \<open>calloc\<close> and \<open>fini\<close> of part 3 are those of part 2.\<close>

fun call3 :: "'h libc \<Rightarrow> call \<Rightarrow> 'h tracer \<Rightarrow> 'h tracer" where
  "call3 lib (Malloc n) t = snd (malloc2 lib n t)"
| "call3 lib (Calloc k n) t = snd (calloc2 lib k n t)"
| "call3 lib (Realloc p n) t = snd (realloc3 lib p n t)"
| "call3 lib (Free p) t = free3 lib p t"

end
