(* ===== verification/MemTraceCorrect.thy ===== *)
theory MemTraceCorrect
  imports MemTrace
begin

text \<open>
  The tracer of part 3 against libc: under the documented behaviour of the memory functions, and as long as no block
  is reallocated to a size that is not larger, the live entries of the list are blocks libc has
  allocated, with their sizes, and the byte counters differ by the sizes in the list and by what was refused.  The
  contract of the list enters through the interpretation \<open>blocks\<close>.
\<close>

section \<open>What the tracers assume of libc\<close>

text \<open>The documented behaviour of the memory functions.  \<open>alive\<close> reads the allocated blocks and their sizes off a
  state of libc.  Every request may be refused, which changes nothing; \<open>realloc\<close> to a size other than 0 may
  move the block, also when it gets smaller, and to size 0 it frees the block.\<close>

definition new_block :: "('h \<Rightarrow> nat \<Rightarrow> u64 option) \<Rightarrow> 'h \<Rightarrow> u64 \<Rightarrow> nat \<times> 'h \<Rightarrow> bool" where
  "new_block alive h n r \<longleftrightarrow>
     (if fst r = NULL then alive (snd r) = alive h
      else alive h (fst r) = None \<and> alive (snd r) = (alive h)(fst r \<mapsto> n))"

definition libc_ok :: "'h libc \<Rightarrow> ('h \<Rightarrow> nat \<Rightarrow> u64 option) \<Rightarrow> bool" where
  "libc_ok lib alive \<longleftrightarrow>
     (\<forall>h n. new_block alive h n (mallocp lib n h)) \<and>
     (\<forall>h k n. new_block alive h (k * n) (callocp lib k n h)) \<and>
     (\<forall>h n. new_block alive h n (reallocp lib NULL n h)) \<and>
     (\<forall>h q n. q \<noteq> NULL \<and> alive h q \<noteq> None \<longrightarrow>
        (if n = 0 then alive (snd (reallocp lib q n h)) = (alive h)(q := None)
         else if fst (reallocp lib q n h) = NULL then alive (snd (reallocp lib q n h)) = alive h
         else ((alive h)(q := None)) (fst (reallocp lib q n h)) = None \<and>
           alive (snd (reallocp lib q n h)) = (alive h)(q := None, fst (reallocp lib q n h) \<mapsto> n))) \<and>
     (\<forall>h p. p \<noteq> NULL \<and> alive h p \<noteq> None \<longrightarrow> alive (freep lib p h) = (alive h)(p := None))"

section \<open>What happens in a run\<close>

text \<open>The bytes a call requests and the pointer it returns.\<close>

fun requested :: "call \<Rightarrow> u64" where
  "requested (Malloc n) = n"
| "requested (Calloc k n) = k * n"
| "requested (Realloc p n) = n"
| "requested (Free p) = 0"

fun answer :: "'h libc \<Rightarrow> call \<Rightarrow> 'h tracer \<Rightarrow> nat" where
  "answer lib (Malloc n) t = fst (malloc2 lib n t)"
| "answer lib (Calloc k n) t = fst (calloc2 lib k n t)"
| "answer lib (Realloc p n) t = fst (realloc3 lib p n t)"
| "answer lib (Free p) t = NULL"

text \<open>The bytes of the requests that are refused in a run, and whether there are such requests.\<close>

fun refused :: "'h libc \<Rightarrow> call list \<Rightarrow> 'h tracer \<Rightarrow> u64" where
  "refused lib [] t = 0"
| "refused lib (c # cs) t = (if answer lib c t = NULL then requested c else 0) + refused lib cs (call3 lib c t)"

fun granted :: "'h libc \<Rightarrow> call list \<Rightarrow> 'h tracer \<Rightarrow> bool" where
  "granted lib [] t \<longleftrightarrow> True"
| "granted lib (c # cs) t \<longleftrightarrow> (requested c \<noteq> 0 \<longrightarrow> answer lib c t \<noteq> NULL) \<and> granted lib cs (call3 lib c t)"

text \<open>An allocated block is only ever reallocated to size 0 or to a larger size.\<close>

fun grow_only :: "'h libc \<Rightarrow> ('h \<Rightarrow> nat \<Rightarrow> u64 option) \<Rightarrow> call list \<Rightarrow> 'h tracer \<Rightarrow> bool" where
  "grow_only lib alive [] t \<longleftrightarrow> True"
| "grow_only lib alive (c # cs) t \<longleftrightarrow>
     (case c of Realloc p n \<Rightarrow> (case alive (heap t) p of None \<Rightarrow> True | Some m \<Rightarrow> n = 0 \<or> m < n) | _ \<Rightarrow> True) \<and>
     grow_only lib alive cs (call3 lib c t)"

section \<open>The tracer and libc agree\<close>

text \<open>The blocks in the list, with the sizes recorded there.\<close>

definition tracked :: "'h tracer \<Rightarrow> nat \<Rightarrow> u64 option" where
  "tracked t = (case items t of None \<Rightarrow> Map.empty | Some l \<Rightarrow> held (table_of l))"

text \<open>The blocks in the list are among the blocks \<open>m\<close>, with their sizes; a block that is not in the list has a size
  in \<open>Q\<close>.  The counters differ by the bytes in the list and \<open>r\<close> more.\<close>

definition agrees :: "(u64 \<Rightarrow> bool) \<Rightarrow> (nat \<Rightarrow> u64 option) \<Rightarrow> u64 \<Rightarrow> 'h tracer \<Rightarrow> bool" where
  "agrees Q m r t \<longleftrightarrow> (\<exists>l. items t = Some l \<and> ordered l \<and> counted (table_of l) \<and>
     held (table_of l) \<subseteq>\<^sub>m m \<and> (\<forall>p n. m p = Some n \<longrightarrow> held (table_of l) p = Some n \<or> Q n) \<and> m NULL = None \<and>
     finite (dom m) \<and> n_allocb t = n_freeb t + live_bytes (table_of l) + r)"

lemma mlog_simps [simp]:
  "items (mlog x t) = items t" "heap (mlog x t) = heap t" "n_allocb (mlog x t) = n_allocb t"
  "n_freeb (mlog x t) = n_freeb t" "n_malloc (mlog x t) = n_malloc t" "n_calloc (mlog x t) = n_calloc t"
  "n_realloc (mlog x t) = n_realloc t" "logged (mlog x t) = logged t @ [(log_id t, x)]"
  "log_id (mlog x t) = log_id t + 1"
  by (simp_all add: mlog_def)

lemma agrees_cong:
  "items t = items t' \<Longrightarrow> n_allocb t = n_allocb t' \<Longrightarrow> n_freeb t = n_freeb t' \<Longrightarrow> agrees Q m r t = agrees Q m r t'"
  by (simp add: agrees_def)

lemma agrees_simps [simp]:
  "agrees Q m r (mlog x t) = agrees Q m r t" "agrees Q m r (t\<lparr>heap := h\<rparr>) = agrees Q m r t"
  "agrees Q m r (t\<lparr>n_malloc := c\<rparr>) = agrees Q m r t" "agrees Q m r (t\<lparr>n_calloc := c\<rparr>) = agrees Q m r t"
  "agrees Q m r (t\<lparr>n_realloc := c\<rparr>) = agrees Q m r t"
  by (rule agrees_cong; simp)+

lemma track_heap [simp]: "heap (track p n t) = heap t"
  by (simp add: track_def)

lemma alloc_Some: "alloc p n (Some l) = (Some (fst (alloc_at p n l)), Some (snd (alloc_at p n l)))"
  by (simp add: alloc_def Let_def split: prod.splits)

lemma dealloc_Some: "dealloc p (Some l) = (fst (dealloc_at p l), Some (snd (dealloc_at p l)))"
  by (simp add: dealloc_def Let_def split: prod.splits)

lemma find_held: "ordered l \<Longrightarrow> counted (table_of l) \<Longrightarrow>
  held (table_of l) p = (case find_at p l of Some i \<Rightarrow> if cnt i = 0 then None else Some (sz i) | None \<Rightarrow> None)"
  using table_find [of l p, symmetric] by (cases "find_at p l") (auto simp: held_def counted_def dest!: spec)

lemma dealloc_at_sz: "find_at p l = Some i \<Longrightarrow> ordered l \<Longrightarrow>
   \<exists>j. fst (dealloc_at p l) = Some j \<and> sz j = sz i \<and> ptr j = p"
  by (induction l) (auto simp: Let_def split: prod.splits if_splits)

text \<open>Every wrapper does one of four things to the list, the counters and libc.\<close>

lemma agrees_counted:
  assumes "agrees Q m r t" and "items t' = items t" "n_allocb t' = n_allocb t + n" "n_freeb t' = n_freeb t"
  shows "agrees Q m (r + n) t'"
  using assms by (auto simp: agrees_def)

lemma agrees_track:
  assumes "agrees Q m r t" "p \<noteq> NULL" "m p = None"
    and "items t' = items t" "n_allocb t' = n_allocb t + n" "n_freeb t' = n_freeb t"
  shows "agrees Q (m(p \<mapsto> n)) r (track p n t')"
proof -
  from assms(1) obtain l where l: "items t = Some l" "ordered l" "counted (table_of l)"
    "held (table_of l) \<subseteq>\<^sub>m m" "\<forall>p n. m p = Some n \<longrightarrow> held (table_of l) p = Some n \<or> Q n" "m NULL = None" "finite (dom m)"
    "n_allocb t = n_freeb t + live_bytes (table_of l) + r"
    by (auto simp: agrees_def)
  have p: "p \<notin> live (table_of l)" using assms(3) l(4) by (auto simp: live_dom map_le_def dom_def)
  show ?thesis
    unfolding agrees_def using p l assms(2-)
    by (intro exI [of _ "snd (alloc_at p n l)"])
      (simp add: track_def alloc_Some ordered_alloc blocks.counted_add blocks.held_add blocks.live_bytes_add)
qed

lemma agrees_drop:
  assumes "agrees Q m r t" "find_item p (items t) = Some i" "cnt i \<noteq> 0"
    and "items t' = snd (dealloc p (items t))" "n_allocb t' = n_allocb t" "n_freeb t' = n_freeb t + sz i"
  shows "agrees Q (m(p := None)) r t'" and "Q (sz i) \<Longrightarrow> agrees Q m r t'" and "m p = Some (sz i)"
proof -
  from assms(1) obtain l where l: "items t = Some l" "ordered l" "counted (table_of l)"
    "held (table_of l) \<subseteq>\<^sub>m m" "\<forall>p n. m p = Some n \<longrightarrow> held (table_of l) p = Some n \<or> Q n" "m NULL = None" "finite (dom m)"
    "n_allocb t = n_freeb t + live_bytes (table_of l) + r"
    by (auto simp: agrees_def)
  have h: "held (table_of l) p = Some (sz i)"
    using find_held [OF l(2,3), of p] assms(2,3) l(1) by (simp add: find_item_def)
  then show m: "m p = Some (sz i)" using l(4) by (auto simp: map_le_def dom_def)
  have p: "p \<in> live (table_of l)" using h by (auto simp: live_dom)
  obtain c where c: "table_of l p = Some (sz i, c)" using h by (auto simp: held_def split: option.splits if_splits)
  have "(held (table_of l))(p := None) \<subseteq>\<^sub>m (m(p := None))" "(held (table_of l))(p := None) \<subseteq>\<^sub>m m"
    using l(4) by (auto simp: map_le_def)
  note le = this
  have n: "n_allocb t' = n_freeb t' + live_bytes (table_of (snd (dealloc_at p l))) + r"
    using assms(5,6) l(8) by (simp add: blocks.live_bytes_sub [OF l(2,3) p c])
  note s = dealloc_Some ordered_dealloc blocks.counted_sub [OF l(2,3) p] blocks.held_sub [OF l(2,3) p] l(1,2) assms(4)
  show "agrees Q (m(p := None)) r t'"
    unfolding agrees_def using le(1) l(5-7) n by (intro exI [of _ "snd (dealloc_at p l)"]) (auto simp: s)
  show "agrees Q m r t'" if "Q (sz i)"
    unfolding agrees_def using le(2) l(5-7) n that m by (intro exI [of _ "snd (dealloc_at p l)"]) (auto simp: s)
qed

lemma agrees_find:
  assumes "agrees Q m r t" and "find_item p (items t) = Some i" and "cnt i \<noteq> 0"
  shows "m p = Some (sz i)"
  using assms find_held by (fastforce simp: agrees_def find_item_def map_le_def dom_def)

section \<open>Every call keeps the agreement\<close>

abbreviation synced :: "(u64 \<Rightarrow> bool) \<Rightarrow> ('h \<Rightarrow> nat \<Rightarrow> u64 option) \<Rightarrow> u64 \<Rightarrow> 'h tracer \<Rightarrow> bool" where
  "synced Q alive r t \<equiv> agrees Q (alive (heap t)) r t"

text \<open>A request for \<open>n\<close> bytes, whatever is counted and logged around it.\<close>

lemma synced_new:
  assumes "synced Q alive r t" "new_block alive (heap t) n (p, h)"
    and "items t' = items t" "heap t' = h" "n_allocb t' = n_allocb t + n" "n_freeb t' = n_freeb t"
  shows "synced Q alive (r + (if p = NULL then n else 0)) (track p n t')"
proof (cases "p = NULL")
  case True
  then show ?thesis using agrees_counted [OF assms(1,3,5,6)] assms(2,4) by (simp add: new_block_def track_def)
next
  case False
  then show ?thesis using agrees_track [OF assms(1) False _ assms(3,5,6)] assms(2,4) by (simp add: new_block_def)
qed

lemma synced_malloc:
  assumes "libc_ok lib alive" "synced Q alive r t"
  shows "synced Q alive (r + (if fst (malloc2 lib n t) = NULL then n else 0)) (snd (malloc2 lib n t))"
proof -
  obtain p h where r: "mallocp lib n (heap t) = (p, h)" by force
  have "new_block alive (heap t) n (p, h)" using assms(1) r unfolding libc_ok_def by metis
  from synced_new [OF assms(2) this, of "t\<lparr>heap := h, n_malloc := n_malloc t + 1, n_allocb := n_allocb t + n\<rparr>"]
  show ?thesis by (simp add: malloc2_def r Let_def)
qed

lemma synced_calloc:
  assumes "libc_ok lib alive" "synced Q alive r t"
  shows "synced Q alive (r + (if fst (calloc2 lib k n t) = NULL then k * n else 0)) (snd (calloc2 lib k n t))"
proof -
  obtain p h where r: "callocp lib k n (heap t) = (p, h)" by force
  have "new_block alive (heap t) (k * n) (p, h)" using assms(1) r unfolding libc_ok_def by metis
  from synced_new [OF assms(2) this, of "t\<lparr>heap := h, n_calloc := n_calloc t + 1, n_allocb := n_allocb t + k * n\<rparr>"]
  show ?thesis by (simp add: calloc2_def r Let_def)
qed

lemma synced_fresh:
  assumes "libc_ok lib alive" "synced Q alive r t" "reallocp lib NULL n (heap t) = (p, h)"
    and "items t' = items t" "heap t' = h" "n_allocb t' = n_allocb t + n" "n_freeb t' = n_freeb t"
  shows "synced Q alive (r + (if p = NULL then n else 0)) (track p n t')"
proof -
  have "new_block alive (heap t) n (p, h)" using assms(1,3) unfolding libc_ok_def by metis
  from synced_new [OF assms(2) this assms(4-)] show ?thesis .
qed

text \<open>The block that \<open>realloc(NULL, 0)\<close> returns is not put into the list.\<close>

lemma synced_realloc_null:
  assumes "libc_ok lib alive" "synced Q alive r t" "n = 0 \<longrightarrow> Q 0"
  shows "synced Q alive (r + (if fst (realloc_null lib n t) = NULL then n else 0)) (snd (realloc_null lib n t))"
proof -
  obtain p h where r: "reallocp lib NULL n (heap t) = (p, h)" by force
  show ?thesis
  proof (cases "n = 0")
    case False
    let ?t = "(mlog (LOG_REALLOC NULL n p) (t\<lparr>heap := h\<rparr>))\<lparr>n_allocb := n_allocb t + n, n_realloc := n_realloc t + 1\<rparr>"
    have "realloc_null lib n t = (p, track p n ?t)"
      using False by (simp add: realloc_null_def r Let_def word_gt_0)
    moreover have "synced Q alive (r + (if p = NULL then n else 0)) (track p n ?t)"
      by (rule synced_fresh [OF assms(1,2) r]) simp_all
    ultimately show ?thesis by simp
  next
    case True
    have nb: "new_block alive (heap t) n (p, h)" using assms(1) r unfolding libc_ok_def by metis
    from assms(2) obtain l where l: "items t = Some l" "held (table_of l) \<subseteq>\<^sub>m alive (heap t)" by (auto simp: agrees_def)
    have "agrees Q (alive h) r t"
    proof (cases "p = NULL")
      case False
      with nb True have a: "alive (heap t) p = None" "alive h = (alive (heap t))(p \<mapsto> 0)" by (simp_all add: new_block_def)
      then have "x \<subseteq>\<^sub>m alive (heap t) \<Longrightarrow> x \<subseteq>\<^sub>m alive h" for x by (auto simp: map_le_def dom_def)
      then show ?thesis using assms(2,3) False True unfolding agrees_def a(2) [symmetric] by (auto simp: a(2))
    qed (use nb assms(2) in \<open>simp add: new_block_def\<close>)
    moreover have "snd (realloc_null lib n t) = (mlog (LOG_REALLOC NULL 0 p) (t\<lparr>heap := h\<rparr>))\<lparr>n_allocb := n_allocb t\<rparr>"
      using True by (simp add: realloc_null_def r [unfolded True] Let_def)
    ultimately show ?thesis using True agrees_cong [of "(mlog (LOG_REALLOC NULL 0 p) (t\<lparr>heap := h\<rparr>))\<lparr>n_allocb := n_allocb t\<rparr>" t]
      by simp
  qed
qed

lemma synced_realloc_block:
  assumes ok: "libc_ok lib alive" and agr: "synced Q alive r t" and q: "q \<noteq> NULL"
    and i: "find_item q (items t) = Some i" "cnt i \<noteq> 0" and grow: "n = 0 \<or> sz i < n"
    and Q: "n \<noteq> 0 \<and> fst (realloc_block lib q n i t) = NULL \<longrightarrow> Q (sz i)"
  shows "synced Q alive (r + (if fst (realloc_block lib q n i t) = NULL then n else 0)) (snd (realloc_block lib q n i t))"
proof -
  obtain p h where r: "reallocp lib q n (heap t) = (p, h)" by force
  note a = agrees_find [OF agr i]
  have R: "if n = 0 then alive h = (alive (heap t))(q := None)
         else if p = NULL then alive h = alive (heap t)
         else ((alive (heap t))(q := None)) p = None \<and> alive h = (alive (heap t))(q := None, p \<mapsto> n)"
  proof -
    have "alive (heap t) q \<noteq> None" using a by simp
    with ok q have "if n = 0 then alive (snd (reallocp lib q n (heap t))) = (alive (heap t))(q := None)
         else if fst (reallocp lib q n (heap t)) = NULL then alive (snd (reallocp lib q n (heap t))) = alive (heap t)
         else ((alive (heap t))(q := None)) (fst (reallocp lib q n (heap t))) = None \<and>
           alive (snd (reallocp lib q n (heap t))) = (alive (heap t))(q := None, fst (reallocp lib q n (heap t)) \<mapsto> n)"
      unfolding libc_ok_def by blast
    then show ?thesis by (simp only: r fst_conv snd_conv)
  qed
  let ?t = "mlog (LOG_REALLOC q n p) (t\<lparr>heap := h\<rparr>)"
  let ?u = "?t\<lparr>n_freeb := n_freeb t + sz i, items := snd (dealloc q (items t))\<rparr>"
  have u: "items ?u = snd (dealloc q (items t))" "n_allocb ?u = n_allocb t" "n_freeb ?u = n_freeb t + sz i" by simp_all
  note drop = agrees_drop [OF agr i u]
  show ?thesis
  proof (cases "n = 0")
    case True
    then have "realloc_block lib q n i t = (p, ?u)" unfolding realloc_block_def r Let_def by simp
    then show ?thesis using drop(1) R True by (cases "p = NULL") simp_all
  next
    case False
    then have n: "\<not> n \<le> sz i" using grow by auto
    let ?v = "?t\<lparr>n_freeb := n_freeb t + sz i, n_allocb := n_allocb t + n, n_realloc := n_realloc t + 1,
      items := snd (dealloc q (items t))\<rparr>"
    have b: "realloc_block lib q n i t = (p, track p n ?v)"
      unfolding realloc_block_def r Let_def using n False by simp
    show ?thesis
    proof (cases "p = NULL")
      case True
      have "agrees Q (alive (heap t)) r ?u" using drop(2) Q b False True by simp
      from agrees_counted [OF this, of ?v n] have "agrees Q (alive (heap t)) (r + n) ?v" by simp
      then show ?thesis using b R True False by (simp add: track_def)
    next
      case p: False
      from agrees_track [OF drop(1) p, of ?v n] R p False
      have "agrees Q ((alive (heap t))(q := None, p \<mapsto> n)) r (track p n ?v)" by simp
      then show ?thesis using b R p False by simp
    qed
  qed
qed

lemma synced_realloc:
  assumes ok: "libc_ok lib alive" and agr: "synced Q alive r t"
    and grow: "case alive (heap t) p of None \<Rightarrow> True | Some m \<Rightarrow> n = 0 \<or> m < n"
    and Q0: "p = NULL \<and> n = 0 \<longrightarrow> Q 0" and Q: "n \<noteq> 0 \<and> fst (realloc3 lib p n t) = NULL \<longrightarrow> (\<forall>k. Q k)"
  shows "synced Q alive (r + (if fst (realloc3 lib p n t) = NULL then n else 0)) (snd (realloc3 lib p n t))"
proof (cases "p = NULL")
  case True
  then show ?thesis using synced_realloc_null [OF ok agr] Q0 by (simp add: realloc3_def)
next
  case p: False
  obtain q h where r: "reallocp lib NULL n (heap t) = (q, h)" by force
  show ?thesis
  proof (cases "find_item p (items t)")
    case None
    then show ?thesis using p synced_fresh [OF ok agr r] by (simp add: realloc3_def r Let_def)
  next
    case (Some i)
    show ?thesis
    proof (cases "cnt i = 0")
      case True
      then show ?thesis using Some p synced_fresh [OF ok agr r] by (simp add: realloc3_def r Let_def)
    next
      case False
      have b: "realloc3 lib p n t = realloc_block lib p n i t" using Some False p by (simp add: realloc3_def)
      have "n = 0 \<or> sz i < n" using grow agrees_find [OF agr Some False] by simp
      from synced_realloc_block [OF ok agr p Some False this] Q show ?thesis unfolding b by blast
    qed
  qed
qed

lemma synced_free:
  assumes ok: "libc_ok lib alive" and agr: "synced Q alive r t"
  shows "synced Q alive r (free3 lib p t)"
proof (cases "p = NULL")
  case p: False
  show ?thesis
  proof (cases "find_item p (items t)")
    case (Some i)
    show ?thesis
    proof (cases "cnt i = 0")
      case False
      note a = agrees_find [OF agr Some False]
      obtain l where l: "items t = Some l" "ordered l" using agr by (auto simp: agrees_def)
      then obtain j where j: "fst (dealloc_at p l) = Some j" "sz j = sz i"
        using dealloc_at_sz [of p l i] Some by (auto simp: find_item_def)
      have "alive (freep lib p (heap t)) = (alive (heap t))(p := None)"
        using ok a p unfolding libc_ok_def by (metis option.distinct(1))
      moreover have "agrees Q ((alive (heap t))(p := None)) r (free3 lib p t)"
        by (rule agrees_drop(1) [OF agr Some False]) (use p Some False j l in \<open>simp_all add: free3_def Let_def dealloc_Some\<close>)
      moreover have "heap (free3 lib p t) = freep lib p (heap t)"
        using p Some False by (simp add: free3_def Let_def split: prod.splits)
      ultimately show ?thesis by simp
    qed (use p Some agr in \<open>simp add: free3_def\<close>)
  qed (use p agr in \<open>simp add: free3_def\<close>)
qed (use agr in \<open>simp add: free3_def\<close>)

lemma synced_call:
  assumes "libc_ok lib alive" "synced Q alive r t" "grow_only lib alive (c # cs) t"
    and "c = Realloc NULL 0 \<longrightarrow> Q 0" and "requested c \<noteq> 0 \<and> answer lib c t = NULL \<longrightarrow> (\<forall>k. Q k)"
  shows "synced Q alive (r + (if answer lib c t = NULL then requested c else 0)) (call3 lib c t)"
proof (cases c)
  case (Malloc n)
  show ?thesis unfolding Malloc call3.simps answer.simps requested.simps by (rule synced_malloc [OF assms(1,2)])
next
  case (Calloc k n)
  show ?thesis unfolding Calloc call3.simps answer.simps requested.simps by (rule synced_calloc [OF assms(1,2)])
next
  case (Realloc p n)
  show ?thesis unfolding Realloc call3.simps answer.simps requested.simps
    by (rule synced_realloc [OF assms(1,2)]) (use assms(3-5) Realloc in simp_all)
next
  case (Free p)
  then show ?thesis using synced_free [OF assms(1,2)] by simp
qed

lemma synced_run:
  assumes "libc_ok lib alive" "synced Q alive r t" "grow_only lib alive cs t"
    and "Realloc NULL 0 \<in> set cs \<longrightarrow> Q 0" and "granted lib cs t \<or> (\<forall>k. Q k)"
  shows "synced Q alive (r + refused lib cs t) (fold (call3 lib) cs t)"
  using assms(2-)
proof (induction cs arbitrary: t r)
  case (Cons c cs)
  have "synced Q alive (r + (if answer lib c t = NULL then requested c else 0)) (call3 lib c t)"
    by (rule synced_call [OF assms(1) Cons.prems(1,2)]) (use Cons.prems in auto)
  then have "synced Q alive (r + (if answer lib c t = NULL then requested c else 0) + refused lib cs (call3 lib c t))
      (fold (call3 lib) cs (call3 lib c t))"
    by (rule Cons.IH) (use Cons.prems in auto)
  then show ?case by (simp add: add.assoc)
qed simp

lemma synced_init: "alive h = Map.empty \<Longrightarrow> synced Q alive 0 (init h)"
proof -
  assume "alive h = Map.empty"
  moreover have "held Map.empty = Map.empty" by (simp add: held_def fun_eq_iff)
  moreover have "live_bytes Map.empty = 0" by (simp add: live_bytes_def live_def)
  ultimately show ?thesis by (simp add: agrees_def init_def mlog_def new_list_def counted_def)
qed

text \<open>What is true after a run from the start: in general, without refused requests, and without requests of the
  kind \<open>realloc(NULL, 0)\<close> on top of that.\<close>

lemma agrees_tracked:
  assumes "agrees Q m r t"
  shows "n_allocb t - n_freeb t = (\<Sum>p \<in> dom (tracked t). the (tracked t p)) + r"
    and "tracked t \<subseteq>\<^sub>m m" and "finite (dom m)"
    and "m p = Some n \<Longrightarrow> tracked t p = Some n \<or> Q n"
proof -
  show "m p = Some n \<Longrightarrow> tracked t p = Some n \<or> Q n" using assms unfolding agrees_def tracked_def by (metis option.simps(5))
qed (use assms blocks.finite_live in \<open>auto simp: agrees_def tracked_def live_bytes_held live_dom\<close>)

lemma run_tracked:
  assumes "libc_ok lib alive" and "alive h = Map.empty" and "grow_only lib alive cs (init h)"
    and "fold (call3 lib) cs (init h) = t"
  shows "n_allocb t - n_freeb t = (\<Sum>p \<in> dom (tracked t). the (tracked t p)) + refused lib cs (init h)"
    and "tracked t \<subseteq>\<^sub>m alive (heap t)"
    and "finite (dom (alive (heap t)))"
    and "granted lib cs (init h) \<Longrightarrow> alive (heap t) p = Some n \<Longrightarrow> tracked t p = Some n \<or> n = 0"
    and "granted lib cs (init h) \<Longrightarrow> Realloc NULL 0 \<notin> set cs \<Longrightarrow> tracked t = alive (heap t)"
proof -
  have run: "synced Q alive (refused lib cs (init h)) t"
    if "Realloc NULL 0 \<in> set cs \<longrightarrow> Q 0" "granted lib cs (init h) \<or> (\<forall>k. Q k)" for Q
    using synced_run [OF assms(1) synced_init [of alive h, OF assms(2)] assms(3) that] assms(4) by simp
  show "n_allocb t - n_freeb t = (\<Sum>p \<in> dom (tracked t). the (tracked t p)) + refused lib cs (init h)"
    and le: "tracked t \<subseteq>\<^sub>m alive (heap t)" and "finite (dom (alive (heap t)))"
    using agrees_tracked(1-3) [OF run [of "\<lambda>_. True"]] by simp_all
  show "granted lib cs (init h) \<Longrightarrow> alive (heap t) p = Some n \<Longrightarrow> tracked t p = Some n \<or> n = 0"
    using agrees_tracked(4) [OF run [of "\<lambda>n. n = 0"]] by simp
  assume "granted lib cs (init h)" "Realloc NULL 0 \<notin> set cs"
  then have "alive (heap t) p = Some n \<Longrightarrow> tracked t p = Some n" for p n
    using agrees_tracked(4) [OF run [of "\<lambda>_. False"]] by simp
  then have "alive (heap t) \<subseteq>\<^sub>m tracked t" by (auto simp: map_le_def)
  with le show "tracked t = alive (heap t)" by (rule map_le_antisym)
qed

lemma run_list:
  assumes "libc_ok lib alive" and "alive h = Map.empty" and "grow_only lib alive cs (init h)"
    and "fold (call3 lib) cs (init h) = t"
  shows "\<exists>l. items t = Some l \<and> ordered l \<and> counted (table_of l) \<and> held (table_of l) = tracked t"
  using synced_run [OF assms(1) synced_init [of alive h, OF assms(2)] assms(3), of "\<lambda>_. True"] assms(4)
  by (auto simp: agrees_def tracked_def)

text \<open>With nothing missing, every allocated block is found in the list.\<close>

lemma agrees_listed:
  assumes "agrees (\<lambda>_. False) m r t" and "m p = Some n"
  shows "\<exists>i. find_item p (items t) = Some i \<and> 0 < cnt i"
proof -
  from assms obtain l where l: "items t = Some l" "ordered l" "counted (table_of l)" "held (table_of l) p = Some n"
    by (auto simp: agrees_def)
  then obtain c where "table_of l p = Some (n, c)" "0 < c" by (auto simp: held_def split: option.splits if_splits)
  with l(1) table_find [OF l(2), of p] show ?thesis by (auto simp: find_item_def)
qed

lemma refused_granted: "granted lib cs t \<Longrightarrow> refused lib cs t = 0"
  by (induction cs arbitrary: t) auto

section \<open>The report at exit\<close>

definition reported :: "'h tracer \<Rightarrow> (nat \<times> u64 \<times> int) set" where
  "reported t = {(p, n, c). LOG_BLOCK p n c \<in> snd ` set (logged t)}"

lemma reported_mlog: "(\<And>p n c. x \<noteq> LOG_BLOCK p n c) \<Longrightarrow> reported (mlog x t) = reported t"
  by (auto simp: reported_def)

lemma reported_block: "reported (mlog (LOG_BLOCK p n c) t) = insert (p, n, c) (reported t)"
  by (auto simp: reported_def)

lemma reported_report: "reported (report l b t) = reported t \<union> {(ptr i, sz i, cnt i) |i. i \<in> set l \<and> 0 < cnt i}"
proof (induction l b t rule: report.induct)
  case (2 cur rest b t)
  then show ?case by (cases "0 < cnt cur"; cases b) (auto simp: reported_mlog reported_block Let_def)
qed simp

lemma reported_held:
  assumes "ordered l" "counted (table_of l)"
  shows "{(ptr i, sz i, cnt i) |i. i \<in> set l \<and> 0 < cnt i} = {(p, n, 1) |p n. held (table_of l) p = Some n}"
proof -
  have 1: "table_of l (ptr i) = Some (sz i, cnt i)" if "i \<in> set l" for i
    using assms(1) that by (induction l) auto
  have 2: "\<exists>i \<in> set l. ptr i = p \<and> sz i = n \<and> cnt i = c" if "table_of l p = Some (n, c)" for p n c
    using that by (induction l) (auto split: if_splits)
  show ?thesis
  proof (intro set_eqI iffI)
    fix x assume "x \<in> {(ptr i, sz i, cnt i) |i. i \<in> set l \<and> 0 < cnt i}"
    then obtain i where i: "x = (ptr i, sz i, cnt i)" "i \<in> set l" "0 < cnt i" by blast
    moreover have "cnt i = 0 \<or> cnt i = 1" using assms(2) 1 [OF i(2)] unfolding counted_def by blast
    ultimately show "x \<in> {(p, n, 1) |p n. held (table_of l) p = Some n}"
      using 1 [OF i(2)] by (simp add: held_def)
  next
    fix x assume "x \<in> {(p, n, 1 :: int) |p n. held (table_of l) p = Some n}"
    then obtain p n where x: "x = (p, n, 1)" "held (table_of l) p = Some n" by blast
    then obtain c where c: "table_of l p = Some (n, c)" "0 < c" by (auto simp: held_def split: option.splits if_splits)
    then have "c = 1" using assms(2) unfolding counted_def by (metis less_irrefl)
    with 2 [OF c(1)] x(1) show "x \<in> {(ptr i, sz i, cnt i) |i. i \<in> set l \<and> 0 < cnt i}" by force
  qed
qed

lemma reported_track [simp]: "reported (track p n t) = reported t"
  by (simp add: track_def reported_def)

lemma reported_update [simp]:
  "reported (t\<lparr>heap := h\<rparr>) = reported t" "reported (t\<lparr>items := l\<rparr>) = reported t"
  "reported (t\<lparr>n_malloc := a\<rparr>) = reported t" "reported (t\<lparr>n_calloc := a\<rparr>) = reported t"
  "reported (t\<lparr>n_realloc := a\<rparr>) = reported t" "reported (t\<lparr>n_allocb := a\<rparr>) = reported t"
  "reported (t\<lparr>n_freeb := a\<rparr>) = reported t"
  by (simp_all add: reported_def)

lemma reported_call: "reported (call3 lib c t) = reported t"
  by (cases c) (simp_all add: malloc2_def calloc2_def realloc3_def realloc_null_def realloc_block_def free3_def
      reported_mlog Let_def split: prod.splits option.splits)

lemma reported_run: "reported (fold (call3 lib) cs t) = reported t"
  by (induction cs arbitrary: t) (simp_all add: reported_call)

lemma statistics_keeps: "statistics t = Some t' \<Longrightarrow> items t' = items t \<and> reported t' = reported t"
  by (auto simp: statistics_def Let_def reported_mlog split: if_splits)

end
