(* ===== verification/MemTraceProps.thy ===== *)
theory MemTraceProps
  imports MemTraceCorrect "HOL-Library.AList"
begin

text \<open>
  What the memory tracers guarantee and where they fail, with a small libc to run them on.
\<close>

section \<open>A heap to run the tracers on\<close>

text \<open>A libc that refuses requests of more than 1000 bytes, shrinks blocks where they are and moves them to grow.\<close>

type_synonym bump = "(nat \<times> u64) list"

definition bump_new :: "u64 \<Rightarrow> bump \<Rightarrow> nat \<times> bump" where
  "bump_new n h = (if n > 1000 then (NULL, h) else let p = Suc (foldr max (map fst h) 0) in (p, (p, n) # h))"

definition bump :: "bump libc" where
  "bump = \<lparr>mallocp = bump_new, callocp = \<lambda>k n. bump_new (k * n),
     reallocp = \<lambda>q n h. if q = NULL then bump_new n h
       else if n = 0 then (NULL, AList.delete q h)
       else if n > 1000 then (NULL, h)
       else (case map_of h q of Some m \<Rightarrow> if n \<le> m then (q, (q, n) # AList.delete q h) else bump_new n (AList.delete q h)
             | None \<Rightarrow> bump_new n h),
     freep = AList.delete\<rparr>"

lemma max_fresh: "foldr max (map fst h) 0 < p \<Longrightarrow> map_of h p = None" for p :: nat
  by (induction h) auto

lemma bump_new_ok: "new_block map_of h n (bump_new n h)"
  by (simp add: new_block_def bump_new_def Let_def max_fresh)

lemma bump_new_moves:
  "fst (bump_new n h) = NULL \<longleftrightarrow> n > 1000" "map_of h (fst (bump_new n h)) = None \<or> n > 1000"
  "map_of (snd (bump_new n h)) = (if n > 1000 then map_of h else (map_of h)(fst (bump_new n h) \<mapsto> n))"
  by (simp_all add: bump_new_def Let_def max_fresh)

lemma bump_realloc_ok:
  assumes "q \<noteq> NULL" and "map_of h q \<noteq> None"
  shows "if n = 0 then map_of (snd (reallocp bump q n h)) = (map_of h)(q := None)
    else if fst (reallocp bump q n h) = NULL then map_of (snd (reallocp bump q n h)) = map_of h
    else ((map_of h)(q := None)) (fst (reallocp bump q n h)) = None \<and>
      map_of (snd (reallocp bump q n h)) = (map_of h)(q := None, fst (reallocp bump q n h) \<mapsto> n)"
proof -
  from assms(2) obtain m where m: "map_of h q = Some m" by blast
  consider "n = 0" | "n \<noteq> 0" "n > 1000" | "n \<noteq> 0" "\<not> n > 1000" "n \<le> m" | "n \<noteq> 0" "\<not> n > 1000" "\<not> n \<le> m" by blast
  then show ?thesis
  proof cases
    case 4
    then have r: "reallocp bump q n h = bump_new n (AList.delete q h)" using assms m by (simp add: bump_def)
    show ?thesis unfolding r using 4 bump_new_moves [where n = n and h = "AList.delete q h"] by (simp add: delete_conv')
  qed (use assms m in \<open>simp_all add: bump_def delete_conv'\<close>)
qed

lemma bump_ok: "libc_ok bump map_of"
  unfolding libc_ok_def
proof (intro conjI allI impI)
  fix h :: bump and q n assume "q \<noteq> NULL \<and> map_of h q \<noteq> None"
  then show "if n = 0 then map_of (snd (reallocp bump q n h)) = (map_of h)(q := None)
    else if fst (reallocp bump q n h) = NULL then map_of (snd (reallocp bump q n h)) = map_of h
    else ((map_of h)(q := None)) (fst (reallocp bump q n h)) = None \<and>
      map_of (snd (reallocp bump q n h)) = (map_of h)(q := None, fst (reallocp bump q n h) \<mapsto> n)"
    by (intro bump_realloc_ok) blast+
qed (simp_all add: bump_def bump_new_ok delete_conv')

section \<open>Properties\<close>

text \<open>C11: after any program that reallocates blocks only to size 0 or to a larger size, on a libc that may refuse
  requests and move blocks, the bytes counted as allocated exceed the bytes counted as freed by the sizes of the
  blocks in the list and the bytes of the refused requests; the blocks in the list are allocated, with these sizes.
  If no request for more than 0 bytes was refused, the difference is the total size of the blocks that libc has
  allocated.\<close>

theorem tracer_balance:
  assumes "libc_ok lib alive" and "alive h = Map.empty" and "grow_only lib alive cs (init h)"
    and "fold (call3 lib) cs (init h) = t"
  shows "n_allocb t - n_freeb t = (\<Sum>p \<in> dom (tracked t). the (tracked t p)) + refused lib cs (init h) \<and>
    tracked t \<subseteq>\<^sub>m alive (heap t) \<and>
    (granted lib cs (init h) \<longrightarrow> n_allocb t - n_freeb t = (\<Sum>p \<in> dom (alive (heap t)). the (alive (heap t) p)))"
proof -
  note run = run_tracked [OF assms]
  have "n_allocb t - n_freeb t = (\<Sum>p \<in> dom (alive (heap t)). the (alive (heap t) p))" if g: "granted lib cs (init h)"
  proof -
    have "(\<Sum>p \<in> dom (alive (heap t)). the (alive (heap t) p)) = (\<Sum>p \<in> dom (tracked t). the (alive (heap t) p))"
    proof (rule sum.mono_neutral_right [OF run(3)])
      show "dom (tracked t) \<subseteq> dom (alive (heap t))" using run(2) by (rule map_le_implies_dom_le)
      show "\<forall>p \<in> dom (alive (heap t)) - dom (tracked t). the (alive (heap t) p) = 0" using run(4) [OF g] by fastforce
    qed
    also have "\<dots> = (\<Sum>p \<in> dom (tracked t). the (tracked t p))"
      by (rule sum.cong) (use run(2) in \<open>auto simp: map_le_def\<close>)
    finally show ?thesis using run(1) refused_granted [OF g] by simp
  qed
  with run(1,2) show ?thesis by blast
qed

theorem tracer_balance_witness:
  "n_allocb (fold (call3 bump) [Malloc 8, Calloc 2 3, Realloc 1 20, Free 2, Free 2, Malloc 5000] (init [])) -
   n_freeb (fold (call3 bump) [Malloc 8, Calloc 2 3, Realloc 1 20, Free 2, Free 2, Malloc 5000] (init [])) = 5020"
proof -
  let ?cs = "[Malloc 8, Calloc 2 3, Realloc 1 20, Free 2, Free 2, Malloc 5000]"
  have g: "grow_only bump map_of ?cs (init [])" by code_simp
  have "n_allocb (fold (call3 bump) ?cs (init [])) - n_freeb (fold (call3 bump) ?cs (init [])) =
    (\<Sum>p \<in> dom (tracked (fold (call3 bump) ?cs (init []))). the (tracked (fold (call3 bump) ?cs (init [])) p)) +
      refused bump ?cs (init [])"
    by (rule conjunct1 [OF tracer_balance [OF bump_ok _ g refl]]) simp
  also have "refused bump ?cs (init []) = 5000" by code_simp
  also have "tracked (fold (call3 bump) ?cs (init [])) = [3 \<mapsto> 20]"
  proof -
    have "items (fold (call3 bump) ?cs (init [])) = Some [\<lparr>ptr = 1, sz = 8, cnt = 0\<rparr>, \<lparr>ptr = 2, sz = 6, cnt = 0\<rparr>, \<lparr>ptr = 3, sz = 20, cnt = 1\<rparr>]"
      by code_simp
    then show ?thesis by (auto simp: tracked_def held_def fun_eq_iff)
  qed
  also have "(\<Sum>p \<in> dom [3 :: nat \<mapsto> 20 :: u64]. the ([3 \<mapsto> 20] p)) + 5000 = 5020" by (simp add: dom_def)
  finally show ?thesis .
qed

text \<open>C12: after any program that allocates something and reallocates blocks only to size 0 or to a larger size, on a
  libc that may refuse requests and move blocks, every block the report at exit lists is allocated, and is
  listed with its size and a count of one.  If no request for more than 0 bytes was refused it lists every allocated
  block of more than 0 bytes, and if the program never calls \<open>realloc(NULL, 0)\<close> it lists every
  allocated block.\<close>

theorem fini_reports_leaks:
  assumes "libc_ok lib alive" and "alive h = Map.empty" and "grow_only lib alive cs (init h)"
    and "fold (call3 lib) cs (init h) = t" and "n_malloc t + n_calloc t + n_realloc t \<noteq> 0"
  shows "\<exists>t'. fini2 t = Some t' \<and>
    (let report = {(p, n, c). LOG_BLOCK p n c \<in> snd ` set (logged t')}; blocks = {(p, n, 1) |p n. alive (heap t) p = Some n}
     in report \<subseteq> blocks \<and>
       (granted lib cs (init h) \<longrightarrow> (\<forall>p n. (p, n, 1) \<in> blocks \<longrightarrow> n \<noteq> 0 \<longrightarrow> (p, n, 1) \<in> report)) \<and>
       (granted lib cs (init h) \<and> Realloc NULL 0 \<notin> set cs \<longrightarrow> report = blocks))"
proof -
  note run = run_tracked [OF assms(1-4)]
  obtain l where l: "items t = Some l" "ordered l" "counted (table_of l)" "held (table_of l) = tracked t"
    using run_list [OF assms(1-4)] by blast
  obtain u where u: "statistics t = Some u" using assms(5) by (simp add: statistics_def Let_def)
  from statistics_keeps [OF u] l have "items u = Some l" "reported u = reported t" by auto
  moreover have "reported t = {}"
    using assms(4) reported_run [of lib cs "init h"] by (auto simp: reported_def init_def)
  ultimately have "reported (mlog LOG_STOP (mlog LOG_BLANK (report l True u))) = {(p, n, 1) |p n. tracked t p = Some n}"
    using reported_held [OF l(2,3)] l(4) by (simp add: reported_mlog reported_report)
  then have r: "{(p, n, c). LOG_BLOCK p n c \<in> snd ` set (logged (mlog LOG_STOP (mlog LOG_BLANK (report l True u))))} =
      {(p, n, 1) |p n. tracked t p = Some n}" by (simp add: reported_def)
  have f: "fini2 t = Some (mlog LOG_STOP (mlog LOG_BLANK (report l True u)))"
    using u l \<open>items u = Some l\<close> by (simp add: fini2_def)
  have le: "tracked t p = Some n \<Longrightarrow> alive (heap t) p = Some n" for p n
    using run(2) by (auto simp: map_le_def dom_def)
  let ?R = "{(p, n, 1 :: int) |p n. tracked t p = Some n}" and ?B = "{(p, n, 1) |p n. alive (heap t) p = Some n}"
  have "?R \<subseteq> ?B" using le by auto
  moreover have "(p, n, 1) \<in> ?R" if "granted lib cs (init h)" "(p, n, 1) \<in> ?B" "n \<noteq> 0" for p n
    using that(2,3) run(4) [OF that(1), of p n] by simp
  moreover have "?R = ?B" if "granted lib cs (init h) \<and> Realloc NULL 0 \<notin> set cs" using run(5) that by simp
  ultimately show ?thesis
    unfolding Let_def by (intro exI [of _ "mlog LOG_STOP (mlog LOG_BLANK (report l True u))"] conjI f; unfold r) blast+
qed

theorem fini_reports_leaks_witness:
  "\<exists>t'. fini2 (fold (call3 bump) [Malloc 8, Malloc 9, Free 1] (init [])) = Some t' \<and>
    {(p, n, c). LOG_BLOCK p n c \<in> snd ` set (logged t')} =
      {(p, n, 1) |p n. map_of (heap (fold (call3 bump) [Malloc 8, Malloc 9, Free 1] (init []))) p = Some n}"
proof -
  let ?cs = "[Malloc 8, Malloc 9, Free 1]"
  have g: "grow_only bump map_of ?cs (init [])" "granted bump ?cs (init [])"
    "n_malloc (fold (call3 bump) ?cs (init [])) + n_calloc (fold (call3 bump) ?cs (init [])) +
      n_realloc (fold (call3 bump) ?cs (init [])) \<noteq> 0" by code_simp+
  have n: "map_of [] = (Map.empty :: nat \<Rightarrow> u64 option)" "Realloc NULL 0 \<notin> set ?cs" by simp_all
  from fini_reports_leaks [OF bump_ok n(1) g(1) refl g(3)] g(2) n(2) show ?thesis
    unfolding Let_def by (elim exE conjE) (intro exI conjI, assumption, blast)
qed

definition same_on_blocks :: "'h libc \<Rightarrow> 'h libc \<Rightarrow> ('h \<Rightarrow> nat \<Rightarrow> u64 option) \<Rightarrow> bool" where
  "same_on_blocks lib lib' alive \<longleftrightarrow> mallocp lib = mallocp lib' \<and> callocp lib = callocp lib' \<and>
     (\<forall>h n. reallocp lib NULL n h = reallocp lib' NULL n h) \<and>
     (\<forall>h p n. alive h p \<noteq> None \<longrightarrow> reallocp lib p n h = reallocp lib' p n h \<and> freep lib p h = freep lib' p h)"

lemma call3_same:
  assumes same: "same_on_blocks lib lib' alive" and t: "synced Q alive r t"
  shows "call3 lib c t = call3 lib' c t"
proof -
  have b: "find_item p (items t) = Some i \<Longrightarrow> cnt i \<noteq> 0 \<Longrightarrow> alive (heap t) p \<noteq> None" for p i
    using agrees_find [OF t, of p i] by simp
  show ?thesis
  proof (cases c)
    case (Realloc p n)
    then show ?thesis
      using same b [of p] by (auto simp: same_on_blocks_def realloc3_def realloc_null_def realloc_block_def split: option.splits)
  next
    case (Free p)
    then show ?thesis
      using same b [of p] by (auto simp: same_on_blocks_def free3_def Let_def split: option.splits prod.splits)
  qed (use same in \<open>simp_all add: same_on_blocks_def malloc2_def calloc2_def\<close>)
qed

text \<open>C13: a program that reallocates blocks only to size 0 or to a larger size can free and reallocate
  whatever else it likes, and libc may refuse requests and move blocks: libc only ever sees pointers to allocated
  blocks, so how it would treat any other pointer makes no difference.\<close>

theorem libc_sees_only_blocks:
  assumes "libc_ok lib alive" and "same_on_blocks lib lib' alive" and "alive h = Map.empty"
    and "grow_only lib alive cs (init h)"
  shows "fold (call3 lib) cs (init h) = fold (call3 lib') cs (init h)"
proof -
  have "fold (call3 lib) cs t = fold (call3 lib') cs t" if "synced (\<lambda>_. True) alive r t" "grow_only lib alive cs t" for t r
    using that
  proof (induction cs arbitrary: t r)
    case (Cons c cs)
    note s = synced_call [OF assms(1) Cons.prems]
    with Cons.IH [OF s] Cons.prems call3_same [OF assms(2) Cons.prems(1), of c] show ?case by simp
  qed simp
  then show ?thesis using synced_init [of alive h, OF assms(3)] assms(4) by blast
qed

theorem libc_sees_only_blocks_witness:
  "fold (call3 bump) [Malloc 8, Free 5, Free 1, Free 1, Realloc 9 4] (init []) =
   fold (call3 (bump\<lparr>freep := \<lambda>p h. if map_of h p = None then [] else AList.delete p h\<rparr>))
     [Malloc 8, Free 5, Free 1, Free 1, Realloc 9 4] (init [])"
proof (rule libc_sees_only_blocks [OF bump_ok])
  show "grow_only bump map_of [Malloc 8, Free 5, Free 1, Free 1, Realloc 9 4] (init [])" by code_simp
qed (simp_all add: same_on_blocks_def bump_def)

text \<open>A program that frees and reallocates only what libc has allocated to it, or \<open>NULL\<close>.\<close>

fun legal :: "'h libc \<Rightarrow> ('h \<Rightarrow> nat \<Rightarrow> u64 option) \<Rightarrow> call list \<Rightarrow> 'h tracer \<Rightarrow> bool" where
  "legal lib alive [] t \<longleftrightarrow> True"
| "legal lib alive (c # cs) t \<longleftrightarrow>
     (case c of Realloc p n \<Rightarrow> p = NULL \<or> alive (heap t) p \<noteq> None | Free p \<Rightarrow> p = NULL \<or> alive (heap t) p \<noteq> None | _ \<Rightarrow> True) \<and>
     legal lib alive cs (call3 lib c t)"

text \<open>Part 2 and part 3 differ only in what they do with pointers that are not in the list.\<close>

lemma call_2_3:
  assumes t: "synced (\<lambda>_. False) alive r t" and c: "legal lib alive [c] t"
  shows "call2 lib c t = call3 lib c t"
proof -
  obtain l where l: "items t = Some l" "ordered l" using t by (auto simp: agrees_def)
  have f: "\<exists>i. find_item p (items t) = Some i \<and> cnt i > 0" if "alive (heap t) p \<noteq> None" for p
    using agrees_listed [OF t] that by fastforce
  show ?thesis
  proof (cases c)
    case (Realloc p n)
    then show ?thesis using c f [of p] by (auto simp: realloc2_def realloc3_def)
  next
    case (Free p)
    show ?thesis
    proof (cases "p = NULL")
      case False
      with c Free f [of p] obtain i where i: "find_item p (items t) = Some i" "0 < cnt i" by auto
      with l obtain j where "fst (dealloc_at p l) = Some j" "sz j = sz i"
        using dealloc_at_sz [of p l i] by (auto simp: find_item_def)
      with i l Free False show ?thesis by (simp add: free2_def free3_def dealloc_Some Let_def)
    qed (simp add: Free free2_def free3_def)
  qed simp_all
qed

text \<open>C14: on a program that frees and reallocates only what libc has allocated to it, that reallocates blocks only
  to size 0 or to a larger size and never calls \<open>realloc(NULL, 0)\<close>, and whose requests for more than 0
  bytes are granted, the tracers of part 2 and part 3 do the same, log included.\<close>

theorem parts_2_and_3_agree:
  assumes "libc_ok lib alive" and "alive h = Map.empty" and "legal lib alive cs (init h)"
    and "grow_only lib alive cs (init h)" and "granted lib cs (init h)" and "Realloc NULL 0 \<notin> set cs"
  shows "fold (call2 lib) cs (init h) = fold (call3 lib) cs (init h)"
proof -
  have "fold (call2 lib) cs t = fold (call3 lib) cs t"
    if "synced (\<lambda>_. False) alive r t" "legal lib alive cs t" "grow_only lib alive cs t" "granted lib cs t"
      "Realloc NULL 0 \<notin> set cs" for t r
    using that
  proof (induction cs arbitrary: t r)
    case (Cons c cs)
    have s: "synced (\<lambda>_. False) alive (r + (if answer lib c t = NULL then requested c else 0)) (call3 lib c t)"
      by (rule synced_call [OF assms(1) Cons.prems(1,3)]) (use Cons.prems(4,5) in auto)
    have "legal lib alive [c] t" using Cons.prems(2) by simp
    from call_2_3 [OF Cons.prems(1) this] Cons.IH [OF s] Cons.prems show ?case by simp
  qed simp
  then show ?thesis using synced_init [of alive h, OF assms(2)] assms(3-) by blast
qed

theorem parts_2_and_3_agree_witness:
  "fold (call2 bump) [Malloc 8, Realloc 1 80, Free 1, Realloc 0 3, Free 0] (init []) =
   fold (call3 bump) [Malloc 8, Realloc 1 80, Free 1, Realloc 0 3, Free 0] (init [])"
proof (rule parts_2_and_3_agree [OF bump_ok])
  show "legal bump map_of [Malloc 8, Realloc 1 80, Free 1, Realloc 0 3, Free 0] (init [])"
    "grow_only bump map_of [Malloc 8, Realloc 1 80, Free 1, Realloc 0 3, Free 0] (init [])"
    "granted bump [Malloc 8, Realloc 1 80, Free 1, Realloc 0 3, Free 0] (init [])" by code_simp+
qed simp_all

text \<open>Without calls of \<open>realloc\<close> part 1 counts and logs the same as part 2; the two differ only in
  the list of blocks and the freed bytes, which part 1 does not keep.\<close>

theorem parts_1_and_2_agree:
  assumes "list_all (\<lambda>c. case c of Realloc p n \<Rightarrow> False | _ \<Rightarrow> True) cs"
  shows "fold (call1 lib) cs (init h) = (fold (call2 lib) cs (init h))\<lparr>items := new_list, n_freeb := 0\<rparr>"
proof -
  have step: "call1 lib c (t\<lparr>items := i, n_freeb := 0\<rparr>) = (call2 lib c t)\<lparr>items := i, n_freeb := 0\<rparr>"
    if "case c of Realloc p n \<Rightarrow> False | _ \<Rightarrow> True" for c and t :: "'a tracer" and i
    using that by (cases c) (auto simp: malloc1_def malloc2_def calloc1_def calloc2_def free1_def free2_def track_def
        mlog_def Let_def split: prod.splits option.splits)
  have "fold (call1 lib) cs (t\<lparr>items := i, n_freeb := 0\<rparr>) = (fold (call2 lib) cs t)\<lparr>items := i, n_freeb := 0\<rparr>"
    for t :: "'a tracer" and i
    using assms by (induction cs arbitrary: t) (simp_all add: step)
  from this [of new_list "init h"] show ?thesis by (simp add: init_def mlog_def new_list_def)
qed

theorem parts_1_and_2_agree_witness:
  "fold (call1 bump) [Malloc 8, Calloc 3 4, Free 1] (init []) =
   (fold (call2 bump) [Malloc 8, Calloc 3 4, Free 1] (init []))\<lparr>items := new_list, n_freeb := 0\<rparr>"
  by (rule parts_1_and_2_agree) simp

text \<open>A traced program that never allocates makes the report at exit divide by zero.\<close>

theorem fini_divides_by_zero:
  assumes "list_all (\<lambda>c. case c of Free p \<Rightarrow> True | _ \<Rightarrow> False) cs"
  shows "fini1 (fold (call1 lib) cs (init h)) = None \<and> fini2 (fold (call3 lib) cs (init h)) = None"
proof -
  let ?z = "\<lambda>t :: 'a tracer. n_malloc t + n_calloc t + n_realloc t = 0"
  have "?z (call1 lib c t) = ?z t" "?z (call3 lib c t) = ?z t" if "case c of Free p \<Rightarrow> True | _ \<Rightarrow> False" for c t
    using that by (cases c; simp add: free1_def free3_def Let_def split: option.splits prod.splits)+
  then have "?z (fold (call1 lib) cs t) = ?z t" "?z (fold (call3 lib) cs t) = ?z t" for t
    using assms by (induction cs arbitrary: t) simp_all
  moreover have "?z (init h)" by (simp add: init_def mlog_def)
  ultimately have "statistics (fold (call1 lib) cs (init h)) = None" "statistics (fold (call3 lib) cs (init h)) = None"
    by (simp_all add: statistics_def Let_def)
  then show ?thesis by (simp add: fini1_def fini2_def)
qed

theorem fini_divides_by_zero_witness:
  "fini1 (fold (call1 bump) [Free 0] (init [])) = None \<and> fini2 (fold (call3 bump) [Free 0] (init [])) = None"
  by (rule fini_divides_by_zero) simp

text \<open>After shrinking a block and growing it again below its first size the tracer loses track: the
  new address is unknown to it, so a correct \<open>free\<close> is called illegal and the block leaks.\<close>

theorem shrink_then_grow_is_lost:
  "(let t = fold (call3 bump) [Malloc 100, Malloc 1, Realloc 1 10, Realloc 1 50, Free 3] (init []) in
    (map_of (heap t) 1, map_of (heap t) 3, map snd (logged t))) =
   (None, Some 50, [LOG_START, LOG_MALLOC 100 1, LOG_MALLOC 1 2, LOG_REALLOC 1 10 1, LOG_REALLOC 1 50 3, LOG_FREE 3, LOG_ILL_FREE])"
  by code_simp

text \<open>The block that \<open>realloc(NULL, 0)\<close> returns is not entered into the list, so a correct \<open>free\<close>
  of it is called illegal and the block leaks.\<close>

theorem realloc_null_zero_is_lost:
  "(let t = fold (call3 bump) [Realloc NULL 0, Free 1] (init []) in (map_of (heap t) 1, map snd (logged t))) =
   (Some 0, [LOG_START, LOG_REALLOC NULL 0 1, LOG_FREE 1, LOG_ILL_FREE])"
  by code_simp

text \<open>A request to grow a block that libc refuses takes the block off the list although it stays allocated, so a
  correct \<open>free\<close> of it is called a double free and the block leaks.\<close>

theorem refused_growth_is_lost:
  "(let t = fold (call3 bump) [Malloc 8, Realloc 1 5000, Free 1] (init []) in (map_of (heap t) 1, map snd (logged t))) =
   (Some 8, [LOG_START, LOG_MALLOC 8 1, LOG_REALLOC 1 5000 NULL, LOG_FREE 1, LOG_DOUBLE_FREE])"
  by code_simp

text \<open>If a libc moves a block when it gets smaller, the tracer hands the stale address to it.\<close>

theorem moving_shrink_is_lost:
  "let lib = bump\<lparr>reallocp := \<lambda>q n h. bump_new n (AList.delete q h), freep := \<lambda>p h. (p, 77) # h\<rparr>
   in map_of (heap (fold (call3 lib) [Malloc 8, Malloc 8, Realloc 1 4] (init []))) 1 = None \<and>
      heap (fold (call3 lib) [Malloc 8, Malloc 8, Realloc 1 4, Free 1] (init [])) = [(1, 77), (3, 4), (2, 8)]"
  by code_simp

end
