(* ===== verification/Csapp.thy ===== *)
theory Csapp
  imports Prelude "HOL-Library.Monad_Syntax" "HOL-Library.Signed_Division"
begin

text \<open>
  Two packages of \<open>proxylab-handout/csapp.c\<close>: the number formatting of Sio and the robust
  input and output of Rio.  A descriptor that is read is the list of replies its \<open>read\<close> calls
  will give, one that is written the list of replies of its \<open>write\<close> calls; the end of a list
  is the end of the file, or a descriptor that accepts everything.  The contract of a reader
  (its bytes come from one stream, however the kernel cuts it) is the locale \<open>byte_source\<close>.
\<close>

section \<open>Sio\<close>

text \<open>\<open>sio_reverse\<close>: swaps from both ends until the indices meet.\<close>

function reverse_from :: "nat \<Rightarrow> int \<Rightarrow> string \<Rightarrow> string" where
  "reverse_from i j s =
     (if int i < j then reverse_from (Suc i) (j - 1) (s[i := s ! nat j, nat j := s ! i]) else s)"
  by pat_completeness auto
termination by (relation "measure (\<lambda>(i, j, s). nat (j - int i))") auto

definition sio_reverse :: "string \<Rightarrow> string" where
  "sio_reverse s = reverse_from 0 (int (length s) - 1) s"

text \<open>A character computed from an \<open>int\<close> is truncated to 8 bits.\<close>

definition char_of_int :: "int \<Rightarrow> char" where
  "char_of_int c = char_of (c mod 256)"

text \<open>The loop of \<open>sio_ltoa\<close>; it does not end for base 1.\<close>

partial_function (option) ltoa_digits :: "int \<Rightarrow> int \<Rightarrow> string option" where
  "ltoa_digits v b =
     (let c = v smod b;
          d = char_of_int (if c < 10 then c + 48 else c - 10 + 97);
          v = v sdiv b
      in if v > 0 then ltoa_digits v b \<bind> (\<lambda>s. Some (d # s)) else Some [d])"

definition sio_ltoa :: "int \<Rightarrow> int \<Rightarrow> string option" where
  "sio_ltoa v b = map_option sio_reverse (ltoa_digits v b)"

text \<open>The characters \<open>sio_putl\<close> writes.\<close>

definition sio_putl :: "int \<Rightarrow> string option" where
  "sio_putl v = sio_ltoa v 10"

section \<open>Rio\<close>

datatype rd_reply = Data string | Interrupted | Failed

text \<open>\<open>read\<close> delivers at most \<open>n\<close> bytes of what is there; the rest stays.  No bytes is the end
  of the file.\<close>

fun read_sys :: "nat \<Rightarrow> rd_reply list \<Rightarrow> rd_reply \<times> rd_reply list" where
  "read_sys n [] = (Data [], [])"
| "read_sys n (Data bs # rs) = (if length bs \<le> n then (Data bs, rs) else (Data (take n bs), Data (drop n bs) # rs))"
| "read_sys n (r # rs) = (r, rs)"

text \<open>One \<open>read\<close> of \<open>rio_readn\<close>, called again when a signal interrupts it; \<open>None\<close> is an error.\<close>

fun read_again :: "nat \<Rightarrow> rd_reply list \<Rightarrow> (string \<times> rd_reply list) option" where
  "read_again n (Interrupted # rs) = read_again n rs"
| "read_again n rs = (case read_sys n rs of (Data bs, rs) \<Rightarrow> Some (bs, rs) | _ \<Rightarrow> None)"

text \<open>The loop of \<open>rio_readn\<close> and \<open>rio_readnb\<close> around one kind of read: until \<open>nleft\<close> is zero or a
  read returns nothing.\<close>

function read_loop :: "(nat \<Rightarrow> 's \<Rightarrow> (string \<times> 's) option) \<Rightarrow> nat \<Rightarrow> 's \<Rightarrow> (string \<times> 's) option" where
  "read_loop rd nleft s =
     (if nleft = 0 then Some ([], s)
      else case rd nleft s of
        None \<Rightarrow> None
      | Some (bs, s') \<Rightarrow>
          if bs = [] then Some ([], s')
          else case read_loop rd (nleft - length bs) s' of
            None \<Rightarrow> None
          | Some (bs', s'') \<Rightarrow> Some (bs @ bs', s''))"
  by pat_completeness auto
termination by (relation "measure (\<lambda>(rd, n, s). n)") auto

declare read_loop.simps [simp del]

definition rio_readn :: "nat \<Rightarrow> rd_reply list \<Rightarrow> (string \<times> rd_reply list) option" where
  "rio_readn n fd = read_loop read_again n fd"

text \<open>\<open>rio_t\<close>: the unread part of the internal buffer, and the descriptor.\<close>

record rio_t =
  rio_buf :: string
  rio_fd :: "rd_reply list"

definition RIO_BUFSIZE :: nat where "RIO_BUFSIZE = 8192"

fun refill :: "rd_reply list \<Rightarrow> (string \<times> rd_reply list) option" where
  "refill (Interrupted # rs) = refill rs"
| "refill rs = (case read_sys RIO_BUFSIZE rs of (Data bs, rs) \<Rightarrow> Some (bs, rs) | _ \<Rightarrow> None)"

definition rio_read :: "nat \<Rightarrow> rio_t \<Rightarrow> (string \<times> rio_t) option" where
  "rio_read n rp =
     (case (if rio_buf rp = [] then refill (rio_fd rp) else Some (rio_buf rp, rio_fd rp)) of
        None \<Rightarrow> None
      | Some (buf, fd) \<Rightarrow>
          let cnt = (if length buf < n then length buf else n)
          in Some (take cnt buf, \<lparr>rio_buf = drop cnt buf, rio_fd = fd\<rparr>))"

definition rio_readinitb :: "rd_reply list \<Rightarrow> rio_t" where
  "rio_readinitb fd = \<lparr>rio_buf = [], rio_fd = fd\<rparr>"

definition rio_readnb :: "nat \<Rightarrow> rio_t \<Rightarrow> (string \<times> rio_t) option" where
  "rio_readnb n rp = read_loop rio_read n rp"

text \<open>The \<open>for\<close> loop of \<open>rio_readlineb\<close> with \<open>k\<close> rounds left: one byte a round.\<close>

primrec readline_loop :: "(nat \<Rightarrow> 's \<Rightarrow> (string \<times> 's) option) \<Rightarrow> nat \<Rightarrow> 's \<Rightarrow> (string \<times> 's) option" where
  "readline_loop rd 0 s = Some ([], s)"
| "readline_loop rd (Suc k) s =
     (case rd 1 s of
        None \<Rightarrow> None
      | Some ([], s') \<Rightarrow> Some ([], s')
      | Some (c # _, s') \<Rightarrow>
          if c = CHR 0x0A then Some ([c], s')
          else map_option (\<lambda>(l, s'). (c # l, s')) (readline_loop rd k s'))"

definition rio_readlineb :: "nat \<Rightarrow> rio_t \<Rightarrow> (string \<times> rio_t) option" where
  "rio_readlineb maxlen rp = readline_loop rio_read (maxlen - 1) rp"

datatype wr_reply = Accepted nat | Write_interrupted | Write_failed

text \<open>\<open>rio_writen\<close>: what reached the descriptor, and whether all of it did.\<close>

fun rio_writen :: "string \<Rightarrow> wr_reply list \<Rightarrow> string \<times> bool" where
  "rio_writen bs [] = (bs, True)"
| "rio_writen bs (r # rs) =
     (if bs = [] then ([], True)
      else case r of
        Write_interrupted \<Rightarrow> rio_writen bs rs
      | Write_failed \<Rightarrow> ([], False)
      | Accepted n \<Rightarrow>
          if n = 0 then ([], False)
          else let (sent, ok) = rio_writen (drop n bs) rs in (take n bs @ sent, ok))"

section \<open>The contract of a reader\<close>

text \<open>The first line of a text: up to and including the first newline, but at most \<open>n\<close> bytes.\<close>

fun first_line :: "nat \<Rightarrow> string \<Rightarrow> string" where
  "first_line 0 s = []"
| "first_line (Suc n) [] = []"
| "first_line (Suc n) (c # s) = c # (if c = CHR 0x0A then [] else first_line n s)"

locale byte_source =
  fixes rd :: "nat \<Rightarrow> 's \<Rightarrow> (string \<times> 's) option" and stream :: "'s \<Rightarrow> string" and good :: "'s \<Rightarrow> bool"
  assumes reads: "good s \<Longrightarrow> 0 < n \<Longrightarrow> \<exists>bs s'. rd n s = Some (bs, s') \<and> good s' \<and>
    stream s = bs @ stream s' \<and> length bs \<le> n \<and> (bs = [] \<longrightarrow> stream s = [])"
begin

lemma loop_reads:
  "good s \<Longrightarrow> \<exists>s'. read_loop rd n s = Some (take n (stream s), s') \<and> good s' \<and> stream s' = drop n (stream s)"
proof (induction n arbitrary: s rule: less_induct)
  case (less n)
  show ?case
  proof (cases "n = 0")
    case False
    with reads [OF less.prems] obtain bs s1 where r: "rd n s = Some (bs, s1)" "good s1" "stream s = bs @ stream s1"
      "length bs \<le> n" "bs = [] \<longrightarrow> stream s = []" by blast
    show ?thesis
    proof (cases "bs = []")
      case True
      then show ?thesis using r False by (subst read_loop.simps) auto
    next
      case bs: False
      then have "n - length bs < n" using False by simp
      from less.IH [OF this r(2)] obtain s2 where
        "read_loop rd (n - length bs) s1 = Some (take (n - length bs) (stream s1), s2)" "good s2"
        "stream s2 = drop (n - length bs) (stream s1)" by blast
      then show ?thesis using r False bs by (subst read_loop.simps) simp
    qed
  qed (use less.prems in \<open>simp add: read_loop.simps\<close>)
qed

lemma line_reads:
  "good s \<Longrightarrow> \<exists>s'. readline_loop rd k s = Some (first_line k (stream s), s') \<and> good s' \<and>
     stream s = first_line k (stream s) @ stream s'"
proof (induction k arbitrary: s)
  case (Suc k)
  from reads [OF Suc.prems, of 1] obtain bs s1 where r: "rd 1 s = Some (bs, s1)" "good s1" "stream s = bs @ stream s1"
    "length bs \<le> 1" "bs = [] \<longrightarrow> stream s = []" by auto
  show ?case
  proof (cases bs)
    case Nil
    then show ?thesis using r by auto
  next
    case (Cons c cs)
    then have [simp]: "bs = [c]" using r(4) by simp
    from Suc.IH [OF r(2)] r show ?thesis by auto
  qed
qed auto

end

section \<open>The readers meet the contract\<close>

fun content :: "rd_reply list \<Rightarrow> string" where
  "content [] = []"
| "content (Data bs # rs) = bs @ content rs"
| "content (r # rs) = content rs"

text \<open>A descriptor that does not fail and says end of file only at its end.\<close>

definition working :: "rd_reply list \<Rightarrow> bool" where
  "working fd \<longleftrightarrow> Failed \<notin> set fd \<and> Data [] \<notin> set fd"

lemma read_sys_working:
  assumes "working fd" "0 < n" "fd = [] \<or> hd fd \<noteq> Interrupted"
  shows "\<exists>bs fd'. read_sys n fd = (Data bs, fd') \<and> working fd' \<and> content fd = bs @ content fd' \<and>
    length bs \<le> n \<and> (bs = [] \<longrightarrow> content fd = [])"
  using assms
proof (induction n fd rule: read_sys.induct)
  case (2 n bs rs)
  then have "bs \<noteq> []" by (auto simp: working_def)
  with 2 show ?case by (auto simp: working_def)
qed (auto simp: working_def)

lemma read_again_working:
  "working fd \<Longrightarrow> 0 < n \<Longrightarrow> \<exists>bs fd'. read_again n fd = Some (bs, fd') \<and> working fd' \<and>
     content fd = bs @ content fd' \<and> length bs \<le> n \<and> (bs = [] \<longrightarrow> content fd = [])"
proof (induction fd)
  case Nil
  then show ?case using read_sys_working [of "[]" n] by auto
next
  case (Cons r fd)
  show ?case
  proof (cases r)
    case (Data bs)
    then show ?thesis using read_sys_working [of "Data bs # fd" n] Cons.prems by (auto split: rd_reply.splits prod.splits)
  qed (use Cons in \<open>auto simp: working_def\<close>)
qed

lemma refill_read_again: "refill fd = read_again RIO_BUFSIZE fd"
  by (induction fd rule: refill.induct) simp_all

interpretation plain: byte_source read_again content working
  by unfold_locales (rule read_again_working)

lemma rio_read_works:
  assumes "working (rio_fd rp)" "0 < n"
  shows "\<exists>bs rp'. rio_read n rp = Some (bs, rp') \<and> working (rio_fd rp') \<and>
    rio_buf rp @ content (rio_fd rp) = bs @ rio_buf rp' @ content (rio_fd rp') \<and>
    length bs \<le> n \<and> (bs = [] \<longrightarrow> rio_buf rp @ content (rio_fd rp) = [])"
proof (cases "rio_buf rp = []")
  case True
  obtain bs fd where r: "read_again RIO_BUFSIZE (rio_fd rp) = Some (bs, fd)" "working fd"
    "content (rio_fd rp) = bs @ content fd" "bs = [] \<longrightarrow> content (rio_fd rp) = []"
    using read_again_working [OF assms(1), of RIO_BUFSIZE] by (auto simp: RIO_BUFSIZE_def)
  then show ?thesis using True assms(2) by (auto simp: rio_read_def refill_read_again Let_def)
next
  case False
  then show ?thesis using assms by (auto simp: rio_read_def Let_def)
qed

interpretation buffered: byte_source rio_read "\<lambda>rp. rio_buf rp @ content (rio_fd rp)" "\<lambda>rp. working (rio_fd rp)"
  by unfold_locales (use rio_read_works in auto)

end
