(* ===== verification/CsappProps.thy ===== *)
theory CsappProps
  imports Csapp
begin

text \<open>
  Round trips of the number formatting and of robust input and output, and the independence of
  every sequence of buffered reads from how the kernel delivers the bytes.
\<close>

section \<open>Sio\<close>

declare reverse_from.simps [simp del]

lemma reverse_from_rev:
  "length a = i \<Longrightarrow> j = int i + int (length m) - 1 \<Longrightarrow> reverse_from i j (a @ m @ c) = a @ rev m @ c"
proof (induction "length m" arbitrary: a m c i j rule: less_induct)
  case less
  consider "m = []" | x where "m = [x]" | x m' y where "m = x # m' @ [y]"
    by (metis append_butlast_last_id list.exhaust)
  then show ?case
  proof cases
    case 3
    have "nat j = length (a @ x # m')" using less.prems 3 by simp
    then have "(a @ m @ c)[i := (a @ m @ c) ! nat j, nat j := (a @ m @ c) ! i] = (a @ [y]) @ m' @ ([x] @ c)"
      using less.prems 3 by (simp add: nth_append list_update_append)
    moreover have "int i < j" using less.prems 3 by simp
    moreover have "reverse_from (Suc i) (j - 1) ((a @ [y]) @ m' @ ([x] @ c)) = (a @ [y]) @ rev m' @ ([x] @ c)"
      by (rule less.hyps) (use less.prems 3 in auto)
    ultimately show ?thesis using 3 by (subst reverse_from.simps) simp
  qed (use less.prems in \<open>simp_all add: reverse_from.simps\<close>)
qed

lemma sio_reverse_rev: "sio_reverse s = rev s"
  using reverse_from_rev [of "[]" 0 "int (length s) - 1" s "[]"] by (simp add: sio_reverse_def)

definition digit_of :: "char \<Rightarrow> int" where
  "digit_of c = of_char c - 48"

definition parse_decimal :: "string \<Rightarrow> int" where
  "parse_decimal s = foldl (\<lambda>n c. 10 * n + digit_of c) 0 s"

lemma digit_char: "0 \<le> c \<Longrightarrow> c < 10 \<Longrightarrow> digit_of (char_of_int (c + 48)) = c"
  by (simp add: digit_of_def char_of_int_def)

lemma ltoa_digits_decimal:
  "0 \<le> v \<Longrightarrow> \<exists>s. ltoa_digits v 10 = Some s \<and> s \<noteq> [] \<and> list_all (\<lambda>c. digit_of c \<in> {0..9}) s \<and>
    foldr (\<lambda>c n. 10 * n + digit_of c) s 0 = v"
proof (induction "nat v" arbitrary: v rule: less_induct)
  case less
  have q: "v smod 10 = v mod 10" "v sdiv 10 = v div 10"
    using less.prems by (simp_all add: signed_modulo_int_def signed_divide_int_def sgn_if)
  let ?d = "char_of_int (v mod 10 + 48)"
  have u: "ltoa_digits v 10 = (if v div 10 > 0 then ltoa_digits (v div 10) 10 \<bind> (\<lambda>s. Some (?d # s)) else Some [?d])"
    by (subst ltoa_digits.simps) (simp add: q Let_def)
  have d: "digit_of ?d = v mod 10" by (rule digit_char) auto
  have r: "v mod 10 \<in> {0..9}" using pos_mod_bound [of 10 v] by simp
  show ?case
  proof (cases "v div 10 > 0")
    case True
    then have "nat (v div 10) < nat v" using less.prems by linarith
    from less.hyps [OF this] True obtain s where
      "ltoa_digits (v div 10) 10 = Some s" "list_all (\<lambda>c. digit_of c \<in> {0..9}) s"
      "foldr (\<lambda>c n. 10 * n + digit_of c) s 0 = v div 10" by auto
    then show ?thesis using True u d r by simp
  next
    case False
    then have "v mod 10 = v" using less.prems by (simp add: not_less)
    then show ?thesis using False u d r by simp
  qed
qed

lemma sio_putl_digits:
  assumes "0 \<le> v"
  shows "\<exists>s. sio_putl v = Some s \<and> s \<noteq> [] \<and> list_all (\<lambda>c. digit_of c \<in> {0..9}) s \<and> parse_decimal s = v"
proof -
  obtain s where s: "ltoa_digits v 10 = Some s" "s \<noteq> []" "list_all (\<lambda>c. digit_of c \<in> {0..9}) s"
    "foldr (\<lambda>c n. 10 * n + digit_of c) s 0 = v"
    using ltoa_digits_decimal [OF assms] by blast
  then have "parse_decimal (rev s) = v" by (simp add: parse_decimal_def foldl_conv_foldr)
  then show ?thesis using s by (simp add: sio_putl_def sio_ltoa_def sio_reverse_rev)
qed

lemma sio_putl_negative:
  assumes "v < 0"
  shows "sio_putl v = Some [char_of_int (48 - (- v) mod 10)]"
proof -
  have "v smod 10 = - ((- v) mod 10)" "\<not> 0 < v sdiv 10"
    using assms by (auto simp: signed_modulo_int_def signed_divide_int_def sgn_if div_int_pos_iff)
  moreover have "- ((- v) mod 10) < 10"
  proof -
    have "0 \<le> (- v) mod 10" by simp
    then show ?thesis by linarith
  qed
  ultimately show ?thesis
    by (simp add: sio_putl_def sio_ltoa_def sio_reverse_rev ltoa_digits.simps [of v] Let_def add.commute)
qed

text \<open>C17: for a number that is not negative \<open>sio_putl\<close> writes decimal digits that read back as the number.  For a
  negative number it writes a single character, the one that lies as far below \<open>'0'\<close> as the last
  digit says, and neither a sign nor the other digits.\<close>

theorem sio_putl_roundtrip:
  "if 0 \<le> v
   then \<exists>s. sio_putl v = Some s \<and> s \<noteq> [] \<and> list_all (\<lambda>c. digit_of c \<in> {0..9}) s \<and> parse_decimal s = v
   else sio_putl v = Some [char_of_int (48 - (- v) mod 10)]"
  using sio_putl_digits [of v] sio_putl_negative [of v] by simp

theorem sio_putl_roundtrip_witness:
  "(\<exists>s. sio_putl 20480 = Some s \<and> parse_decimal s = 20480) \<and> sio_putl (-12) = Some ''.''"
proof -
  have "sio_putl (-12) = Some [char_of_int (48 - (- (-12)) mod 10)]" using sio_putl_roundtrip [of "-12"] by simp
  also have "\<dots> = Some ''.''" by code_simp
  finally show ?thesis using sio_putl_roundtrip [of 20480] by auto
qed

section \<open>Rio\<close>

lemma rio_writen_all:
  "Write_failed \<notin> set ws \<Longrightarrow> Accepted 0 \<notin> set ws \<Longrightarrow> rio_writen bs ws = (bs, True)"
  by (induction bs ws rule: rio_writen.induct) (auto split: wr_reply.splits)

text \<open>C16: what \<open>rio_writen\<close> sends, in whatever portions the descriptor accepts it, is what
  \<open>rio_readn\<close> receives, in whatever portions and with whatever interruptions it arrives.\<close>

theorem rio_roundtrip:
  assumes "Write_failed \<notin> set ws" and "Accepted 0 \<notin> set ws"
    and "working fd" and "content fd = fst (rio_writen msg ws) @ rest"
  shows "snd (rio_writen msg ws) \<and> map_option fst (rio_readn (length msg) fd) = Some msg"
proof -
  have w: "rio_writen msg ws = (msg, True)" using assms(1,2) by (rule rio_writen_all)
  obtain fd' where "read_loop read_again (length msg) fd = Some (take (length msg) (content fd), fd')"
    using plain.loop_reads [OF assms(3)] by blast
  then show ?thesis using w assms(4) by (simp add: rio_readn_def)
qed

theorem rio_roundtrip_witness:
  "snd (rio_writen ''hello'' [Accepted 2, Write_interrupted, Accepted 1]) \<and>
   map_option fst (rio_readn 5 [Data ''hel'', Interrupted, Data ''lo and'', Data '' more'']) = Some ''hello''"
proof -
  have "content [Data ''hel'', Interrupted, Data ''lo and'', Data '' more''] =
    fst (rio_writen ''hello'' [Accepted 2, Write_interrupted, Accepted 1]) @ '' and more''" by simp
  from rio_roundtrip [OF _ _ _ this] show ?thesis by (simp add: working_def eval_nat_numeral)
qed

text \<open>A program that reads lines and blocks through one \<open>rio_t\<close>.\<close>

datatype rio_op = Line nat | Block nat

fun rio_run :: "rio_op list \<Rightarrow> rio_t \<Rightarrow> string list option" where
  "rio_run [] rp = Some []"
| "rio_run (op # ops) rp =
     (case (case op of Line n \<Rightarrow> rio_readlineb n rp | Block n \<Rightarrow> rio_readnb n rp) of
        None \<Rightarrow> None
      | Some (bs, rp) \<Rightarrow> map_option (Cons bs) (rio_run ops rp))"

fun cut :: "rio_op list \<Rightarrow> string \<Rightarrow> string list" where
  "cut [] s = []"
| "cut (Line n # ops) s = (let l = first_line (n - 1) s in l # cut ops (drop (length l) s))"
| "cut (Block n # ops) s = take n s # cut ops (drop n s)"

lemma rio_run_cut:
  "working (rio_fd rp) \<Longrightarrow> rio_run ops rp = Some (cut ops (rio_buf rp @ content (rio_fd rp)))"
proof (induction ops arbitrary: rp)
  case (Cons op ops)
  show ?case
  proof (cases op)
    case (Line n)
    from buffered.line_reads [OF Cons.prems, of "n - 1"] obtain rp' where r:
      "readline_loop rio_read (n - 1) rp = Some (first_line (n - 1) (rio_buf rp @ content (rio_fd rp)), rp')"
      "working (rio_fd rp')"
      "rio_buf rp @ content (rio_fd rp) = first_line (n - 1) (rio_buf rp @ content (rio_fd rp)) @ rio_buf rp' @ content (rio_fd rp')"
      by blast
    have "drop (length (first_line (n - 1) (rio_buf rp @ content (rio_fd rp)))) (rio_buf rp @ content (rio_fd rp)) =
        rio_buf rp' @ content (rio_fd rp')"
      by (subst (2) r(3)) simp
    then show ?thesis using r(1) Cons.IH [OF r(2)] Line by (simp add: rio_readlineb_def Let_def)
  next
    case (Block n)
    from buffered.loop_reads [OF Cons.prems, of n] obtain rp' where r:
      "read_loop rio_read n rp = Some (take n (rio_buf rp @ content (rio_fd rp)), rp')" "working (rio_fd rp')"
      "rio_buf rp' @ content (rio_fd rp') = drop n (rio_buf rp @ content (rio_fd rp))" by blast
    then show ?thesis using Cons.IH [OF r(2)] Block by (simp add: rio_readnb_def)
  qed
qed simp

text \<open>C15: a sequence of line and block reads delivers the same pieces of the same bytes, whatever
  pieces the kernel delivered them in: lines end after a newline or when the buffer is full, blocks
  are short only at the end of the file.\<close>

theorem rio_reads_cut_the_stream:
  assumes "working fd"
  shows "rio_run ops (rio_readinitb fd) = Some (cut ops (content fd))"
  using rio_run_cut [of "rio_readinitb fd" ops] assms by (simp add: rio_readinitb_def)

theorem rio_reads_cut_the_stream_witness:
  "rio_run [Line 80, Block 3, Line 80] (rio_readinitb [Data ''GE'', Interrupted, Data ''T / '', Data [CHR 0x0A], Data ''abcde'']) =
     Some [''GET / '' @ [CHR 0x0A], ''abc'', ''de'']"
proof -
  let ?fd = "[Data ''GE'', Interrupted, Data ''T / '', Data [CHR 0x0A], Data ''abcde'']"
  have "rio_run [Line 80, Block 3, Line 80] (rio_readinitb ?fd) = Some (cut [Line 80, Block 3, Line 80] (content ?fd))"
    by (rule rio_reads_cut_the_stream) (simp add: working_def)
  also have "\<dots> = Some [''GET / '' @ [CHR 0x0A], ''abc'', ''de'']" by code_simp
  finally show ?thesis .
qed

end
