(* ===== verification/ProxyCache.thy ===== *)
theory ProxyCache
  imports Prelude
begin

text \<open>
  The object cache of the proxy, \<open>proxylab-handout/cache.c\<close>: a doubly linked list in memory.
  \<open>store\<close> maps the addresses of live items to their fields; a dereference of \<open>NULL\<close> or of a freed
  item is a \<open>Fault\<close>.  Loops take the number of rounds they may run, and are \<open>Running\<close> when that
  is used up.  An operation is one
  step here.  In the code \<open>cache_lookup\<close> releases the read lock before it takes the write lock to call
  \<open>move_to_head\<close>, and another thread may evict the item in between: that interleaving is not modelled.
\<close>

section \<open>The code\<close>

definition MAX_CACHE_SIZE :: nat where "MAX_CACHE_SIZE = 1049000"
definition MAX_OBJECT_SIZE :: nat where "MAX_OBJECT_SIZE = 102400"

record CacheItem =
  tag :: string
  object :: string
  prv :: nat
  nxt :: nat
  objectlen :: nat

record CacheList =
  head :: nat
  tail :: nat
  remainlen :: nat
  store :: "nat \<Rightarrow> CacheItem option"

datatype 'a run = Done 'a | Fault | Running

fun bind :: "'a run \<Rightarrow> ('a \<Rightarrow> 'b run) \<Rightarrow> 'b run" where
  "bind (Done x) f = f x"
| "bind Fault f = Fault"
| "bind Running f = Running"

definition cache_init :: CacheList where
  "cache_init = \<lparr>head = NULL, tail = NULL, remainlen = MAX_CACHE_SIZE, store = \<lambda>_. None\<rparr>"

definition item_at :: "nat \<Rightarrow> CacheList \<Rightarrow> CacheItem run" where
  "item_at a st = (case store st a of Some it \<Rightarrow> if a = NULL then Fault else Done it | None \<Rightarrow> Fault)"

definition set_nxt :: "nat \<Rightarrow> nat \<Rightarrow> CacheList \<Rightarrow> CacheList run" where
  "set_nxt a v st = bind (item_at a st) (\<lambda>it. Done (st\<lparr>store := (store st)(a \<mapsto> it\<lparr>nxt := v\<rparr>)\<rparr>))"

definition set_prv :: "nat \<Rightarrow> nat \<Rightarrow> CacheList \<Rightarrow> CacheList run" where
  "set_prv a v st = bind (item_at a st) (\<lambda>it. Done (st\<lparr>store := (store st)(a \<mapsto> it\<lparr>prv := v\<rparr>)\<rparr>))"

definition move_to_head :: "nat \<Rightarrow> CacheList \<Rightarrow> CacheList run" where
  "move_to_head item st =
     (if head st = item then Done st
      else if head st = NULL then Done (st\<lparr>head := item, tail := item\<rparr>)
      else
        bind (item_at item st) (\<lambda>it.
        bind (Done (if tail st = item then st\<lparr>tail := prv it\<rparr> else st)) (\<lambda>st.
        bind (if prv it \<noteq> NULL then set_nxt (prv it) (nxt it) st else Done st) (\<lambda>st.
        bind (item_at item st) (\<lambda>it.
        bind (if nxt it \<noteq> NULL then set_prv (nxt it) (prv it) st else Done st) (\<lambda>st.
        bind (set_prv item NULL st) (\<lambda>st.
        bind (set_nxt item (head st) st) (\<lambda>st.
        Done (st\<lparr>head := item\<rparr>)))))))))"

definition cache_evict :: "CacheList \<Rightarrow> CacheList run" where
  "cache_evict st =
     bind (item_at (tail st) st) (\<lambda>temp.
     Done (st\<lparr>tail := prv temp, remainlen := remainlen st + objectlen temp,
        store := (store st)(tail st := None)\<rparr>))"

fun evict_loop :: "nat \<Rightarrow> nat \<Rightarrow> CacheList \<Rightarrow> CacheList run" where
  "evict_loop n len st =
     (if remainlen st < len then
        (case n of 0 \<Rightarrow> Running | Suc n \<Rightarrow> bind (cache_evict st) (evict_loop n len))
      else Done st)"

declare evict_loop.simps [simp del]

text \<open>\<open>strcpy\<close> of \<open>src\<close> into \<open>cap\<close> bytes that held \<open>junk\<close>: up to the first NUL byte.\<close>

definition strcpy :: "string \<Rightarrow> nat \<Rightarrow> string \<Rightarrow> string run" where
  "strcpy junk cap src =
     (if CHR 0x00 \<notin> set src then Fault
      else let s = takeWhile (\<lambda>c. c \<noteq> CHR 0x00) src in
        if length s + 1 \<le> cap then Done (s @ [CHR 0x00] @ take (cap - length s - 1) (drop (length s + 1) junk))
        else Fault)"

text \<open>\<open>new\<close> and \<open>junk\<close> are the addresses and the old contents of the memory \<open>Malloc\<close> returns.\<close>

definition cache_add :: "nat \<Rightarrow> nat \<Rightarrow> string \<Rightarrow> string \<Rightarrow> string \<Rightarrow> nat \<Rightarrow> CacheList \<Rightarrow> CacheList run" where
  "cache_add n new junk url obj len st =
     bind (evict_loop n len st) (\<lambda>st.
     bind (strcpy junk (len + 1) obj) (\<lambda>copy.
     let item = \<lparr>tag = url, object = copy, prv = NULL, nxt = NULL, objectlen = len\<rparr>;
         st = st\<lparr>remainlen := remainlen st - len, store := (store st)(new \<mapsto> item)\<rparr>
     in move_to_head new st))"

text \<open>The search of \<open>cache_lookup\<close> from item \<open>p\<close> on.\<close>

fun search :: "nat \<Rightarrow> string \<Rightarrow> nat \<Rightarrow> CacheList \<Rightarrow> nat run" where
  "search n url p st =
     (if p = NULL then Done NULL
      else case n of
        0 \<Rightarrow> Running
      | Suc n \<Rightarrow> bind (item_at p st) (\<lambda>it. if tag it = url then Done p else search n url (nxt it) st))"

declare search.simps [simp del]

definition cache_lookup :: "nat \<Rightarrow> string \<Rightarrow> CacheList \<Rightarrow> (nat \<times> string \<times> CacheList) run" where
  "cache_lookup n url st =
     bind (search n url (head st) st) (\<lambda>item.
     if item = NULL then Done (0, [], st)
     else
       bind (item_at item st) (\<lambda>it.
       bind (move_to_head item st) (\<lambda>st.
       Done (objectlen it, take (objectlen it) (object it), st))))"

section \<open>The list in memory\<close>

fun linked :: "(nat \<Rightarrow> CacheItem option) \<Rightarrow> nat \<Rightarrow> (nat \<times> CacheItem) list \<Rightarrow> bool" where
  "linked m p [] = (p = NULL)"
| "linked m p ((a, it) # xs) = (p = a \<and> a \<noteq> NULL \<and> m a = Some it \<and> linked m (nxt it) xs)"

text \<open>What adding items makes: no item has a predecessor pointer, only the last one is the tail.\<close>

definition built :: "CacheList \<Rightarrow> (nat \<times> CacheItem) list \<Rightarrow> bool" where
  "built st xs \<longleftrightarrow> linked (store st) (head st) xs \<and> distinct (map fst xs) \<and>
     (\<forall>(a, it) \<in> set xs. prv it = NULL) \<and> tail st = (if xs = [] then NULL else fst (last xs))"

lemma linked_cong: "(\<And>a. a \<in> fst ` set xs \<Longrightarrow> m a = m' a) \<Longrightarrow> linked m p xs = linked m' p xs"
proof (induction xs arbitrary: p)
  case (Cons x xs)
  then show ?case by (cases x) auto
qed simp

lemma item_at_Done: "store st a = Some it \<Longrightarrow> a \<noteq> NULL \<Longrightarrow> item_at a st = Done it"
  by (simp add: item_at_def)

lemma set_nxt_Done:
  "store st a = Some it \<Longrightarrow> a \<noteq> NULL \<Longrightarrow> set_nxt a v st = Done (st\<lparr>store := (store st)(a \<mapsto> it\<lparr>nxt := v\<rparr>)\<rparr>)"
  by (simp add: set_nxt_def item_at_def)

lemma set_prv_Done:
  "store st a = Some it \<Longrightarrow> a \<noteq> NULL \<Longrightarrow> set_prv a v st = Done (st\<lparr>store := (store st)(a \<mapsto> it\<lparr>prv := v\<rparr>)\<rparr>)"
  by (simp add: set_prv_def item_at_def)

lemma linked_head: "linked m p xs \<Longrightarrow> p = (if xs = [] then NULL else fst (hd xs))"
  by (cases xs) auto

lemma linked_member: "linked m p xs \<Longrightarrow> (a, it) \<in> set xs \<Longrightarrow> m a = Some it \<and> a \<noteq> NULL"
  by (induction m p xs rule: linked.induct) auto

lemma built_init: "built cache_init []"
  by (simp add: built_def cache_init_def)

lemma linked_nxt: "linked m p (ys @ (a, it) # zs) \<Longrightarrow> nxt it = (if zs = [] then NULL else fst (hd zs))"
proof (induction ys arbitrary: p)
  case Nil
  then show ?case by (auto dest: linked_head)
next
  case (Cons y ys)
  then show ?case by (cases y) auto
qed

lemma prv_same: "prv it = v \<Longrightarrow> it\<lparr>prv := v, nxt := x\<rparr> = it\<lparr>nxt := x\<rparr>" "prv it = v \<Longrightarrow> it\<lparr>prv := v\<rparr> = it"
  by auto

text \<open>An item that is not in the list goes to its front.\<close>

lemma move_new:
  assumes "built st xs" "new \<notin> fst ` set xs" "new \<noteq> NULL"
    and "prv it = NULL" "nxt it = NULL"
  shows "\<exists>st'. move_to_head new (st\<lparr>store := (store st)(new \<mapsto> it)\<rparr>) = Done st' \<and>
    built st' ((new, it\<lparr>nxt := head st\<rparr>) # xs) \<and> remainlen st' = remainlen st"
proof (cases xs)
  case Nil
  then have h: "head st = NULL" "tail st = NULL" using assms(1) by (auto simp: built_def)
  have "it\<lparr>nxt := NULL\<rparr> = it" using assms(5) by simp
  then show ?thesis
    using h Nil assms(3-5) by (simp add: move_to_head_def built_def)
next
  case (Cons x ys)
  obtain a ita where x: "x = (a, ita)" by force
  have b: "linked (store st) (head st) xs" "distinct (map fst xs)" "\<forall>(a, it) \<in> set xs. prv it = NULL"
    "tail st = fst (last xs)" "last xs \<in> set xs"
    using assms(1) Cons by (auto simp: built_def split: if_splits)
  have h: "head st = a" "a \<noteq> NULL" "a \<noteq> new" using b(1) Cons x assms(2) by auto
  have t: "tail st \<noteq> new" using b(4,5) assms(2) by (metis image_eqI)
  have l: "linked ((store st)(new \<mapsto> i)) (head st) xs" for i
    using b(1) by (rule iffD1 [OF linked_cong, rotated]) (use assms(2) in auto)
  have m: "move_to_head new (st\<lparr>store := (store st)(new \<mapsto> it)\<rparr>) =
      Done (st\<lparr>store := (store st)(new \<mapsto> it\<lparr>nxt := head st\<rparr>), head := new\<rparr>)"
    using h t assms(3-5) by (simp add: move_to_head_def item_at_Done set_prv_Done set_nxt_Done prv_same)
  show ?thesis
    unfolding m using l b assms(2-4) Cons by (auto simp: built_def)
qed

lemma evict_enough: "len \<le> remainlen st \<Longrightarrow> evict_loop n len st = Done st"
  by (simp add: evict_loop.simps)

lemma strcpy_exact:
  "CHR 0x00 \<notin> set s \<Longrightarrow> strcpy junk (length s + 1) (s @ CHR 0x00 # rest) = Done (s @ [CHR 0x00])"
proof -
  assume a: "CHR 0x00 \<notin> set s"
  then have "takeWhile (\<lambda>c. c \<noteq> CHR 0x00) (s @ CHR 0x00 # rest) = s" by (induction s) auto
  then show ?thesis by (simp add: strcpy_def Let_def)
qed

text \<open>What \<open>strcpy\<close> makes of an object: the same text up to the first NUL byte, and all of it if there is none.\<close>

definition same_text :: "string \<Rightarrow> string \<Rightarrow> bool" where
  "same_text t s \<longleftrightarrow> takeWhile (\<lambda>c. c \<noteq> CHR 0x00) t = takeWhile (\<lambda>c. c \<noteq> CHR 0x00) s \<and> (CHR 0x00 \<notin> set s \<longrightarrow> t = s)"

lemma strcpy_text: "\<exists>copy. strcpy junk (length s + 1) (s @ CHR 0x00 # rest) = Done copy \<and> same_text (take (length s) copy) s"
proof (cases "CHR 0x00 \<in> set s")
  case False
  then show ?thesis using strcpy_exact [OF False] by (simp add: same_text_def)
next
  case True
  let ?t = "takeWhile (\<lambda>c. c \<noteq> CHR 0x00) s"
  have t: "takeWhile (\<lambda>c. c \<noteq> CHR 0x00) (s @ CHR 0x00 # rest) = ?t" using True by (rule takeWhile_append1) simp
  have "length ?t \<noteq> length s" using True by (metis (full_types) set_takeWhileD takeWhile_eq_take take_all order_refl)
  then have l: "length ?t < length s" using length_takeWhile_le [of "\<lambda>c. c \<noteq> CHR 0x00" s] by linarith
  let ?x = "take (length s + 1 - length ?t - 1) (drop (length ?t + 1) junk)"
  have s: "strcpy junk (length s + 1) (s @ CHR 0x00 # rest) = Done (?t @ [CHR 0x00] @ ?x)"
    using l by (simp add: strcpy_def t Let_def)
  obtain k where k: "length s = length ?t + Suc k" using l less_iff_Suc_add [of "length ?t"] by auto
  have "takeWhile (\<lambda>c. c \<noteq> CHR 0x00) (take (length s) (?t @ [CHR 0x00] @ ?x)) = ?t"
  proof -
    have "take (length s) (?t @ [CHR 0x00] @ ?x) = ?t @ CHR 0x00 # take k ?x" unfolding k by simp
    moreover have "\<forall>c \<in> set ?t. c \<noteq> CHR 0x00" by (auto dest: set_takeWhileD)
    ultimately show ?thesis by (simp add: takeWhile_append2)
  qed
  then show ?thesis using s True by (simp add: same_text_def)
qed

lemma cache_add_built:
  assumes "built st xs" "new \<notin> fst ` set xs" "new \<noteq> NULL" "length s \<le> remainlen st"
  shows "\<exists>st' it. cache_add n new junk url (s @ CHR 0x00 # rest) (length s) st = Done st' \<and>
    built st' ((new, it) # xs) \<and> remainlen st' = remainlen st - length s \<and>
    tag it = url \<and> objectlen it = length s \<and> same_text (take (length s) (object it)) s"
proof -
  obtain copy where copy: "strcpy junk (length s + 1) (s @ CHR 0x00 # rest) = Done copy" "same_text (take (length s) copy) s"
    using strcpy_text by blast
  let ?it = "\<lparr>tag = url, object = copy, prv = NULL, nxt = NULL, objectlen = length s\<rparr>"
  let ?st = "st\<lparr>remainlen := remainlen st - length s\<rparr>"
  have "built ?st xs" using assms(1) by (simp add: built_def)
  from move_new [OF this assms(2,3), of ?it] obtain st' where st':
    "move_to_head new (?st\<lparr>store := (store ?st)(new \<mapsto> ?it)\<rparr>) = Done st'"
    "built st' ((new, ?it\<lparr>nxt := head ?st\<rparr>) # xs)" "remainlen st' = remainlen ?st" by auto
  have "cache_add n new junk url (s @ CHR 0x00 # rest) (length s) st = Done st'"
    using st'(1) copy(1) by (simp add: cache_add_def evict_enough assms(4) Let_def)
  with st' copy(2) show ?thesis by (intro exI [of _ st'] exI [of _ "?it\<lparr>nxt := head ?st\<rparr>"]) simp
qed

section \<open>Searching\<close>

lemma search_simps [simp]:
  "search n url NULL st = Done NULL"
  "p \<noteq> NULL \<Longrightarrow> search 0 url p st = Running"
  "p \<noteq> NULL \<Longrightarrow> search (Suc n) url p st = bind (item_at p st) (\<lambda>it. if tag it = url then Done p else search n url (nxt it) st)"
  by (simp_all add: search.simps)

lemma search_linked:
  assumes "linked (store st) p xs" "length xs \<le> n"
  shows "search n url p st = (case find (\<lambda>(a, it). tag it = url) xs of Some (a, it) \<Rightarrow> Done a | None \<Rightarrow> Done NULL)"
  using assms
proof (induction xs arbitrary: p n)
  case (Cons x xs)
  then show ?case by (cases x; cases n) (auto simp: item_at_Done)
qed simp


text \<open>A ring: from its items the search for any other tag goes round.\<close>

lemma search_ring:
  assumes "ring \<noteq> []" "\<And>i. i < length ring \<Longrightarrow> ring ! i \<noteq> NULL \<and>
      (\<exists>it. store st (ring ! i) = Some it \<and> nxt it = ring ! (Suc i mod length ring) \<and> tag it \<noteq> url)"
    and "i < length ring"
  shows "search n url (ring ! i) st = Running"
  using assms(3)
proof (induction n arbitrary: i)
  case 0
  with assms(2) show ?case by simp
next
  case (Suc n)
  from assms(2) [OF Suc.prems] obtain it where it: "ring ! i \<noteq> NULL" "store st (ring ! i) = Some it"
    "nxt it = ring ! (Suc i mod length ring)" "tag it \<noteq> url" by blast
  have "Suc i mod length ring < length ring" using assms(1) by simp
  from Suc.IH [OF this] it show ?case by (simp add: item_at_Done)
qed

lemma linked_nth:
  "linked m p xs \<Longrightarrow> i < length xs \<Longrightarrow> Suc i < length xs \<Longrightarrow> nxt (snd (xs ! i)) = fst (xs ! Suc i)"
proof (induction m p xs arbitrary: i rule: linked.induct)
  case (2 m p a it xs)
  then show ?case by (cases i; cases xs) auto
qed simp

text \<open>Promoting an item that is not the first one: its predecessor still points to it, so the items
  up to it become a ring.\<close>

lemma move_old:
  assumes "built st xs" "xs = ys @ (a, it) # zs" "ys \<noteq> []"
  shows "\<exists>st'. move_to_head a st = Done st' \<and> head st' = a \<and>
    store st' a = Some (it\<lparr>nxt := head st\<rparr>) \<and> (\<forall>b. b \<noteq> a \<longrightarrow> store st' b = store st b) \<and>
    remainlen st' = remainlen st \<and> tail st' = (if zs = [] then NULL else tail st)"
proof -
  have b: "linked (store st) (head st) xs" "distinct (map fst xs)" "\<forall>(a, it) \<in> set xs. prv it = NULL"
    "tail st = fst (last xs)" using assms by (auto simp: built_def split: if_splits)
  have a: "store st a = Some it" "a \<noteq> NULL" "prv it = NULL" using b(1,3) assms(2) linked_member [OF b(1)] by auto
  have h: "head st \<noteq> a" "head st \<noteq> NULL" using linked_head [OF b(1)] b(2) assms(2,3) linked_member [OF b(1), of "fst (hd ys)" "snd (hd ys)"]
    by (cases ys; auto)+
  show ?thesis
  proof (cases zs)
    case Nil
    have n: "nxt it = NULL" "tail st = a" using linked_nxt b(1,4) assms(2) Nil by (metis fst_conv last_snoc)+
    show ?thesis
      using h a n Nil by (simp add: move_to_head_def item_at_Done set_prv_Done set_nxt_Done prv_same)
  next
    case (Cons z zs')
    obtain c itc where z: "z = (c, itc)" by force
    have t: "tail st \<noteq> a" using b(2,4) assms(2) Cons by auto
    have n: "nxt it = c" using linked_nxt [of "store st" "head st" ys a it zs] b(1) assms(2) Cons z by simp
    have c: "store st c = Some itc" "c \<noteq> NULL" "prv itc = NULL" "c \<noteq> a"
      using linked_member [OF b(1), of c itc] b(2,3) assms(2) Cons z by auto
    show ?thesis
      using h a n t c Cons by (simp add: move_to_head_def item_at_Done set_prv_Done set_nxt_Done prv_same fun_upd_idem)
  qed
qed

end
