(* ===== verification/Proxy.thy ===== *)
theory Proxy
  imports Csapp ProxyCache
begin

text \<open>
  One thread of the caching proxy, \<open>run_thread\<close> of \<open>proxylab-handout/proxy.c\<close>: the request line,
  the cache, the request it forwards, and the response it passes on and stores.  \<open>Fault\<close> is an
  access outside a buffer.  Opening the connection to the server is the parameter \<open>connect\<close>,
  which maps host and port to the descriptor to read from; what is written to a descriptor is
  what the code hands to \<open>rio_writen\<close>.  Texts end at their first NUL byte.
\<close>

section \<open>The library functions it uses\<close>

definition MAXLINE :: nat where "MAXLINE = 8192"
definition MAXBUF :: nat where "MAXBUF = 8192"

definition c_str :: "string \<Rightarrow> string" where
  "c_str s = takeWhile (\<lambda>c. c \<noteq> CHR 0x00) s"

text \<open>One conversion of \<open>sscanf\<close>: the longest nonempty run of characters with \<open>P\<close>, stored with its
  NUL into a buffer of \<open>cap\<close> bytes.  \<open>Done None\<close> is a matching failure.\<close>

definition scan :: "(char \<Rightarrow> bool) \<Rightarrow> nat \<Rightarrow> string \<Rightarrow> (string \<times> string) option run" where
  "scan P cap s =
     (let w = takeWhile P s in
      if w = [] then Done None
      else if length w < cap then Done (Some (w, dropWhile P s)) else Fault)"

definition scan_s :: "nat \<Rightarrow> string \<Rightarrow> (string \<times> string) option run" where
  "scan_s cap s = scan (\<lambda>c. \<not> isspace c) cap (dropWhile isspace s)"

definition bind_scan :: "'a option run \<Rightarrow> ('a \<Rightarrow> 'b option run) \<Rightarrow> 'b option run" where
  "bind_scan r f = bind r (\<lambda>x. case x of None \<Rightarrow> Done None | Some x \<Rightarrow> f x)"

text \<open>A literal in the format: \<open>Done None\<close> when the input does not continue with it.\<close>

definition scan_lit :: "string \<Rightarrow> string \<Rightarrow> string option run" where
  "scan_lit l s = Done (if take (length l) s = l then Some (drop (length l) s) else None)"

fun strstr :: "string \<Rightarrow> string \<Rightarrow> bool" where
  "strstr [] pat \<longleftrightarrow> pat = []"
| "strstr (c # s) pat \<longleftrightarrow> take (length pat) (c # s) = pat \<or> strstr s pat"

definition lower :: "string \<Rightarrow> string" where
  "lower = map (\<lambda>c. if 65 \<le> (of_char c :: nat) \<and> (of_char c :: nat) \<le> 90 then char_of (of_char c + 32 :: nat) else c)"

section \<open>The request\<close>

definition parse_request :: "string \<Rightarrow> (string \<times> string \<times> string) option run" where
  "parse_request req =
     bind_scan (scan_s 8 req) (\<lambda>(method, s).
     bind_scan (scan_s MAXLINE s) (\<lambda>(url, s).
     bind_scan (scan_s 16 s) (\<lambda>(version, s). Done (Some (method, url, version)))))"

definition parse_url :: "string \<Rightarrow> (string \<times> string) option run" where
  "parse_url url =
     (if strstr url ''://'' then
        bind_scan (scan (\<lambda>c. c \<noteq> CHR '':'') 8 url) (\<lambda>(protocol, s).
        bind_scan (scan_lit ''://'' s) (\<lambda>s.
        bind_scan (scan (\<lambda>c. c \<noteq> CHR ''/'') MAXLINE s) (\<lambda>(hostname, s).
        bind_scan (scan_s MAXLINE s) (\<lambda>(resource, s). Done (Some (hostname, resource))))))
      else
        bind_scan (scan (\<lambda>c. c \<noteq> CHR ''/'') MAXLINE url) (\<lambda>(hostname, s).
        bind_scan (scan_s MAXLINE s) (\<lambda>(resource, s). Done (Some (hostname, resource)))))"

definition split_port :: "string \<Rightarrow> (string \<times> string) run" where
  "split_port hostname =
     (if strstr hostname '':'' then
        let port = tl (dropWhile (\<lambda>c. c \<noteq> CHR '':'') hostname)
        in if length port < 8 then Done (takeWhile (\<lambda>c. c \<noteq> CHR '':'') hostname, port) else Fault
      else Done (hostname, ''80''))"

definition CRLF :: string where "CRLF = [CHR 0x0D, CHR 0x0A]"
definition user_agent_hdr :: string where
  "user_agent_hdr = ''User-Agent: Mozilla/5.0 (X11; Linux x86_64; rv:10.0.3) Gecko/20120305 Firefox/10.0.3'' @ CRLF"
definition conn_hdr :: string where "conn_hdr = ''Connection: close'' @ CRLF"
definition proxy_conn_hdr :: string where "proxy_conn_hdr = ''Proxy-Connection: close'' @ CRLF"

text \<open>\<open>strcat\<close> onto \<open>req_fwd\<close>, which has \<open>MAXBUF\<close> bytes.\<close>

definition strcat :: "string \<Rightarrow> string \<Rightarrow> string run" where
  "strcat req_fwd s = (if length req_fwd + length s < MAXBUF then Done (req_fwd @ s) else Fault)"

fun strcat_all :: "string \<Rightarrow> string list \<Rightarrow> string run" where
  "strcat_all req_fwd [] = Done req_fwd"
| "strcat_all req_fwd (s # ss) = bind (strcat req_fwd s) (\<lambda>r. strcat_all r ss)"

definition fwd_start :: "string \<Rightarrow> string \<Rightarrow> string \<Rightarrow> string \<Rightarrow> string run" where
  "fwd_start method resource hostname port =
     strcat_all method ['' '', resource, '' '', ''HTTP/1.0'' @ CRLF, ''Host: '', hostname, '':'', port, CRLF,
       user_agent_hdr, conn_hdr, proxy_conn_hdr]"

definition own_header :: "string \<Rightarrow> bool" where
  "own_header req \<longleftrightarrow> strstr req ''Host:'' \<or> strstr req ''User-Agent:'' \<or>
     strstr req ''Connection:'' \<or> strstr req ''Proxy-Connection:''"

text \<open>The loop over the header lines of the client, at most \<open>n\<close> rounds.\<close>

fun fwd_headers :: "nat \<Rightarrow> rio_t \<Rightarrow> string \<Rightarrow> string run" where
  "fwd_headers 0 rio req_fwd = Running"
| "fwd_headers (Suc n) rio req_fwd =
     (case rio_readlineb MAXBUF rio of
        None \<Rightarrow> Done req_fwd
      | Some (line, rio) \<Rightarrow>
          if line = [] then Done req_fwd
          else let req = c_str line in
            if req = CRLF then strcat req_fwd req
            else if own_header req then fwd_headers n rio req_fwd
            else bind (strcat req_fwd req) (fwd_headers n rio))"

section \<open>The response\<close>

text \<open>The loop over the response: what goes to the client, and what is kept for the cache.  The
  result of \<open>Rio_readnb\<close> is stored in an unsigned variable, so an error counts as a huge length.\<close>

fun fwd_response :: "nat \<Rightarrow> rio_t \<Rightarrow> string \<Rightarrow> string \<Rightarrow> (string \<times> string) run" where
  "fwd_response 0 rio sent obj = Running"
| "fwd_response (Suc n) rio sent obj =
     (case rio_readnb MAXBUF rio of
        None \<Rightarrow> Fault
      | Some (resp, rio) \<Rightarrow>
          if resp = [] then Done (sent, obj)
          else fwd_response n rio (sent @ resp)
            (if length obj + length resp \<le> MAX_OBJECT_SIZE then obj @ resp else obj))"

definition zero_filled :: "string \<Rightarrow> string" where
  "zero_filled obj = obj @ replicate (MAX_OBJECT_SIZE - length obj) (CHR 0x00)"

section \<open>The thread\<close>

text \<open>A GET request that was not in the cache: what the thread writes to the client, the requests it
  sends, and the cache it leaves.\<close>

definition forward :: "nat \<Rightarrow> (string \<Rightarrow> string \<Rightarrow> rd_reply list option) \<Rightarrow> nat \<Rightarrow> string \<Rightarrow> string \<Rightarrow> string \<Rightarrow>
    rio_t \<Rightarrow> CacheList \<Rightarrow> (string \<times> string list \<times> CacheList) run" where
  "forward n connect new junk method url rio cache =
     bind (parse_url url) (\<lambda>p. case p of None \<Rightarrow> Done ([], [], cache) | Some (hostname, resource) \<Rightarrow>
     bind (split_port hostname) (\<lambda>(hostname, port).
     bind (fwd_start method resource hostname port) (\<lambda>req_fwd.
     bind (fwd_headers n rio req_fwd) (\<lambda>req_fwd.
     case connect hostname port of
       None \<Rightarrow> Done ([], [], cache)
     | Some server \<Rightarrow>
       bind (fwd_response n (rio_readinitb server) [] []) (\<lambda>(sent, obj).
       bind (cache_add n new junk url (zero_filled obj) (length obj) cache) (\<lambda>cache.
       Done (sent, [req_fwd], cache)))))))"

text \<open>A client that sends nothing leaves \<open>req\<close> uninitialised.\<close>

definition run_thread :: "nat \<Rightarrow> (string \<Rightarrow> string \<Rightarrow> rd_reply list option) \<Rightarrow> nat \<Rightarrow> string \<Rightarrow> rd_reply list \<Rightarrow>
    CacheList \<Rightarrow> (string \<times> string list \<times> CacheList) run" where
  "run_thread n connect new junk client cache =
     (case rio_readlineb MAXBUF (rio_readinitb client) of
        None \<Rightarrow> Done ([], [], cache)
      | Some (req, rio) \<Rightarrow>
        if req = [] then Fault
        else
        bind (parse_request (c_str req)) (\<lambda>p. case p of None \<Rightarrow> Done ([], [], cache) | Some (method, url, version) \<Rightarrow>
        bind (cache_lookup n url cache) (\<lambda>(len, object, cache).
        if len > 0 then Done (object, [], cache)
        else if lower method \<noteq> ''get'' then Done ([], [], cache)
        else forward n connect new junk method url rio cache)))"

end
