(* ===== verification/ProxyCacheProps.thy ===== *)
theory ProxyCacheProps
  imports ProxyCache
begin

text \<open>
  What the proxy cache guarantees while it is only filled, and what goes wrong at the first lookup of an
  older object and at the first eviction.
\<close>

section \<open>Filling the cache\<close>

text \<open>Adding objects \<open>(url, contents, address)\<close> in turn, each from a buffer with a terminating NUL.\<close>

fun add_all :: "(nat \<Rightarrow> string) \<Rightarrow> (string \<times> string \<times> nat) list \<Rightarrow> CacheList \<Rightarrow> CacheList run" where
  "add_all junk [] st = Done st"
| "add_all junk ((url, s, new) # as) st =
     bind (cache_add 0 new (junk new) url (s @ [CHR 0x00]) (length s) st) (add_all junk as)"

definition used :: "(string \<times> string \<times> nat) list \<Rightarrow> nat" where
  "used as = sum_list (map (\<lambda>(u, s, a). length s) as)"

text \<open>Objects at addresses of their own that fit together.\<close>

definition fits :: "(string \<times> string \<times> nat) list \<Rightarrow> bool" where
  "fits as \<longleftrightarrow> distinct (map (\<lambda>(u, s, a). a) as) \<and> list_all (\<lambda>(u, s, a). a \<noteq> NULL) as \<and>
     used as \<le> MAX_CACHE_SIZE"

definition same_item :: "nat \<times> CacheItem \<Rightarrow> string \<times> string \<times> nat \<Rightarrow> bool" where
  "same_item x y \<longleftrightarrow> (case (x, y) of ((a, it), (u, s, b)) \<Rightarrow>
     a = b \<and> tag it = u \<and> objectlen it = length s \<and> same_text (take (length s) (object it)) s)"

definition url_of :: "string \<times> string \<times> nat \<Rightarrow> string" where
  "url_of = fst"

lemma same_item_fst: "list_all2 same_item xs ys \<Longrightarrow> map fst xs = map (\<lambda>(u, s, a). a) ys"
  by (induction rule: list_all2_induct) (auto simp: same_item_def)

lemma same_item_tags: "list_all2 same_item xs ys \<Longrightarrow> map (\<lambda>x. tag (snd x)) xs = map url_of ys"
  by (induction rule: list_all2_induct) (auto simp: same_item_def url_of_def)

lemma same_item_tag_set: "list_all2 same_item xs (rev as) \<Longrightarrow> (\<lambda>x. tag (snd x)) ` set xs = url_of ` set as"
  using same_item_tags by (metis list.set_map set_rev)

lemma add_all_append: "add_all junk (as @ bs) st = bind (add_all junk as st) (add_all junk bs)"
proof (induction as arbitrary: st)
  case (Cons a as)
  obtain u s n where a: "a = (u, s, n)" by (cases a)
  show ?case
    by (cases "cache_add 0 n (junk n) u (s @ [CHR 0x00]) (length s) st") (simp_all add: a Cons)
qed simp

lemma add_all_built:
  assumes "fits as"
  shows "\<exists>st xs. add_all junk as cache_init = Done st \<and> built st xs \<and> list_all2 same_item xs (rev as) \<and>
    remainlen st = MAX_CACHE_SIZE - used as"
  using assms
proof (induction as rule: rev_induct)
  case Nil
  then show ?case using built_init by (intro exI [of _ cache_init] exI [of _ "[]"]) (simp add: used_def cache_init_def)
next
  case (snoc a as)
  obtain u s n where a: "a = (u, s, n)" by (cases a)
  have f: "fits as" "n \<noteq> NULL" "n \<notin> (\<lambda>(u, s, a). a) ` set as" "used as + length s \<le> MAX_CACHE_SIZE"
    using snoc.prems by (auto simp: fits_def a used_def)
  from snoc.IH [OF f(1)] obtain st xs where st: "add_all junk as cache_init = Done st" "built st xs"
    "list_all2 same_item xs (rev as)" "remainlen st = MAX_CACHE_SIZE - used as" by blast
  have "set (map fst xs) = (\<lambda>(u, s, a). a) ` set as" unfolding same_item_fst [OF st(3)] by simp
  then have "n \<notin> fst ` set xs" using f(3) by simp
  moreover have "length s \<le> remainlen st" using st(4) f(4) by simp
  ultimately obtain st' it where st': "cache_add 0 n (junk n) u (s @ [CHR 0x00]) (length s) st = Done st'"
    "built st' ((n, it) # xs)" "remainlen st' = remainlen st - length s" "tag it = u" "objectlen it = length s"
    "same_text (take (length s) (object it)) s"
    using cache_add_built [OF st(2) _ f(2), of s 0 "junk n" u "[]"] by auto
  have "remainlen st' = MAX_CACHE_SIZE - used (as @ [a])" using st'(3) st(4) by (simp add: used_def a)
  moreover have "list_all2 same_item ((n, it) # xs) (rev (as @ [a]))"
    using st(3) st'(4-6) by (simp add: same_item_def a)
  ultimately show ?case using st(1) st'(1,2) by (auto simp: add_all_append a)
qed

lemma find_same:
  "list_all2 same_item xs ys \<Longrightarrow>
   (case find (\<lambda>(a, it). tag it = url) xs of
      None \<Rightarrow> map_of (map (\<lambda>(u, s, a). (u, s)) ys) url = None
    | Some (a, it) \<Rightarrow> (a, it) \<in> set xs \<and> tag it = url \<and>
        (\<exists>s. map_of (map (\<lambda>(u, s, a). (u, s)) ys) url = Some s \<and> objectlen it = length s \<and>
          same_text (take (objectlen it) (object it)) s))"
proof (induction rule: list_all2_induct)
  case (Cons x xs y ys)
  obtain a it u s b where xy: "x = (a, it)" "y = (u, s, b)" by (cases x, cases y)
  with Cons(1) have e: "tag it = u" "objectlen it = length s" "same_text (take (length s) (object it)) s"
    by (auto simp: same_item_def)
  show ?case
  proof (cases "u = url")
    case True
    then show ?thesis using e by (simp add: xy)
  next
    case False
    then show ?thesis using e Cons(3) by (auto simp: xy split: option.splits)
  qed
qed simp

text \<open>Looking up in a list that is still intact.\<close>

lemma lookup_built:
  assumes "built st xs" "length xs \<le> n"
  shows "case find (\<lambda>(a, it). tag it = url) xs of
      None \<Rightarrow> cache_lookup n url st = Done (0, [], st)
    | Some (a, it) \<Rightarrow> \<exists>st'. move_to_head a st = Done st' \<and>
        cache_lookup n url st = Done (objectlen it, take (objectlen it) (object it), st')"
proof -
  have l: "linked (store st) (head st) xs" using assms(1) by (simp add: built_def)
  note s = search_linked [of st "head st" xs n url, OF l assms(2)]
  show ?thesis
  proof (cases "find (\<lambda>(a, it). tag it = url) xs")
    case None
    then show ?thesis using s by (simp add: cache_lookup_def)
  next
    case (Some x)
    obtain a it where x: "x = (a, it)" "(a, it) \<in> set xs"
      using Some by (metis find_Some_iff nth_mem surj_pair)
    have m: "store st a = Some it" "a \<noteq> NULL" using linked_member [OF l x(2)] by auto
    have "\<exists>st'. move_to_head a st = Done st'"
    proof (cases "head st = a")
      case True
      then show ?thesis by (simp add: move_to_head_def)
    next
      case False
      obtain ys zs where "xs = ys @ (a, it) # zs" using x(2) by (auto simp: in_set_conv_decomp)
      moreover have "ys \<noteq> []" using calculation False linked_head [OF l] by auto
      ultimately show ?thesis using move_old [OF assms(1)] by blast
    qed
    then show ?thesis using s Some x m by (auto simp: cache_lookup_def item_at_Done)
  qed
qed

text \<open>C20: after any number of additions that fit into the cache together, looking up an address finds the
  object that was added under it last, with its length, and nothing if there was none.  An object without NUL bytes
  is found byte for byte; any other one is right up to its first NUL byte, where \<open>strcpy\<close> stopped.\<close>

theorem cache_finds_latest:
  assumes "fits as" and "length as \<le> n"
  shows "\<exists>st. add_all junk as cache_init = Done st \<and>
    (case map_of (map (\<lambda>(u, s, a). (u, s)) (rev as)) url of
       None \<Rightarrow> cache_lookup n url st = Done (0, [], st)
     | Some s \<Rightarrow> \<exists>t st'. cache_lookup n url st = Done (length s, t, st') \<and>
         takeWhile (\<lambda>c. c \<noteq> CHR 0x00) t = takeWhile (\<lambda>c. c \<noteq> CHR 0x00) s \<and> (CHR 0x00 \<notin> set s \<longrightarrow> t = s))"
proof -
  obtain st xs where st: "add_all junk as cache_init = Done st" "built st xs" "list_all2 same_item xs (rev as)"
    using add_all_built [OF assms(1)] by blast
  have "length xs \<le> n" using list_all2_lengthD [OF st(3)] assms(2) by simp
  from lookup_built [OF st(2) this, of url] find_same [OF st(3), of url] st(1)
  show ?thesis by (cases "find (\<lambda>(a, it). tag it = url) xs") (auto simp: same_text_def)
qed

theorem cache_finds_latest_witness:
  "\<exists>st. add_all (\<lambda>_. ''old'') [(''a/'', ''one'', 8), (''b/'', ''two'', 16), (''a/'', ''new'', 24)] cache_init = Done st \<and>
    (\<exists>st'. cache_lookup 3 ''a/'' st = Done (3, ''new'', st'))"
proof -
  have "fits [(''a/'', ''one'', 8), (''b/'', ''two'', 16), (''a/'', ''new'', 24)]"
    by (simp add: fits_def used_def MAX_CACHE_SIZE_def)
  moreover have "length [(''a/'', ''one'', 8 :: nat), (''b/'', ''two'', 16), (''a/'', ''new'', 24)] \<le> 3" by simp
  moreover have "map_of (map (\<lambda>(u, s, a). (u, s)) (rev [(''a/'', ''one'', 8 :: nat), (''b/'', ''two'', 16), (''a/'', ''new'', 24)])) ''a/'' = Some ''new''"
    by simp
  ultimately obtain st where "add_all (\<lambda>_. ''old'') [(''a/'', ''one'', 8), (''b/'', ''two'', 16), (''a/'', ''new'', 24)] cache_init = Done st"
    "\<exists>t st'. cache_lookup 3 ''a/'' st = Done (length ''new'', t, st') \<and> (CHR 0x00 \<notin> set ''new'' \<longrightarrow> t = ''new'')"
    using cache_finds_latest [of "[(''a/'', ''one'', 8), (''b/'', ''two'', 16), (''a/'', ''new'', 24)]" 3 "\<lambda>_. ''old''" "''a/''"]
    by (auto simp del: length_Cons)
  moreover have "CHR 0x00 \<notin> set ''new''" "length ''new'' = 3" by simp_all
  ultimately show ?thesis by auto
qed

text \<open>A binary object comes back with what the memory held behind its first NUL byte.\<close>

theorem cache_cuts_at_nul:
  "\<exists>st st'. cache_add 0 8 ''zzzzzz'' ''a/'' (''ab'' @ CHR 0x00 # ''cd'' @ [CHR 0x00]) 5 cache_init = Done st \<and>
    cache_lookup 1 ''a/'' st = Done (5, ''ab'' @ CHR 0x00 # ''zz'', st')"
  by (simp add: cache_add_def evict_enough strcpy_def cache_init_def move_to_head_def MAX_CACHE_SIZE_def
      cache_lookup_def item_at_def Let_def)

text \<open>What promoting an item to the head leaves: the items up to it are a ring.\<close>

lemma promoted_ring:
  assumes "built st xs" "xs = ys @ (c, itc) # zs" "ys \<noteq> []" "store st' c = Some (itc\<lparr>nxt := head st\<rparr>)"
    and "\<forall>b. b \<noteq> c \<longrightarrow> store st' b = store st b" and "\<forall>x \<in> set xs. tag (snd x) \<noteq> url"
  shows "search k url c st' = Running"
proof -
  have l: "linked (store st) (head st) xs" "distinct (map fst xs)" using assms(1) by (auto simp: built_def)
  let ?ring = "c # map fst ys"
  have "search k url (?ring ! 0) st' = Running"
  proof (rule search_ring)
    fix j assume j: "j < length ?ring"
    show "?ring ! j \<noteq> NULL \<and>
      (\<exists>it. store st' (?ring ! j) = Some it \<and> nxt it = ?ring ! (Suc j mod length ?ring) \<and> tag it \<noteq> url)"
    proof (cases j)
      case 0
      have "fst (hd ys) = head st" using linked_head [OF l(1)] assms(2,3) by simp
      then have "?ring ! (Suc 0 mod length ?ring) = head st" using assms(3) by (cases ys) auto
      moreover have "c \<noteq> NULL" using linked_member [OF l(1)] assms(2) by fastforce
      ultimately show ?thesis using 0 assms(2,4,6) by simp
    next
      case (Suc m)
      obtain b itb where b: "ys ! m = (b, itb)" by force
      have m: "m < length ys" "xs ! m = (b, itb)" using j Suc b assms(2) by (simp_all add: nth_append)
      have mem: "(b, itb) \<in> set ys" using m(1) b nth_mem by fastforce
      then have "b \<noteq> c" using l(2) assms(2) by force
      moreover have "nxt itb = fst (xs ! Suc m)"
        using linked_nth [OF l(1), of m] m assms(2) by simp
      moreover have "fst (xs ! Suc m) = ?ring ! (Suc j mod length ?ring)"
        using m(1) Suc assms(2) by (cases "Suc m = length ys") (auto simp: nth_append)
      moreover have "store st b = Some itb" "b \<noteq> NULL" "tag itb \<noteq> url"
        using linked_member [OF l(1), of b itb] mem assms(2,6) by force+
      ultimately show ?thesis using assms(5) Suc b m(1) by simp
    qed
  qed simp_all
  then show ?thesis by simp
qed

text \<open>C21: looking up an object other than the one added last ties the list into a ring: the lookup
  itself succeeds, but after it every lookup of an address that is not in the cache runs for ever.\<close>

theorem lookup_after_promotion_never_returns:
  assumes "fits (as @ [(u, s, a)])" and "url \<in> url_of ` set as" and "url \<noteq> u"
    and "other \<notin> insert u (url_of ` set as)" and "length as < n"
  shows "\<exists>st len obj st'. add_all junk (as @ [(u, s, a)]) cache_init = Done st \<and>
    cache_lookup n url st = Done (len, obj, st') \<and> (\<forall>k. cache_lookup k other st' = Running)"
proof -
  obtain st xs where st: "add_all junk (as @ [(u, s, a)]) cache_init = Done st" "built st xs"
    "list_all2 same_item xs ((u, s, a) # rev as)"
    using add_all_built [OF assms(1), of junk] by auto
  obtain it0 xs' where xs: "xs = (a, it0) # xs'" "tag it0 = u" "list_all2 same_item xs' (rev as)"
    using st(3) by (auto simp: list_all2_Cons2 same_item_def)
  have tags: "(\<lambda>x. tag (snd x)) ` set xs' = url_of ` set as" by (rule same_item_tag_set [OF xs(3)])
  from assms(2) obtain b itb where "(b, itb) \<in> set xs'" "tag itb = url" unfolding tags [symmetric] by auto
  then have "find (\<lambda>(a, it). tag it = url) xs \<noteq> None" unfolding find_None_iff xs(1) by auto
  then obtain c itc where f: "find (\<lambda>(a, it). tag it = url) xs = Some (c, itc)" by auto
  then obtain i where i: "i < length xs" "xs ! i = (c, itc)" "tag itc = url" by (auto simp: find_Some_iff)
  have split: "xs = take i xs @ (c, itc) # drop (Suc i) xs" using id_take_nth_drop [OF i(1)] i(2) by simp
  have ne: "take i xs \<noteq> []" using i xs assms(3) by (cases i) auto
  from move_old [OF st(2) split ne] obtain st' where st': "move_to_head c st = Done st'" "head st' = c"
    "store st' c = Some (itc\<lparr>nxt := head st\<rparr>)" "\<forall>b. b \<noteq> c \<longrightarrow> store st' b = store st b" by blast
  have "length xs \<le> n" using list_all2_lengthD [OF st(3)] assms(5) by simp
  then have "cache_lookup n url st = Done (objectlen itc, take (objectlen itc) (object itc), st')"
    using lookup_built [OF st(2), of n url] f st'(1) by simp
  moreover have "\<forall>x \<in> set xs. tag (snd x) \<noteq> other" using assms(4) xs(1,2) tags by auto
  then have "cache_lookup k other st' = Running" for k
    using promoted_ring [OF st(2) split ne st'(3,4)] st'(2) by (simp add: cache_lookup_def)
  ultimately show ?thesis using st(1) by blast
qed

theorem lookup_after_promotion_never_returns_witness:
  "\<exists>st len obj st'. add_all (\<lambda>_. []) ([(''a/'', ''one'', 8)] @ [(''b/'', ''two'', 16)]) cache_init = Done st \<and>
    cache_lookup 2 ''a/'' st = Done (len, obj, st') \<and> (\<forall>k. cache_lookup k ''c/'' st' = Running)"
  by (rule lookup_after_promotion_never_returns) (simp_all add: fits_def used_def MAX_CACHE_SIZE_def url_of_def)

text \<open>The freed last item of a list is still linked from the item before it.\<close>

lemma search_dangling:
  assumes "linked m p (xs @ [(a, it)])" "store st a = None" "\<And>b. b \<in> fst ` set xs \<Longrightarrow> store st b = m b"
    and "\<And>b itb. (b, itb) \<in> set xs \<Longrightarrow> tag itb \<noteq> url" and "length xs < n"
  shows "search n url p st = Fault"
  using assms(1,3-)
proof (induction xs arbitrary: p n)
  case Nil
  then show ?case using assms(2) by (cases n) (auto simp: item_at_def)
next
  case (Cons x xs)
  obtain b itb where x: "x = (b, itb)" by force
  then obtain k where n: "n = Suc k" "length xs < k" using Cons.prems(4) by (cases n) auto
  have "store st b = Some itb" "b \<noteq> NULL" "p = b" "tag itb \<noteq> url" "linked m (nxt itb) (xs @ [(a, it)])"
    using Cons.prems(1,2,3) x by auto
  moreover have "search k url (nxt itb) st = Fault"
    by (rule Cons.IH) (use Cons.prems x calculation n in auto)
  ultimately show ?case by (simp add: n item_at_Done)
qed

text \<open>Adding an object for which the last one has to go.\<close>

lemma add_evicts:
  assumes "built st (xs @ [(a, it)])" "remainlen st < length obj" "length obj \<le> remainlen st + objectlen it"
    and "new \<noteq> NULL" "new \<notin> fst ` set (xs @ [(a, it)])" "CHR 0x00 \<notin> set obj"
  shows "\<exists>st'. cache_add 1 new [] url (obj @ [CHR 0x00]) (length obj) st = Done st' \<and> head st' = new \<and>
    (\<exists>itn. store st' new = Some itn \<and> tag itn = url \<and> nxt itn = head st) \<and> store st' a = None \<and>
    (\<forall>b. b \<noteq> a \<longrightarrow> b \<noteq> new \<longrightarrow> store st' b = store st b)"
proof -
  let ?xs = "xs @ [(a, it)]"
  have l: "linked (store st) (head st) ?xs" "tail st = a" "prv it = NULL" using assms(1) by (auto simp: built_def)
  have a: "store st a = Some it" "a \<noteq> NULL" using linked_member [OF l(1), of a it] by auto
  have "hd ?xs \<in> set ?xs" by (rule list.set_sel) simp
  then have h: "head st \<noteq> NULL" "head st \<noteq> new"
    using linked_head [OF l(1)] linked_member [OF l(1), of "fst (hd ?xs)" "snd (hd ?xs)"] assms(5) by auto
  have "new \<noteq> a" using assms(5) by auto
  let ?e = "st\<lparr>tail := NULL, remainlen := remainlen st + objectlen it, store := (store st)(a := None)\<rparr>"
  have e: "evict_loop 1 (length obj) st = Done ?e"
    using assms(2,3) a l(2,3) by (subst evict_loop.simps) (simp add: cache_evict_def item_at_Done evict_enough)
  show ?thesis
    using e strcpy_exact [OF assms(6), of "[]" "[]"] h assms(4) \<open>new \<noteq> a\<close>
    by (simp add: cache_add_def Let_def move_to_head_def item_at_Done set_prv_Done set_nxt_Done)
qed

text \<open>C22: when an addition has to evict the oldest object, the item before it keeps pointing to the
  freed one: the next lookup of an address that is not in the cache reads freed memory.\<close>

theorem lookup_after_eviction_faults:
  assumes "fits ((u, s, a) # as)" and "new \<noteq> NULL" and "new \<notin> (\<lambda>(u, s, a). a) ` set ((u, s, a) # as)"
    and "CHR 0x00 \<notin> set obj" and "MAX_CACHE_SIZE < used ((u, s, a) # as) + length obj"
    and "used as + length obj \<le> MAX_CACHE_SIZE"
    and "other \<notin> insert url (url_of ` set as)" and "length as + 2 \<le> k"
  shows "\<exists>st st'. add_all junk ((u, s, a) # as) cache_init = Done st \<and>
    cache_add 1 new [] url (obj @ [CHR 0x00]) (length obj) st = Done st' \<and> cache_lookup k other st' = Fault"
proof -
  obtain st xs where st: "add_all junk ((u, s, a) # as) cache_init = Done st" "built st xs"
    "list_all2 same_item xs (rev as @ [(u, s, a)])" "remainlen st = MAX_CACHE_SIZE - used ((u, s, a) # as)"
    using add_all_built [OF assms(1), of junk] by auto
  obtain xs' it where xs: "xs = xs' @ [(a, it)]" "list_all2 same_item xs' (rev as)" "objectlen it = length s"
    using st(3) by (auto simp: list_all2_append2 list_all2_Cons2 same_item_def)
  have l: "linked (store st) (head st) (xs' @ [(a, it)])" "distinct (map fst xs)"
    using st(2) xs(1) by (auto simp: built_def)
  have u: "used ((u, s, a) # as) = length s + used as" by (simp add: used_def)
  have "used ((u, s, a) # as) \<le> MAX_CACHE_SIZE" using assms(1) by (simp add: fits_def)
  then have r: "remainlen st < length obj" "length obj \<le> remainlen st + objectlen it"
    using st(4) assms(5,6) u xs(3) by auto
  have "set (map fst xs) = (\<lambda>(u, s, a). a) ` set ((u, s, a) # as)" unfolding same_item_fst [OF st(3)] by auto
  then have new: "new \<notin> fst ` set (xs' @ [(a, it)])" using assms(3) xs(1) by simp
  from add_evicts [OF st(2) [unfolded xs(1)] r assms(2) new assms(4)] obtain st' itn where
    st': "cache_add 1 new [] url (obj @ [CHR 0x00]) (length obj) st = Done st'" "head st' = new"
    "store st' new = Some itn" "tag itn = url" "nxt itn = head st" "store st' a = None"
    "\<forall>b. b \<noteq> a \<longrightarrow> b \<noteq> new \<longrightarrow> store st' b = store st b" by blast
  obtain j where k: "k = Suc j" "length as < j" using assms(8) by (cases k) auto
  have "search j other (head st) st' = Fault"
  proof (rule search_dangling [OF l(1) st'(6)])
    show "store st' b = store st b" if "b \<in> fst ` set xs'" for b
      using that l(2) new xs(1) st'(7) by auto
    show "length xs' < j" using list_all2_lengthD [OF xs(2)] k by simp
    show "tag itb \<noteq> other" if "(b, itb) \<in> set xs'" for b itb
      using that assms(7) same_item_tag_set [OF xs(2)] by force
  qed
  moreover have "url \<noteq> other" using assms(7) by blast
  ultimately have "cache_lookup k other st' = Fault"
    using st'(2-5) assms(2) by (simp add: cache_lookup_def k(1) item_at_Done \<open>url \<noteq> other\<close>)
  with st(1) st'(1) show ?thesis by blast
qed

theorem lookup_after_eviction_faults_witness:
  "\<exists>st st'. add_all (\<lambda>_. []) [(''a/'', replicate 600000 CHR ''x'', 8), (''b/'', ''two'', 16)] cache_init = Done st \<and>
    cache_add 1 24 [] ''c/'' (replicate 500000 CHR ''y'' @ [CHR 0x00]) (length (replicate 500000 CHR ''y'')) st = Done st' \<and>
    cache_lookup 3 ''a/'' st' = Fault"
proof (rule lookup_after_eviction_faults)
  show "fits [(''a/'', replicate 600000 CHR ''x'', 8), (''b/'', ''two'', 16)]"
    by (simp add: fits_def used_def MAX_CACHE_SIZE_def)
qed (simp_all add: used_def MAX_CACHE_SIZE_def url_of_def)

end
