(* ===== verification/ProxyProps.thy ===== *)
theory ProxyProps
  imports Proxy ProxyCacheProps "HOL-Library.Sublist"
begin

text \<open>
  What one thread of the proxy does: the form of the request it forwards, and the response it passes
  on, stores, and gives to the next client.
\<close>

section \<open>Taking results apart\<close>

lemma bind_Done: "bind r f = Done y \<longleftrightarrow> (\<exists>x. r = Done x \<and> f x = Done y)"
  by (cases r) auto

lemma strcat_all_Done:
  "strcat_all r ss = Done r' \<Longrightarrow> r' = r @ concat ss \<and> (ss \<noteq> [] \<longrightarrow> length r' < MAXBUF)"
proof (induction ss arbitrary: r)
  case (Cons s ss)
  then obtain r1 where r1: "strcat r s = Done r1" "strcat_all r1 ss = Done r'" by (auto simp: bind_Done)
  then have "r1 = r @ s" "length r1 < MAXBUF" by (auto simp: strcat_def split: if_splits)
  with Cons.IH [OF r1(2)] r1(2) show ?case by (cases ss) auto
qed simp

text \<open>A text as the list of its lines, each at most as long as the buffer of the proxy takes.\<close>

function lines_of :: "string \<Rightarrow> string list" where
  "lines_of s = (if s = [] then [] else
     let l = first_line (MAXBUF - 1) s in l # lines_of (drop (length l) s))"
  by pat_completeness auto
termination
proof (relation "measure length")
  fix s l assume s: "s \<noteq> ([] :: string)" "l = first_line (MAXBUF - 1) s"
  then have "l \<noteq> []" by (cases s) (simp_all add: MAXBUF_def numeral_eq_Suc)
  then show "(drop (length l) s, s) \<in> measure length" using s(1) by (cases l; cases s) simp_all
qed simp

declare lines_of.simps [simp del]

text \<open>What is to be forwarded of header lines: those before the first empty line that do not contain the name of a
  header the proxy writes itself, and the empty line.\<close>

definition names_own :: "string \<Rightarrow> bool" where
  "names_own h \<longleftrightarrow> (\<exists>name \<in> {''Host:'', ''User-Agent:'', ''Connection:'', ''Proxy-Connection:''}. sublist name h)"

definition kept :: "string list \<Rightarrow> string list" where
  "kept ls = filter (\<lambda>h. \<not> names_own h) (takeWhile (\<lambda>h. h \<noteq> CRLF) ls) @ (if CRLF \<in> set ls then [CRLF] else [])"

lemma strstr_sublist: "strstr s pat \<longleftrightarrow> sublist pat s"
proof (induction s)
  case (Cons c s)
  have "take (length pat) (c # s) = pat \<longleftrightarrow> prefix pat (c # s)"
    by (metis append_eq_conv_conj prefix_def)
  then show ?case using Cons by (simp add: sublist_Cons_right)
qed simp

lemma own_header_names: "own_header h \<longleftrightarrow> names_own h"
  by (simp add: own_header_def names_own_def strstr_sublist)

lemma kept_simps [simp]:
  "kept [] = []" "kept (h # ls) = (if h = CRLF then [CRLF] else if names_own h then kept ls else h # kept ls)"
  by (simp_all add: kept_def)

text \<open>The loop over the header lines forwards just those.\<close>

lemma fwd_headers_kept:
  assumes "fwd_headers n rio r = Done r'" and "length r < MAXBUF" and "working (rio_fd rio)"
  shows "r' = r @ concat (kept (map c_str (lines_of (rio_buf rio @ content (rio_fd rio))))) \<and> length r' < MAXBUF"
  using assms
proof (induction n arbitrary: rio r)
  case (Suc n)
  let ?s = "rio_buf rio @ content (rio_fd rio)"
  let ?line = "first_line (MAXBUF - 1) ?s" and ?ls = "\<lambda>rio. map c_str (lines_of (rio_buf rio @ content (rio_fd rio)))"
  from buffered.line_reads [OF Suc.prems(3), of "MAXBUF - 1"] obtain rio' where
    rd: "rio_readlineb MAXBUF rio = Some (?line, rio')" "working (rio_fd rio')"
      "?s = ?line @ rio_buf rio' @ content (rio_fd rio')" by (auto simp: rio_readlineb_def)
  show ?case
  proof (cases "?s = []")
    case True
    then have "?line = []" by (simp add: MAXBUF_def numeral_eq_Suc)
    then show ?thesis using Suc.prems rd(1) True by (simp add: lines_of.simps)
  next
    case False
    then have ne: "?line \<noteq> []" by (cases ?s) (simp_all add: MAXBUF_def numeral_eq_Suc)
    have "drop (length ?line) ?s = rio_buf rio' @ content (rio_fd rio')"
      using arg_cong [OF rd(3), of "drop (length ?line)"] by simp
    then have ls: "?ls rio = c_str ?line # ?ls rio'"
      using False by (subst lines_of.simps) (simp add: Let_def)
    consider "c_str ?line = CRLF" | "c_str ?line \<noteq> CRLF" "own_header (c_str ?line)"
      | "c_str ?line \<noteq> CRLF" "\<not> own_header (c_str ?line)" by blast
    then show ?thesis
    proof cases
      case 1
      then have "strcat r CRLF = Done r'" using Suc.prems(1) rd(1) ne by (simp add: Let_def)
      then show ?thesis using 1 unfolding ls by (auto simp: strcat_def split: if_splits)
    next
      case 2
      then have "fwd_headers n rio' r = Done r'" using Suc.prems(1) rd(1) ne by (simp add: Let_def)
      from Suc.IH [OF this Suc.prems(2) rd(2)] 2 show ?thesis unfolding ls by (auto simp: own_header_names)
    next
      case 3
      then obtain r1 where r1: "strcat r (c_str ?line) = Done r1" "fwd_headers n rio' r1 = Done r'"
        using Suc.prems(1) rd(1) ne by (auto simp: Let_def bind_Done)
      then have s: "r1 = r @ c_str ?line" "length r1 < MAXBUF" by (auto simp: strcat_def split: if_splits)
      from Suc.IH [OF r1(2) s(2) rd(2)] s(1) 3 show ?thesis unfolding ls by (auto simp: own_header_names)
    qed
  qed
qed simp

lemma rio_read_short: "rio_read n rp = Some (bs, rp') \<Longrightarrow> length bs \<le> n"
  by (auto simp: rio_read_def Let_def split: option.splits prod.splits if_splits)

lemma readnb_short: "rio_readnb n rp = Some (bs, rp') \<Longrightarrow> length bs \<le> n"
  unfolding rio_readnb_def
proof (induction n arbitrary: rp bs rule: less_induct)
  case (less n)
  from less.prems show ?case
  proof (subst (asm) read_loop.simps, cases "n = 0")
    case False
    assume a: "(if n = 0 then Some ([], rp) else case rio_read n rp of None \<Rightarrow> None
      | Some (bs, s') \<Rightarrow> if bs = [] then Some ([], s') else case read_loop rio_read (n - length bs) s' of
          None \<Rightarrow> None | Some (bs', s'') \<Rightarrow> Some (bs @ bs', s'')) = Some (bs, rp')"
    with False obtain b s where r: "rio_read n rp = Some (b, s)" by (auto split: option.splits)
    show ?thesis
    proof (cases "b = []")
      case True
      with a False r show ?thesis by simp
    next
      case b: False
      with a False r obtain b' where b': "read_loop rio_read (n - length b) s = Some (b', rp')" "bs = b @ b'"
        by (auto split: option.splits)
      have "length b' \<le> n - length b" using less.IH [OF _ b'(1)] b False by simp
      with b' rio_read_short [OF r] show ?thesis by simp
    qed
  qed simp
qed

text \<open>What is kept for the cache is the whole response when that is small enough, and never more than
  the largest object.\<close>

lemma fwd_response_Done:
  "fwd_response n rio sent obj = Done (sent', obj') \<Longrightarrow> length obj \<le> MAX_OBJECT_SIZE \<Longrightarrow> length obj \<le> length sent \<Longrightarrow>
   (length sent \<le> MAX_OBJECT_SIZE \<longrightarrow> obj = sent) \<Longrightarrow>
   length obj' \<le> MAX_OBJECT_SIZE \<and> length sent \<le> length sent' \<and> length obj \<le> length obj' \<and>
   (length sent' \<le> MAX_OBJECT_SIZE \<longrightarrow> obj' = sent') \<and> (obj = [] \<and> sent = [] \<longrightarrow> sent' = [] \<or> obj' \<noteq> [])"
proof (induction n arbitrary: rio sent obj)
  case (Suc n)
  from Suc.prems(1) obtain resp rio' where r: "rio_readnb MAXBUF rio = Some (resp, rio')"
    by (auto split: option.splits)
  show ?case
  proof (cases "resp = []")
    case False
    let ?o = "if length obj + length resp \<le> MAX_OBJECT_SIZE then obj @ resp else obj"
    have "length resp \<le> MAXBUF" using r by (rule readnb_short)
    then have small: "length resp \<le> MAX_OBJECT_SIZE" by (simp add: MAXBUF_def MAX_OBJECT_SIZE_def)
    have "fwd_response n rio' (sent @ resp) ?o = Done (sent', obj')" using Suc.prems(1) r False by simp
    from Suc.IH [OF this] Suc.prems(2-) have ih: "length obj' \<le> MAX_OBJECT_SIZE" "length (sent @ resp) \<le> length sent'"
      "length ?o \<le> length obj'" "length sent' \<le> MAX_OBJECT_SIZE \<longrightarrow> obj' = sent'" by (auto split: if_splits)
    have "obj = [] \<longrightarrow> obj' \<noteq> []" using ih(3) small False by auto
    with ih Suc.prems(3) show ?thesis by (auto split: if_splits)
  qed (use Suc.prems r in auto)
qed simp


lemma fwd_response_set:
  "fwd_response n rio sent obj = Done (sent', obj') \<Longrightarrow> set obj \<subseteq> set sent \<Longrightarrow> set obj' \<subseteq> set sent'"
proof (induction n arbitrary: rio sent obj)
  case (Suc n)
  from Suc.prems(1) obtain resp rio' where r: "rio_readnb MAXBUF rio = Some (resp, rio')"
    by (auto split: option.splits)
  show ?case
  proof (cases "resp = []")
    case False
    with Suc.prems(1) r have "fwd_response n rio' (sent @ resp)
      (if length obj + length resp \<le> MAX_OBJECT_SIZE then obj @ resp else obj) = Done (sent', obj')" by simp
    then show ?thesis by (rule Suc.IH) (use Suc.prems(2) in auto)
  qed (use Suc.prems r in auto)
qed simp

section \<open>The thread\<close>

text \<open>A run that sent a request: it found nothing in the cache, and the last thing it did was to add
  the response.\<close>

lemma run_thread_sent:
  assumes "run_thread n connect new junk client cache = Done (sent, [r], c)"
  shows "\<exists>req rio meth url version cache' hostname resource hostname' port r0 server obj.
    rio_readlineb MAXBUF (rio_readinitb client) = Some (req, rio) \<and> req \<noteq> [] \<and>
    parse_request (c_str req) = Done (Some (meth, url, version)) \<and>
    (\<exists>object. cache_lookup n url cache = Done (0, object, cache')) \<and> lower meth = ''get'' \<and>
    parse_url url = Done (Some (hostname, resource)) \<and> split_port hostname = Done (hostname', port) \<and>
    fwd_start meth resource hostname' port = Done r0 \<and> fwd_headers n rio r0 = Done r \<and>
    fwd_response n (rio_readinitb server) [] [] = Done (sent, obj) \<and>
    cache_add n new junk url (zero_filled obj) (length obj) cache' = Done c"
  using assms
  by (fastforce simp: run_thread_def forward_def bind_Done split: option.splits prod.splits if_splits)


lemma lookup_cache_init: "cache_lookup n url cache_init = Done (0, [], cache_init)"
  by (simp add: cache_lookup_def cache_init_def)

text \<open>On an intact cache: what is stored is at most of the largest size, is the whole response if that was small
  enough, and any client that asks for the same object gets it, up to the first NUL byte.\<close>

lemma stored_object:
  assumes run: "run_thread n connect new junk client cache = Done (sent, [r], c)"
    and cache: "built cache xs" "\<forall>(a, it) \<in> set xs. objectlen it \<noteq> 0" "new \<notin> fst ` set xs" "length xs \<le> n"
    and room: "length sent \<le> remainlen cache \<or> MAX_OBJECT_SIZE \<le> remainlen cache"
    and new: "new \<noteq> NULL" "sent \<noteq> []" and fit: "length sent < MAX_OBJECT_SIZE \<or> CHR 0x00 \<notin> set sent"
  shows "\<exists>obj t. length obj \<le> MAX_OBJECT_SIZE \<and> (length sent \<le> MAX_OBJECT_SIZE \<longrightarrow> obj = sent) \<and> set obj \<subseteq> set sent \<and>
    same_text t obj \<and> run_thread n connect' new' junk' client c = Done (t, [], c)"
proof -
  from run_thread_sent [OF run] obtain req rio meth url version cache' buf hostname resource hostname' port r0 server obj
    where d: "rio_readlineb MAXBUF (rio_readinitb client) = Some (req, rio)" "req \<noteq> []"
      "parse_request (c_str req) = Done (Some (meth, url, version))"
      "cache_lookup n url cache = Done (0, buf, cache')"
      "fwd_headers n rio r0 = Done r"
      "fwd_response n (rio_readinitb server) [] [] = Done (sent, obj)"
      "cache_add n new junk url (zero_filled obj) (length obj) cache' = Done c" by auto
  have c': "cache' = cache"
  proof (cases "find (\<lambda>(a, it). tag it = url) xs")
    case None
    then show ?thesis using lookup_built [OF cache(1,4), of url] d(4) by simp
  next
    case (Some x)
    obtain a it where x: "x = (a, it)" "(a, it) \<in> set xs" using Some by (metis find_Some_iff nth_mem surj_pair)
    with lookup_built [OF cache(1,4), of url] Some d(4) have "objectlen it = 0" by auto
    with cache(2) x(2) show ?thesis by auto
  qed
  from fwd_response_Done [OF d(6)] new(2) have obj: "length obj \<le> MAX_OBJECT_SIZE"
    "length sent \<le> MAX_OBJECT_SIZE \<longrightarrow> obj = sent" "obj \<noteq> []" by auto
  have sub: "set obj \<subseteq> set sent" using fwd_response_set [OF d(6)] by simp
  have "length obj \<noteq> MAX_OBJECT_SIZE"
  proof
    assume l: "length obj = MAX_OBJECT_SIZE"
    then have "CHR 0x00 \<notin> set sent" using fit obj(2) by auto
    then have "CHR 0x00 \<notin> set (zero_filled obj)" using sub l by (auto simp: zero_filled_def)
    then have "cache_add n new junk url (zero_filled obj) (length obj) cache' \<noteq> Done c"
      by (cases "evict_loop n (length obj) cache'") (simp_all add: cache_add_def strcpy_def)
    with d(7) show False by simp
  qed
  then obtain k where z: "zero_filled obj = obj @ CHR 0x00 # replicate k (CHR 0x00)"
    using obj(1) by (cases "MAX_OBJECT_SIZE - length obj") (auto simp: zero_filled_def)
  have "length obj \<le> remainlen cache" using room obj(1,2) by (cases "length sent \<le> MAX_OBJECT_SIZE") auto
  with cache_add_built [OF cache(1,3), of obj n junk url] new(1) d(7)
  obtain it where it: "built c ((new, it) # xs)" "tag it = url" "objectlen it = length obj"
    "same_text (take (length obj) (object it)) obj"
    unfolding z c' by (metis (no_types, lifting) run.inject)
  obtain m where n: "n = Suc m" using d(5) by (cases n) auto
  have h: "head c = new" "store c new = Some it" using it(1) by (auto simp: built_def)
  then have "cache_lookup n url c = Done (length obj, take (length obj) (object it), c)"
    using it new(1) by (simp add: cache_lookup_def n item_at_Done move_to_head_def)
  then have "run_thread n connect' new' junk' client c = Done (take (length obj) (object it), [], c)"
    using d(1-3) obj(3) by (simp add: run_thread_def)
  with obj sub it(4) show ?thesis by blast
qed

lemma stored_text: "same_text t obj \<Longrightarrow> CHR 0x00 \<notin> set obj \<Longrightarrow> t = obj"
  by (simp add: same_text_def)


section \<open>A request to run\<close>

definition client0 :: "rd_reply list" where
  "client0 = [Data (''GET http://a:81/b HTTP/1.1'' @ CRLF @ ''Host: a'' @ CRLF @ ''Accept: c'' @ CRLF), Interrupted, Data CRLF]"

definition line0 :: string where
  "line0 = ''GET http://a:81/b HTTP/1.1'' @ CRLF"

definition rio0 :: rio_t where
  "rio0 = \<lparr>rio_buf = ''Host: a'' @ CRLF @ ''Accept: c'' @ CRLF, rio_fd = [Interrupted, Data CRLF]\<rparr>"

definition forwarded0 :: string where
  "forwarded0 = ''GET /b HTTP/1.0'' @ CRLF @ ''Host: a:81'' @ CRLF @ user_agent_hdr @ conn_hdr @ proxy_conn_hdr @
     ''Accept: c'' @ CRLF @ CRLF"

definition cache0 :: "string \<Rightarrow> CacheList" where
  "cache0 obj = \<lparr>head = 8, tail = 8, remainlen = MAX_CACHE_SIZE - length obj,
     store = (\<lambda>_. None)(8 \<mapsto> \<lparr>tag = ''http://a:81/b'', object = obj @ [CHR 0x00], prv = NULL, nxt = NULL, objectlen = length obj\<rparr>)\<rparr>"

lemma readline_numeral: "readline_loop rd (numeral k) s = (case rd 1 s of
        None \<Rightarrow> None
      | Some ([], s') \<Rightarrow> Some ([], s')
      | Some (c # _, s') \<Rightarrow>
          if c = CHR 0x0A then Some ([c], s')
          else map_option (\<lambda>(l, s'). (c # l, s')) (readline_loop rd (pred_numeral k) s'))"
  by (simp add: numeral_eq_Suc)

lemma fwd_headers_numeral: "fwd_headers (numeral k) rio req_fwd =
     (case rio_readlineb MAXBUF rio of
        None \<Rightarrow> Done req_fwd
      | Some (line, rio) \<Rightarrow>
          if line = [] then Done req_fwd
          else let req = c_str line in
            if req = CRLF then strcat req_fwd req
            else if own_header req then fwd_headers (pred_numeral k) rio req_fwd
            else bind (strcat req_fwd req) (fwd_headers (pred_numeral k) rio))"
  by (simp add: numeral_eq_Suc)

lemma fwd_response_numeral: "fwd_response (numeral k) rio sent obj =
     (case rio_readnb MAXBUF rio of
        None \<Rightarrow> Fault
      | Some (resp, rio) \<Rightarrow>
          if resp = [] then Done (sent, obj)
          else fwd_response (pred_numeral k) rio (sent @ resp)
            (if length obj + length resp \<le> MAX_OBJECT_SIZE then obj @ resp else obj))"
  by (simp add: numeral_eq_Suc)

lemmas read_simps = rio_readlineb_def MAXBUF_def readline_numeral rio_read_def RIO_BUFSIZE_def Let_def

lemma first_line0: "rio_readlineb MAXBUF (rio_readinitb client0) = Some (line0, rio0)" "line0 \<noteq> []"
  by (simp_all add: line0_def read_simps rio_readinitb_def client0_def CRLF_def rio0_def)

lemma parse0:
  "parse_request (c_str line0) = Done (Some (''GET'', ''http://a:81/b'', ''HTTP/1.1''))"
  "parse_url ''http://a:81/b'' = Done (Some (''a:81'', ''/b''))" "split_port ''a:81'' = Done (''a'', ''81'')"
  "lower ''GET'' = ''get''"
  by (simp_all add: line0_def parse_request_def c_str_def parse_url_def split_port_def scan_s_def scan_def scan_lit_def
      isspace_def bind_scan_def MAXLINE_def Let_def CRLF_def) code_simp

lemma headers0:
  "bind (fwd_start ''GET'' ''/b'' ''a'' ''81'') (fwd_headers 99 rio0) = Done forwarded0"
  by (simp add: fwd_start_def strcat_def read_simps rio0_def CRLF_def c_str_def own_header_def fwd_headers_numeral
      user_agent_hdr_def conn_hdr_def proxy_conn_hdr_def forwarded0_def)

lemma run0:
  assumes "fwd_response 99 (rio_readinitb server) [] [] = Done (sent, obj)" "CHR 0x00 \<notin> set obj" "length obj < MAX_OBJECT_SIZE"
  shows "run_thread 99 (\<lambda>_ _. Some server) 8 [] client0 cache_init = Done (sent, [forwarded0], cache0 obj)"
proof -
  obtain k where z: "zero_filled obj = obj @ CHR 0x00 # replicate k (CHR 0x00)"
    using assms(3) by (cases "MAX_OBJECT_SIZE - length obj") (auto simp: zero_filled_def)
  have "length obj \<le> MAX_CACHE_SIZE" using assms(3) by (simp add: MAX_OBJECT_SIZE_def MAX_CACHE_SIZE_def)
  then have a: "cache_add 99 8 [] ''http://a:81/b'' (zero_filled obj) (length obj) cache_init = Done (cache0 obj)"
    using strcpy_exact [OF assms(2)] unfolding z
    by (simp add: cache_add_def evict_enough cache_init_def move_to_head_def cache0_def Let_def)
  obtain r0 where r0: "fwd_start ''GET'' ''/b'' ''a'' ''81'' = Done r0" "fwd_headers 99 rio0 r0 = Done forwarded0"
    using headers0 by (auto simp: bind_Done)
  have "forward 99 (\<lambda>_ _. Some server) 8 [] ''GET'' ''http://a:81/b'' rio0 cache_init = Done (sent, [forwarded0], cache0 obj)"
    using a r0 assms(1) by (simp add: forward_def parse0)
  then show ?thesis by (simp add: run_thread_def first_line0 parse0 lookup_cache_init)
qed

lemma response0: "fwd_response 99 (rio_readinitb [Data ''hello '', Data ''world'']) [] [] = Done (''hello world'', ''hello world'')"
  by (simp add: fwd_response_numeral read_simps rio_readnb_def rio_readinitb_def read_loop.simps [of _ "numeral k" for k]
      MAX_OBJECT_SIZE_def)


lemma response_blocks:
  assumes "working (rio_fd rp)" "rio_buf rp @ content (rio_fd rp) = replicate (8192 * k) x" "k < n" "m \<le> 12"
  shows "fwd_response n rp sent (replicate (8192 * m) x) = Done (sent @ replicate (8192 * k) x, replicate (8192 * min 12 (m + k)) x)"
  using assms
proof (induction k arbitrary: rp n sent m)
  case 0
  from buffered.loop_reads [OF 0(1), of 8192] 0(2) obtain rp' where "rio_readnb MAXBUF rp = Some ([], rp')"
    by (auto simp: rio_readnb_def MAXBUF_def)
  then show ?case using 0(3,4) by (cases n) simp_all
next
  case (Suc k)
  from buffered.loop_reads [OF Suc.prems(1), of 8192] obtain rp' where rp':
    "rio_readnb MAXBUF rp = Some (take 8192 (replicate (8192 * Suc k) x), rp')" "working (rio_fd rp')"
    "rio_buf rp' @ content (rio_fd rp') = drop 8192 (replicate (8192 * Suc k) x)"
    unfolding Suc.prems(2) rio_readnb_def MAXBUF_def by blast
  have r: "take 8192 (replicate (8192 * Suc k) x) = replicate 8192 x" "drop 8192 (replicate (8192 * Suc k) x) = replicate (8192 * k) x"
    by (simp_all add: min_def)
  obtain j where n: "n = Suc j" "k < j" using Suc.prems(3) by (cases n) auto
  have ne: "replicate 8192 x \<noteq> []" by simp
  note s = Suc.IH [OF rp'(2) rp'(3) [unfolded r] n(2), of _ "sent @ replicate 8192 x"]
  show ?case
  proof (cases "m = 12")
    case True
    have "fwd_response n rp sent (replicate (8192 * m) x) = fwd_response j rp' (sent @ replicate 8192 x) (replicate (8192 * m) x)"
      using rp'(1) ne by (simp add: n r True MAX_OBJECT_SIZE_def)
    then show ?thesis using s [of m] True by (simp add: replicate_add [symmetric])
  next
    case False
    have "fwd_response n rp sent (replicate (8192 * m) x) =
        fwd_response j rp' (sent @ replicate 8192 x) (replicate (8192 * m) x @ replicate 8192 x)"
      using rp'(1) ne False Suc.prems(4) by (simp add: n r MAX_OBJECT_SIZE_def)
    also have "replicate (8192 * m) x @ replicate 8192 x = replicate (8192 * Suc m) x"
      by (simp add: replicate_add [symmetric]) 
    also have "fwd_response j rp' (sent @ replicate 8192 x) (replicate (8192 * Suc m) x) =
        Done ((sent @ replicate 8192 x) @ replicate (8192 * k) x, replicate (8192 * min 12 (Suc m + k)) x)"
      by (rule s) (use False Suc.prems(4) in simp)
    finally show ?thesis by (simp add: replicate_add [symmetric])
  qed
qed

section \<open>Properties\<close>

text \<open>C18: on a cache that additions have built, without empty objects and with room for the response, a request that
  went to the server and brought a response of at least one byte, but shorter than the largest object, is answered from the
  cache when it comes again, without asking the server.  If the response has no NUL bytes the answer is
  the same, byte for byte; otherwise it is the same up to the first NUL byte.\<close>

theorem proxy_answers_from_cache:
  assumes "run_thread n connect new junk client cache = Done (sent, [r], c)"
    and "built cache xs" and "\<forall>(a, it) \<in> set xs. objectlen it \<noteq> 0" and "length xs \<le> n"
    and "new \<noteq> NULL" and "new \<notin> fst ` set xs"
    and "sent \<noteq> []" and "length sent < MAX_OBJECT_SIZE" and "length sent \<le> remainlen cache"
  shows "\<exists>t. run_thread n connect' new' junk' client c = Done (t, [], c) \<and>
    takeWhile (\<lambda>x. x \<noteq> CHR 0x00) t = takeWhile (\<lambda>x. x \<noteq> CHR 0x00) sent \<and> (CHR 0x00 \<notin> set sent \<longrightarrow> t = sent)"
  using stored_object [OF assms(1-3,6,4) _ assms(5,7), of connect' new' junk'] assms(8,9) unfolding same_text_def by auto

theorem proxy_answers_from_cache_witness:
  "run_thread 99 (\<lambda>_ _. None) 16 [] client0 (cache0 ''hello world'') = Done (''hello world'', [], cache0 ''hello world'')"
proof -
  have "run_thread 99 (\<lambda>_ _. Some [Data ''hello '', Data ''world'']) 8 [] client0 cache_init =
      Done (''hello world'', [forwarded0], cache0 ''hello world'')"
    by (rule run0 [OF response0]) (simp_all add: MAX_OBJECT_SIZE_def)
  from proxy_answers_from_cache [OF this built_init, of "\<lambda>_ _. None" 16 "[]"] show ?thesis
    by (simp add: MAX_OBJECT_SIZE_def MAX_CACHE_SIZE_def cache_init_def)
qed

text \<open>C23: a response larger than the largest object is cached all the same, cut to what fits: the next
  client that asks for it gets something shorter.\<close>

theorem proxy_caches_truncated_response:
  assumes "run_thread n connect new junk client cache_init = Done (sent, [r], c)"
    and "new \<noteq> NULL" and "CHR 0x00 \<notin> set sent" and "MAX_OBJECT_SIZE < length sent"
  shows "\<exists>obj. run_thread n connect' new' junk' client c = Done (obj, [], c) \<and> length obj < length sent"
proof -
  have "sent \<noteq> []" using assms(4) by auto
  moreover have "MAX_OBJECT_SIZE \<le> remainlen cache_init" by (simp add: cache_init_def MAX_OBJECT_SIZE_def MAX_CACHE_SIZE_def)
  ultimately obtain obj t where o: "length obj \<le> MAX_OBJECT_SIZE" "set obj \<subseteq> set sent" "same_text t obj"
    "run_thread n connect' new' junk' client c = Done (t, [], c)"
    using stored_object [OF assms(1) built_init, of connect' new' junk'] assms(2,3) by auto
  then have "t = obj" using stored_text assms(3) by blast
  with o assms(4) show ?thesis by auto
qed

theorem proxy_caches_truncated_response_witness:
  "\<exists>obj. run_thread 99 (\<lambda>_ _. None) 16 [] client0 (cache0 (replicate (8192 * 12) CHR ''x'')) =
      Done (obj, [], cache0 (replicate (8192 * 12) CHR ''x'')) \<and> length obj < length (replicate (8192 * 13) CHR ''x'')"
proof (rule proxy_caches_truncated_response)
  let ?server = "[Data (replicate (8192 * 13) CHR ''x'')]"
  have "working ?server" by (simp add: working_def)
  then have "fwd_response 99 (rio_readinitb ?server) [] (replicate (8192 * 0) CHR ''x'') =
      Done ([] @ replicate (8192 * 13) CHR ''x'', replicate (8192 * min 12 (0 + 13)) CHR ''x'')"
    by (intro response_blocks) (simp_all only: rio_readinitb_def, simp_all)
  then have "fwd_response 99 (rio_readinitb ?server) [] [] =
      Done (replicate (8192 * 13) CHR ''x'', replicate (8192 * 12) CHR ''x'')" by simp
  then show "run_thread 99 (\<lambda>_ _. Some ?server) 8 [] client0 cache_init =
      Done (replicate (8192 * 13) CHR ''x'', [forwarded0], cache0 (replicate (8192 * 12) CHR ''x''))"
    by (rule run0) (simp_all add: MAX_OBJECT_SIZE_def)
qed (simp_all add: MAX_OBJECT_SIZE_def)

text \<open>The first line of a client, and the lines that follow it, as C texts.\<close>

definition request_line :: "rd_reply list \<Rightarrow> string" where
  "request_line client = first_line (MAXBUF - 1) (content client)"

definition header_lines :: "rd_reply list \<Rightarrow> string list" where
  "header_lines client = map c_str (lines_of (drop (length (request_line client)) (content client)))"

text \<open>C19: what the proxy forwards of a client whose connection does not fail fits into its buffer and consists of a request
  line made of the method and the resource of the client's request line, the proxy's own Host header with the
  host and port of the URL in it, its own User-Agent, Connection and Proxy-Connection headers, and the
  client's header lines up to the first empty line in their order, without those that contain the name of one of these
  four headers, and with the empty line if the client sent it.\<close>

theorem forwarded_request_format:
  assumes "run_thread n connect new junk client cache = Done (sent, [r], c)" and "working client"
  shows "\<exists>meth url version hostname resource host port. length r < MAXBUF \<and>
    parse_request (c_str (request_line client)) = Done (Some (meth, url, version)) \<and> lower meth = ''get'' \<and>
    parse_url url = Done (Some (hostname, resource)) \<and> split_port hostname = Done (host, port) \<and>
    r = concat [meth, '' '', resource, '' HTTP/1.0'', CRLF, ''Host: '', host, '':'', port, CRLF,
      user_agent_hdr, conn_hdr, proxy_conn_hdr] @ concat (kept (header_lines client))"
proof -
  from run_thread_sent [OF assms(1)] obtain req rio meth url version hostname resource host port r0 where
    d: "rio_readlineb MAXBUF (rio_readinitb client) = Some (req, rio)" "parse_request (c_str req) = Done (Some (meth, url, version))"
    "lower meth = ''get''" "parse_url url = Done (Some (hostname, resource))" "split_port hostname = Done (host, port)"
    "fwd_start meth resource host port = Done r0" "fwd_headers n rio r0 = Done r" by blast
  have w: "working (rio_fd (rio_readinitb client))" using assms(2) by (simp add: rio_readinitb_def)
  from buffered.line_reads [OF this, of "MAXBUF - 1"] d(1) have req: "req = request_line client" "working (rio_fd rio)"
    "content client = req @ rio_buf rio @ content (rio_fd rio)"
    by (auto simp: rio_readlineb_def rio_readinitb_def request_line_def)
  have rest: "rio_buf rio @ content (rio_fd rio) = drop (length (request_line client)) (content client)"
    using req(1) arg_cong [OF req(3), of "drop (length req)"] by simp
  have r0: "r0 = meth @ concat ['' '', resource, '' '', ''HTTP/1.0'' @ CRLF, ''Host: '', host, '':'', port, CRLF,
      user_agent_hdr, conn_hdr, proxy_conn_hdr]" "length r0 < MAXBUF"
    using strcat_all_Done [of meth _ r0] d(6) unfolding fwd_start_def by blast+
  from fwd_headers_kept [OF d(7) r0(2) req(2)] have
    hs: "r = r0 @ concat (kept (header_lines client))" "length r < MAXBUF" unfolding rest header_lines_def by blast+
  have "r0 = concat [meth, '' '', resource, '' HTTP/1.0'', CRLF, ''Host: '', host, '':'', port, CRLF,
      user_agent_hdr, conn_hdr, proxy_conn_hdr]" by (simp add: r0(1))
  with hs d req(1) show ?thesis by blast
qed

theorem forwarded_request_format_witness:
  "\<exists>meth url version hostname resource host port. length forwarded0 < MAXBUF \<and>
    parse_request (c_str (request_line client0)) = Done (Some (meth, url, version)) \<and> lower meth = ''get'' \<and>
    parse_url url = Done (Some (hostname, resource)) \<and> split_port hostname = Done (host, port) \<and>
    forwarded0 = concat [meth, '' '', resource, '' HTTP/1.0'', CRLF, ''Host: '', host, '':'', port, CRLF,
      user_agent_hdr, conn_hdr, proxy_conn_hdr] @ concat (kept (header_lines client0))"
proof (rule forwarded_request_format)
  show "run_thread 99 (\<lambda>_ _. Some [Data ''hello '', Data ''world'']) 8 [] client0 cache_init =
      Done (''hello world'', [forwarded0], cache0 ''hello world'')"
    by (rule run0 [OF response0]) (simp_all add: MAX_OBJECT_SIZE_def)
qed (simp add: working_def client0_def CRLF_def)

text \<open>When reading from the server fails, the error code is taken for a length and the thread runs
  out of its buffers.\<close>

theorem server_error_overruns:
  assumes "run_thread n (\<lambda>_ _. Some server) new junk client cache = Done (sent, [r], c)"
  shows "run_thread n (\<lambda>_ _. Some (Failed # fd)) new junk client cache = Fault"
proof -
  from run_thread_sent [OF assms] obtain req rio meth url version cache' buf hostname resource hostname' port r0 sv obj
    where d: "rio_readlineb MAXBUF (rio_readinitb client) = Some (req, rio)" "req \<noteq> []"
      "parse_request (c_str req) = Done (Some (meth, url, version))"
      "cache_lookup n url cache = Done (0, buf, cache')" "lower meth = ''get''"
      "parse_url url = Done (Some (hostname, resource))" "split_port hostname = Done (hostname', port)"
      "fwd_start meth resource hostname' port = Done r0" "fwd_headers n rio r0 = Done r" by blast
  obtain m where n: "n = Suc m" using d(9) by (cases n) auto
  have "rio_readnb MAXBUF (rio_readinitb (Failed # fd)) = None"
    unfolding rio_readnb_def by (subst read_loop.simps) (simp add: rio_read_def rio_readinitb_def MAXBUF_def)
  then have "fwd_response n (rio_readinitb (Failed # fd)) [] [] = Fault" by (simp add: n)
  with d show ?thesis by (simp add: run_thread_def forward_def)
qed

theorem server_error_overruns_witness:
  "run_thread 99 (\<lambda>_ _. Some [Failed]) 8 [] client0 cache_init = Fault"
proof (rule server_error_overruns)
  show "run_thread 99 (\<lambda>_ _. Some [Data ''hello '', Data ''world'']) 8 [] client0 cache_init =
      Done (''hello world'', [forwarded0], cache0 ''hello world'')"
    by (rule run0 [OF response0]) (simp_all add: MAX_OBJECT_SIZE_def)
qed

end
