(* ===== verification/Tsh.thy ===== *)
theory Tsh
  imports Prelude
begin

text \<open>
  The shell \<open>shlab-handout/tsh.c\<close>: the job list, the command line parser, the signal handlers, the
  built-in commands and \<open>eval\<close>.  The kernel enters as data: the result of \<open>fork\<close>, the children
  that successive calls of \<open>waitpid\<close> report, whether \<open>kill\<close> succeeds, and which signals arrive in
  each window in which they are not blocked.  Output and calls of \<open>kill\<close> and \<open>execve\<close> are logged.
\<close>

section \<open>State\<close>

definition MAXLINE :: nat where "MAXLINE = 1024"
definition MAXARGS :: nat where "MAXARGS = 128"
definition MAXJOBS :: nat where "MAXJOBS = 16"

datatype jstate = UNDEF | FG | BG | ST

record job_t =
  pid :: int
  jid :: int
  state :: jstate
  cmdline :: string

datatype action =
    Printf string "int list" "string list"
  | Kill int int
  | Execve int "string list"

record shell =
  jobs :: "job_t list"
  nextjid :: int
  verbose :: bool
  stop_msg :: bool
  term_msg :: bool
  msg_jid :: int
  msg_pid :: int
  msg_sig :: int
  out :: "action list"

text \<open>\<open>Exit\<close> is \<open>exit\<close>, \<open>Block\<close> a \<open>sigsuspend\<close> for which no signal is left, \<open>Undef\<close> undefined
  behaviour: an access outside an array, or an overflow in \<open>atoi\<close>.\<close>

datatype 'a outcome = Ret 'a | Exit int shell | Block shell | Undef

fun bind :: "'a outcome \<Rightarrow> ('a \<Rightarrow> 'b outcome) \<Rightarrow> 'b outcome" where
  "bind (Ret x) f = f x"
| "bind (Exit c s) f = Exit c s"
| "bind (Block s) f = Block s"
| "bind Undef f = Undef"

definition printf :: "string \<Rightarrow> int list \<Rightarrow> string list \<Rightarrow> shell \<Rightarrow> shell" where
  "printf fmt is ss s = s\<lparr>out := out s @ [Printf fmt is ss]\<rparr>"

section \<open>The job list\<close>

definition clearjob :: job_t where
  "clearjob = \<lparr>pid = 0, jid = 0, state = UNDEF, cmdline = []\<rparr>"

definition initjobs :: "job_t list" where
  "initjobs = replicate MAXJOBS clearjob"

definition maxjid :: "job_t list \<Rightarrow> int" where
  "maxjid js = foldl (\<lambda>max j. if jid j > max then jid j else max) 0 js"

text \<open>The index of the first job that satisfies a test.\<close>

fun first_job :: "(job_t \<Rightarrow> bool) \<Rightarrow> job_t list \<Rightarrow> nat option" where
  "first_job P [] = None"
| "first_job P (j # js) = (if P j then Some 0 else map_option Suc (first_job P js))"

definition addjob :: "int \<Rightarrow> jstate \<Rightarrow> string \<Rightarrow> shell \<Rightarrow> bool \<times> shell" where
  "addjob p st cmd s =
     (if p < 1 then (False, s)
      else case first_job (\<lambda>j. pid j = 0) (jobs s) of
        Some i \<Rightarrow>
          let j = \<lparr>pid = p, jid = nextjid s, state = st, cmdline = cmd\<rparr>;
              n = nextjid s + 1;
              s = s\<lparr>jobs := (jobs s)[i := j], nextjid := if n > int MAXJOBS then 1 else n\<rparr>;
              s = (if verbose s then printf ''Added job [%d] %d %s'' [jid j, pid j] [cmdline j] s else s)
          in (True, s)
      | None \<Rightarrow> (False, printf ''Tried to create too many jobs'' [] [] s))"

definition deletejob :: "int \<Rightarrow> shell \<Rightarrow> bool \<times> shell" where
  "deletejob p s =
     (if p < 1 then (False, s)
      else case first_job (\<lambda>j. pid j = p) (jobs s) of
        Some i \<Rightarrow>
          let js = (jobs s)[i := clearjob] in (True, s\<lparr>jobs := js, nextjid := maxjid js + 1\<rparr>)
      | None \<Rightarrow> (False, s))"

definition fgpid :: "job_t list \<Rightarrow> int" where
  "fgpid js = (case first_job (\<lambda>j. state j = FG) js of Some i \<Rightarrow> pid (js ! i) | None \<Rightarrow> 0)"

definition getjobpid :: "int \<Rightarrow> job_t list \<Rightarrow> nat option" where
  "getjobpid p js = (if p < 1 then None else first_job (\<lambda>j. pid j = p) js)"

definition getjobjid :: "int \<Rightarrow> job_t list \<Rightarrow> nat option" where
  "getjobjid i js = (if i < 1 then None else first_job (\<lambda>j. jid j = i) js)"

definition pid2jid :: "int \<Rightarrow> job_t list \<Rightarrow> int" where
  "pid2jid p js = (if p < 1 then 0 else case first_job (\<lambda>j. pid j = p) js of Some i \<Rightarrow> jid (js ! i) | None \<Rightarrow> 0)"

definition listjob :: "nat \<Rightarrow> job_t \<Rightarrow> shell \<Rightarrow> shell" where
  "listjob i j s =
     (if pid j \<noteq> 0 then
        let s = printf ''[%d] (%d) '' [jid j, pid j] [] s;
            s = (case state j of
                   BG \<Rightarrow> printf ''Running '' [] [] s
                 | FG \<Rightarrow> printf ''Foreground '' [] [] s
                 | ST \<Rightarrow> printf ''Stopped '' [] [] s
                 | UNDEF \<Rightarrow> printf ''listjobs: Internal error: job[%d].state=%d '' [int i, 0] [] s)
        in printf ''%s'' [] [cmdline j] s
      else s)"

definition listjobs :: "shell \<Rightarrow> shell" where
  "listjobs s = fold (\<lambda>i s. listjob i (jobs s ! i) s) [0..<length (jobs s)] s"

section \<open>The command line\<close>

text \<open>\<open>strchr\<close>: what comes before the character, and what comes after it.\<close>

definition strchr :: "char \<Rightarrow> string \<Rightarrow> (string \<times> string) option" where
  "strchr c s = (if c \<in> set s then Some (takeWhile (\<lambda>x. x \<noteq> c) s, tl (dropWhile (\<lambda>x. x \<noteq> c) s)) else None)"

definition next_arg :: "string \<Rightarrow> (string \<times> string) option" where
  "next_arg buf =
     (if buf \<noteq> [] \<and> hd buf = CHR 0x27 then strchr (CHR 0x27) (tl buf) else strchr (CHR '' '') buf)"

definition skip :: "string \<Rightarrow> string" where
  "skip buf = dropWhile (\<lambda>c. c = CHR '' '') buf"

lemma strchr_length: "strchr c s = Some (a, r) \<Longrightarrow> length r < length s"
proof -
  assume "strchr c s = Some (a, r)"
  then have "c \<in> set s" "r = tl (dropWhile (\<lambda>x. x \<noteq> c) s)" by (auto simp: strchr_def split: if_splits)
  moreover have "dropWhile (\<lambda>x. x \<noteq> c) s \<noteq> []" using calculation(1) by (auto simp: dropWhile_eq_Nil_conv)
  moreover have "length (dropWhile (\<lambda>x. x \<noteq> c) s) \<le> length s" by (rule length_dropWhile_le)
  ultimately show ?thesis by (cases "dropWhile (\<lambda>x. x \<noteq> c) s") auto
qed

lemma next_arg_length: "next_arg s = Some (a, r) \<Longrightarrow> length (skip r) < length s"
  using length_dropWhile_le [of "\<lambda>c. c = CHR '' ''" r]
  by (auto simp: next_arg_def skip_def split: if_splits dest!: strchr_length)

function args :: "string \<Rightarrow> string list" where
  "args buf = (case next_arg buf of None \<Rightarrow> [] | Some (a, rest) \<Rightarrow> a # args (skip rest))"
  by pat_completeness auto
termination by (relation "measure length") (auto simp: next_arg_length)

declare args.simps [simp del]

text \<open>\<open>argv\<close> has \<open>MAXARGS\<close> entries, one of them for the terminating \<open>NULL\<close>; an empty line would
  make the parser write before its buffer.\<close>

definition parseline :: "string \<Rightarrow> (string list \<times> bool) option" where
  "parseline line =
     (if line = [] \<or> length line \<ge> MAXLINE then None
      else
        let argv = args (skip (butlast line @ '' '')) in
        if length argv \<ge> MAXARGS then None
        else if argv = [] then Some ([], True)
        else if last argv \<noteq> [] \<and> hd (last argv) = CHR ''&'' then Some (butlast argv, True)
        else Some (argv, False))"

section \<open>Signals\<close>

datatype status = Exited | Stopped int | Signaled int

text \<open>\<open>SIGCHLD\<close> carries what \<open>waitpid\<close> returns in the handler; \<open>SIGINT\<close> and \<open>SIGTSTP\<close> whether \<open>kill\<close> succeeds.\<close>

datatype signal = SIGCHLD "(int \<times> status) list" | SIGINT bool | SIGTSTP bool

definition reap :: "int \<Rightarrow> status \<Rightarrow> shell \<Rightarrow> shell" where
  "reap p st s = (case st of
       Exited \<Rightarrow> snd (deletejob p s)
     | Stopped sig \<Rightarrow>
         let s = s\<lparr>msg_jid := pid2jid p (jobs s), msg_pid := p, msg_sig := sig, stop_msg := True\<rparr> in
         (case getjobpid p (jobs s) of Some i \<Rightarrow> s\<lparr>jobs := (jobs s)[i := (jobs s ! i)\<lparr>state := ST\<rparr>]\<rparr> | None \<Rightarrow> s)
     | Signaled sig \<Rightarrow>
         let s = s\<lparr>msg_jid := pid2jid p (jobs s), msg_pid := p, msg_sig := sig, term_msg := True\<rparr> in
         snd (deletejob p s))"

fun sigchld_handler :: "(int \<times> status) list \<Rightarrow> shell \<Rightarrow> shell" where
  "sigchld_handler [] s = s"
| "sigchld_handler ((p, st) # rs) s = (if p > 0 then sigchld_handler rs (reap p st s) else s)"

definition kill :: "int \<Rightarrow> int \<Rightarrow> bool \<Rightarrow> shell \<Rightarrow> shell outcome" where
  "kill p sig ok s =
     (let s = s\<lparr>out := out s @ [Kill p sig]\<rparr> in
      if ok then Ret s else Exit 1 (printf ''kill error'' [] [] s))"

definition sigint_handler :: "bool \<Rightarrow> shell \<Rightarrow> shell outcome" where
  "sigint_handler ok s = (let p = fgpid (jobs s) in if p = 0 then Ret s else kill (- p) 2 ok s)"

definition sigtstp_handler :: "bool \<Rightarrow> shell \<Rightarrow> shell outcome" where
  "sigtstp_handler ok s = (let p = fgpid (jobs s) in if p = 0 then Ret s else kill (- p) 20 ok s)"

fun deliver :: "signal \<Rightarrow> shell \<Rightarrow> shell outcome" where
  "deliver (SIGCHLD rs) s = Ret (sigchld_handler rs s)"
| "deliver (SIGINT ok) s = sigint_handler ok s"
| "deliver (SIGTSTP ok) s = sigtstp_handler ok s"

text \<open>The signals that arrive in one window, in their order.  \<open>eval\<close> and \<open>do_bgfg\<close> block SIGCHLD alone while they
  edit the job list, so SIGINT and SIGTSTP may arrive there too; that needs no window of its own.  Their handlers
  leave the job list alone and do nothing without a foreground job, and there is none before \<open>addjob\<close> or the
  assignment of FG that ends the blocked region; a signal after it acts as the first of the next window.\<close>

fun deliver_all :: "signal list \<Rightarrow> shell \<Rightarrow> shell outcome" where
  "deliver_all [] s = Ret s"
| "deliver_all (g # gs) s = bind (deliver g s) (deliver_all gs)"

text \<open>The signals that have not arrived when it returns are the second result.\<close>

fun waitfg :: "int \<Rightarrow> signal list \<Rightarrow> shell \<Rightarrow> (shell \<times> signal list) outcome" where
  "waitfg p gs s =
     (if p = fgpid (jobs s) then (case gs of [] \<Rightarrow> Block s | g # gs \<Rightarrow> bind (deliver g s) (waitfg p gs))
      else Ret (s, gs))"

declare waitfg.simps [simp del]

section \<open>Commands\<close>

text \<open>What the kernel does during one command: the pid \<open>fork\<close> returns, the result of \<open>kill\<close>, and the
  signals that arrive while the line is read, before the job list is locked, right after it is
  unlocked, and later.\<close>

record env =
  forked :: int
  kill_ok :: bool
  idle :: "signal list"
  early :: "signal list"
  middle :: "signal list"
  late :: "signal list"

definition isnumber :: "string \<Rightarrow> bool" where
  "isnumber str \<longleftrightarrow> str \<noteq> [] \<and> list_all (\<lambda>c. 48 \<le> (of_char c :: nat) \<and> (of_char c :: nat) \<le> 57) str"

definition atoi :: "string \<Rightarrow> int outcome" where
  "atoi str =
     (let n = foldl (\<lambda>n c. 10 * n + (of_char c - 48)) 0 str in if n < 2 ^ 31 then Ret n else Undef)"

text \<open>The job an operand names, or the message that there is none.\<close>

definition find_job :: "string \<Rightarrow> string \<Rightarrow> shell \<Rightarrow> (nat option \<times> shell) outcome" where
  "find_job cmd operand s =
     (let num = (if operand \<noteq> [] \<and> hd operand = CHR ''%'' then tl operand else operand) in
      if \<not> isnumber num then Ret (None, printf ''%s: argument must be a PID or %%jobid'' [] [cmd] s)
      else bind (atoi num) (\<lambda>n.
        if operand \<noteq> [] \<and> hd operand = CHR ''%'' then
          (case getjobjid n (jobs s) of
             Some i \<Rightarrow> Ret (Some i, s) | None \<Rightarrow> Ret (None, printf ''%%%d: No such job'' [n] [] s))
        else
          (case getjobpid n (jobs s) of
             Some i \<Rightarrow> Ret (Some i, s) | None \<Rightarrow> Ret (None, printf ''(%d): No such process'' [n] [] s))))"

definition set_state :: "nat \<Rightarrow> jstate \<Rightarrow> shell \<Rightarrow> shell" where
  "set_state i st s = s\<lparr>jobs := (jobs s)[i := (jobs s ! i)\<lparr>state := st\<rparr>]\<rparr>"

definition do_bgfg :: "string list \<Rightarrow> env \<Rightarrow> shell \<Rightarrow> shell outcome" where
  "do_bgfg argv e s =
     (let bg = (argv ! 0 = ''bg'') in
      if length argv < 2 then Ret (printf ''%s command requires PID or %%jobid argument'' [] [argv ! 0] s)
      else bind (find_job (argv ! 0) (argv ! 1) s) (\<lambda>(job, s).
        case job of
          None \<Rightarrow> Ret s
        | Some i \<Rightarrow>
            bind (deliver_all (early e) s) (\<lambda>s.
            bind (kill (- pid (jobs s ! i)) 18 (kill_ok e) s) (\<lambda>s.
            let s = (if bg then
                set_state i BG (printf ''[%d] (%d) %s'' [pid2jid (pid (jobs s ! i)) (jobs s), pid (jobs s ! i)] [cmdline (jobs s ! i)] s)
              else set_state i FG s) in
            bind (deliver_all (middle e) s) (\<lambda>s.
            if bg then deliver_all (late e) s
            else bind (waitfg (pid (jobs s ! i)) (late e) s) (\<lambda>(s, gs). deliver_all gs s))))))"

text \<open>\<open>strcmp\<close> as the common libraries compute it: the difference of the first bytes that differ.\<close>

fun strcmp :: "string \<Rightarrow> string \<Rightarrow> int" where
  "strcmp [] [] = 0"
| "strcmp (c # s) [] = of_char c"
| "strcmp [] (d # t) = - of_char d"
| "strcmp (c # s) (d # t) = (if c = d then strcmp s t else of_char c - of_char d)"

text \<open>The second result tells whether the command was built in.\<close>

definition builtin_cmd :: "string list \<Rightarrow> env \<Rightarrow> shell \<Rightarrow> (shell \<times> bool) outcome" where
  "builtin_cmd argv e s =
     (if strcmp (argv ! 0) ''quit'' = 0 then Exit 0 s
      else if strcmp (argv ! 0) ''jobs'' = 0 then Ret (listjobs s, True)
      else if strcmp (argv ! 0) ''bg'' AND strcmp (argv ! 0) ''fg'' = 0 then
        bind (do_bgfg argv e s) (\<lambda>s. Ret (s, True))
      else if strcmp (argv ! 0) ''&'' = 0 then Ret (s, True)
      else Ret (s, False))"

text \<open>The messages the handler left.\<close>

definition messages :: "shell \<Rightarrow> shell" where
  "messages s =
     (let s = (if stop_msg s then (printf ''Job [%d] (%d) stopped by signal %d'' [msg_jid s, msg_pid s, msg_sig s] [] s)\<lparr>stop_msg := False\<rparr> else s)
      in if term_msg s then (printf ''Job [%d] (%d) terminated by signal %d'' [msg_jid s, msg_pid s, msg_sig s] [] s)\<lparr>term_msg := False\<rparr> else s)"

text \<open>\<open>SIGCHLD\<close> is blocked from before the \<open>fork\<close> until the job is in the list.\<close>

definition launch :: "string \<Rightarrow> string list \<Rightarrow> bool \<Rightarrow> env \<Rightarrow> shell \<Rightarrow> shell outcome" where
  "launch line argv bg e s =
     (if forked e < 0 then Exit 1 (printf ''fork error'' [] [] s)
      else
        let s = s\<lparr>out := out s @ [Execve (forked e) argv]\<rparr> in
        if bg then
          let s = snd (addjob (forked e) BG line s) in
          bind (deliver_all (middle e) s) (\<lambda>s.
          deliver_all (late e) (printf ''[%d] (%d) %s'' [pid2jid (forked e) (jobs s), forked e] [line] s))
        else
          let s = snd (addjob (forked e) FG line s) in
          bind (deliver_all (middle e) s) (\<lambda>s.
          bind (waitfg (forked e) (late e) s) (\<lambda>(s, gs). deliver_all gs s)))"

definition eval :: "string \<Rightarrow> env \<Rightarrow> shell \<Rightarrow> shell outcome" where
  "eval line e s =
     (case parseline line of
        None \<Rightarrow> Undef
      | Some (argv, bg) \<Rightarrow>
          if argv = [] then Ret s
          else bind (builtin_cmd argv e s) (\<lambda>(s, builtin).
            bind (if builtin then Ret s else launch line argv bg e s) (\<lambda>s. Ret (messages s))))"

text \<open>The loop of \<open>main\<close> over the lines of the input; at its end the shell exits.\<close>

definition shell_start :: "bool \<Rightarrow> shell" where
  "shell_start v = \<lparr>jobs = initjobs, nextjid = 1, verbose = v, stop_msg = False, term_msg = False,
     msg_jid = 0, msg_pid = 0, msg_sig = 0, out = []\<rparr>"

fun shell_loop :: "(string \<times> env) list \<Rightarrow> shell \<Rightarrow> shell outcome" where
  "shell_loop [] s = Exit 0 s"
| "shell_loop ((line, e) # ls) s =
     bind (deliver_all (idle e) s) (\<lambda>s. bind (eval line e s) (shell_loop ls))"

end
