(* ===== verification/TshCorrect.thy ===== *)
theory TshCorrect
  imports Tsh
begin

text \<open>
  The invariants of the shell: the job list is well formed and, whatever signals arrive in between,
  nothing is in the foreground when a command has been evaluated.  Signals only weaken the job list
  (\<open>weakened\<close>), which carries every preservation proof.
\<close>

section \<open>Invariants of the job list\<close>

definition wf :: "job_t list \<Rightarrow> bool" where
  "wf js \<longleftrightarrow> length js = MAXJOBS \<and> (\<forall>j \<in> set js. 0 \<le> pid j \<and> (pid j = 0 \<longrightarrow> jid j = 0)) \<and>
     (\<forall>i < MAXJOBS. \<forall>k < MAXJOBS. pid (js ! i) = pid (js ! k) \<longrightarrow> pid (js ! i) \<noteq> 0 \<longrightarrow> i = k)"

text \<open>Only the job at index \<open>i\<close> may be in the foreground; none is.\<close>

definition fg_at :: "nat \<Rightarrow> job_t list \<Rightarrow> bool" where
  "fg_at i js \<longleftrightarrow> (\<forall>k < length js. state (js ! k) = FG \<longrightarrow> k = i)"

definition no_fg :: "job_t list \<Rightarrow> bool" where
  "no_fg js \<longleftrightarrow> list_all (\<lambda>j. state j \<noteq> FG) js"

lemma no_fg_nth: "no_fg js \<longleftrightarrow> (\<forall>k < length js. state (js ! k) \<noteq> FG)"
  by (auto simp: no_fg_def list_all_length)

lemma no_fg_at: "no_fg js \<Longrightarrow> fg_at i js"
  by (simp add: no_fg_nth fg_at_def)

lemma first_job_Some: "first_job P js = Some i \<Longrightarrow> i < length js \<and> P (js ! i) \<and> (\<forall>k < i. \<not> P (js ! k))"
proof (induction js arbitrary: i)
  case (Cons j js)
  then show ?case by (auto split: if_splits simp: nth_Cons split: nat.splits)
qed simp

lemma first_job_None: "first_job P js = None \<longleftrightarrow> (\<forall>j \<in> set js. \<not> P j)"
  by (induction js) auto

lemma first_job_this: "wf js \<Longrightarrow> i < MAXJOBS \<Longrightarrow> pid (js ! i) \<noteq> 0 \<Longrightarrow> first_job (\<lambda>j. pid j = pid (js ! i)) js = Some i"
proof -
  assume a: "wf js" "i < MAXJOBS" "pid (js ! i) \<noteq> 0"
  then have "js ! i \<in> set js" by (simp add: wf_def)
  then obtain k where k: "first_job (\<lambda>j. pid j = pid (js ! i)) js = Some k" using first_job_None by fastforce
  from first_job_Some [OF this] a have "k = i" by (auto simp: wf_def)
  with k show ?thesis by simp
qed

lemma wf_update:
  assumes "wf js" "i < length js"
    and "pid j = pid (js ! i) \<and> jid j = jid (js ! i) \<or> pid j = 0 \<and> jid j = 0 \<or> 0 < pid j \<and> pid j \<notin> pid ` set js"
  shows "wf (js[i := j])"
proof -
  have m: "js ! k \<in> set js" if "k < MAXJOBS" for k using that assms(1) by (simp add: wf_def)
  have "0 \<le> pid x \<and> (pid x = 0 \<longrightarrow> jid x = 0)" if "x \<in> set (js[i := j])" for x
  proof -
    from that have "x = j \<or> x \<in> set js" using set_update_subset_insert by fastforce
    then show ?thesis using assms by (auto simp: wf_def)
  qed
  moreover have "a = b" if "a < MAXJOBS" "b < MAXJOBS" "pid (js[i := j] ! a) = pid (js[i := j] ! b)" "pid (js[i := j] ! a) \<noteq> 0" for a b
  proof -
    have new: "pid (js ! k) \<noteq> pid j" if "k < MAXJOBS" "0 < pid j \<and> pid j \<notin> pid ` set js" for k
      using m [OF that(1)] that(2) by (metis image_eqI)
    have same: "x = y" if "x < MAXJOBS" "y < MAXJOBS" "pid (js ! x) = pid (js ! y)" "pid (js ! x) \<noteq> 0" for x y
      using assms(1) that unfolding wf_def by blast
    have l: "i < length js" by fact
    consider "a = i" "b = i" | "a = i" "b \<noteq> i" | "a \<noteq> i" "b = i" | "a \<noteq> i" "b \<noteq> i" by blast
    then show ?thesis
    proof cases
      case 2
      then have "pid j = pid (js ! b)" "pid j \<noteq> 0" using that(3,4) l by simp_all
      with assms(3) new [OF that(2)] same [OF that(1,2)] 2 show ?thesis by auto
    next
      case 3
      then have "pid (js ! a) = pid j" "pid (js ! a) \<noteq> 0" using that(3,4) l by simp_all
      with assms(3) new [OF that(1)] same [OF that(1,2)] 3 show ?thesis by auto
    next
      case 4
      then show ?thesis using same [OF that(1,2)] that(3,4) by simp
    qed simp
  qed
  ultimately show ?thesis using assms(1) by (simp add: wf_def)
qed

lemma fg_at_update: "fg_at i js \<Longrightarrow> state j \<noteq> FG \<Longrightarrow> fg_at i (js[k := j])"
  by (simp add: fg_at_def) (metis nth_list_update_eq nth_list_update_neq)

lemma no_fg_update: "no_fg js \<Longrightarrow> state j \<noteq> FG \<Longrightarrow> no_fg (js[k := j])"
  by (simp add: no_fg_nth) (metis nth_list_update_eq nth_list_update_neq)

lemma fgpid_at: "fg_at i js \<Longrightarrow> i < length js \<Longrightarrow> fgpid js \<noteq> pid (js ! i) \<Longrightarrow> no_fg js"
proof -
  assume a: "fg_at i js" "i < length js" "fgpid js \<noteq> pid (js ! i)"
  have "state (js ! i) \<noteq> FG"
  proof
    assume "state (js ! i) = FG"
    then obtain k where "first_job (\<lambda>j. state j = FG) js = Some k"
      using a(2) first_job_None [of "\<lambda>j. state j = FG" js] by fastforce
    moreover with first_job_Some [OF this] a(1) have "k = i" by (auto simp: fg_at_def)
    ultimately show False using a(3) by (simp add: fgpid_def)
  qed
  with a(1) show ?thesis by (auto simp: fg_at_def no_fg_nth)
qed

lemma fgpid_no_fg: "no_fg js \<Longrightarrow> fgpid js = 0"
  by (auto simp: no_fg_def fgpid_def list_all_iff first_job_None dest!: first_job_Some split: option.splits)

section \<open>What signals can do\<close>

text \<open>Anything a signal does to the job at an index keeps its ids or clears them, and does not put it
  in the foreground.\<close>

definition weaker :: "job_t \<Rightarrow> job_t \<Rightarrow> bool" where
  "weaker j j' \<longleftrightarrow> j' = j \<or> state j' \<noteq> FG \<and> (pid j' = pid j \<and> jid j' = jid j \<or> pid j' = 0 \<and> jid j' = 0)"

definition weakened :: "job_t list \<Rightarrow> job_t list \<Rightarrow> bool" where
  "weakened js js' \<longleftrightarrow> list_all2 weaker js js'"

lemma weaker_trans: "weaker a b \<Longrightarrow> weaker b c \<Longrightarrow> weaker a c"
  by (auto simp: weaker_def)

lemma weakened_refl [simp]: "weakened js js"
  by (simp add: weakened_def list_all2_refl weaker_def)

lemma weakened_trans: "weakened a b \<Longrightarrow> weakened b c \<Longrightarrow> weakened a c"
  unfolding weakened_def by (rule list_all2_trans [OF weaker_trans])

lemma weakened_update: "i < length js \<Longrightarrow> weaker (js ! i) j \<Longrightarrow> weakened js (js[i := j])"
  by (auto simp: weakened_def list_all2_conv_all_nth nth_list_update weaker_def)

lemma weakened_length: "weakened js js' \<Longrightarrow> length js' = length js"
  by (simp add: weakened_def list_all2_lengthD [symmetric])

lemma weakened_nth: "weakened js js' \<Longrightarrow> i < length js \<Longrightarrow> weaker (js ! i) (js' ! i)"
  by (simp add: weakened_def list_all2_nthD)

lemma weakened_wf:
  assumes "weakened js js'" "wf js"
  shows "wf js'"
proof -
  have l: "length js = MAXJOBS" "length js' = MAXJOBS" using assms weakened_length by (auto simp: wf_def)
  have w: "js' ! i = js ! i \<or> pid (js' ! i) = pid (js ! i) \<and> jid (js' ! i) = jid (js ! i) \<or> pid (js' ! i) = 0 \<and> jid (js' ! i) = 0"
    if "i < MAXJOBS" for i
    using weakened_nth [OF assms(1), of i] that l by (auto simp: weaker_def)
  have m: "0 \<le> pid (js ! i) \<and> (pid (js ! i) = 0 \<longrightarrow> jid (js ! i) = 0)" if "i < MAXJOBS" for i
    using assms(2) that l by (auto simp: wf_def)
  have "0 \<le> pid j \<and> (pid j = 0 \<longrightarrow> jid j = 0)" if "j \<in> set js'" for j
  proof -
    from that l obtain i where "i < MAXJOBS" "j = js' ! i" by (auto simp: in_set_conv_nth)
    then show ?thesis using w [of i] m [of i] by auto
  qed
  moreover have "i = k" if "i < MAXJOBS" "k < MAXJOBS" "pid (js' ! i) = pid (js' ! k)" "pid (js' ! i) \<noteq> 0" for i k
  proof -
    have "pid (js ! i) = pid (js ! k)" "pid (js ! i) \<noteq> 0" using w [OF that(1)] w [OF that(2)] that(3,4) by auto
    then show ?thesis using assms(2) that(1,2) by (simp add: wf_def)
  qed
  ultimately show ?thesis using l by (simp add: wf_def)
qed

lemma weakened_fg_at: "weakened js js' \<Longrightarrow> fg_at i js \<Longrightarrow> fg_at i js'"
  using weakened_length weakened_nth by (fastforce simp: fg_at_def weaker_def)

lemma weakened_no_fg: "weakened js js' \<Longrightarrow> no_fg js \<Longrightarrow> no_fg js'"
  using weakened_length weakened_nth by (fastforce simp: no_fg_nth weaker_def)

text \<open>The job of the process in the foreground keeps its pid as long as it is there.\<close>

lemma weakened_pid: "weakened js js' \<Longrightarrow> i < length js \<Longrightarrow> pid (js' ! i) = pid (js ! i) \<or> pid (js' ! i) = 0 \<and> state (js' ! i) \<noteq> FG"
  using weakened_nth by (fastforce simp: weaker_def)

lemma weaker_clear [simp]: "weaker j clearjob"
  by (simp add: weaker_def clearjob_def)

lemma deletejob_weakened: "weakened (jobs s) (jobs (snd (deletejob p s)))"
  by (auto simp: deletejob_def Let_def intro!: weakened_update dest!: first_job_Some split: option.splits)

lemma reap_weakened: "weakened (jobs s) (jobs (reap p st s))"
proof (cases st)
  case Exited
  then show ?thesis by (simp add: reap_def deletejob_weakened)
next
  case (Stopped sig)
  then show ?thesis
    by (auto simp: reap_def Let_def getjobpid_def weaker_def intro!: weakened_update dest!: first_job_Some split: option.splits if_splits)
next
  case (Signaled sig)
  then show ?thesis
    using deletejob_weakened [of "s\<lparr>msg_jid := pid2jid p (jobs s), msg_pid := p, msg_sig := sig, term_msg := True\<rparr>" p]
    by (simp add: reap_def Let_def)
qed

lemma sigchld_weakened: "weakened (jobs s) (jobs (sigchld_handler rs s))"
  by (induction rs s rule: sigchld_handler.induct) (auto intro: weakened_trans reap_weakened)

lemma bind_Ret: "bind r f = Ret y \<longleftrightarrow> (\<exists>x. r = Ret x \<and> f x = Ret y)"
  by (cases r) auto

lemma printf_jobs [simp]: "jobs (printf f is ss s) = jobs s" "nextjid (printf f is ss s) = nextjid s"
  by (simp_all add: printf_def)

lemma kill_jobs: "kill p sig ok s = Ret s' \<Longrightarrow> jobs s' = jobs s"
  by (auto simp: kill_def Let_def split: if_splits)

lemma deliver_weakened: "deliver g s = Ret s' \<Longrightarrow> weakened (jobs s) (jobs s')"
  by (cases g) (auto simp: sigchld_weakened sigint_handler_def sigtstp_handler_def Let_def dest: kill_jobs split: if_splits)

lemma deliver_all_weakened: "deliver_all gs s = Ret s' \<Longrightarrow> weakened (jobs s) (jobs s')"
  by (induction gs arbitrary: s) (auto simp: bind_Ret dest!: deliver_weakened intro: weakened_trans)

lemma waitfg_Ret:
  "waitfg p gs s = Ret (s', gs') \<Longrightarrow> weakened (jobs s) (jobs s') \<and> fgpid (jobs s') \<noteq> p"
proof (induction gs arbitrary: s)
  case Nil
  then show ?case by (auto simp: waitfg.simps split: if_splits)
next
  case (Cons g gs)
  show ?case
  proof (cases "p = fgpid (jobs s)")
    case True
    then have "bind (deliver g s) (waitfg p gs) = Ret (s', gs')"
      using Cons.prems by (subst (asm) waitfg.simps) simp
    then obtain s1 where s1: "deliver g s = Ret s1" "waitfg p gs s1 = Ret (s', gs')"
      by (auto simp: bind_Ret)
    then show ?thesis using Cons.IH [OF s1(2)] deliver_weakened [OF s1(1)] by (auto intro: weakened_trans)
  next
    case False
    with Cons.prems show ?thesis by (subst (asm) waitfg.simps) auto
  qed
qed

text \<open>When the wait for the only job that may be in the foreground ends, nothing is there.\<close>

lemma waitfg_no_fg:
  assumes "waitfg (pid (jobs s ! i)) gs s = Ret (s', gs')" "fg_at i (jobs s)" "i < length (jobs s)"
  shows "no_fg (jobs s')"
proof -
  from waitfg_Ret [OF assms(1)] have w: "weakened (jobs s) (jobs s')" "fgpid (jobs s') \<noteq> pid (jobs s ! i)" by auto
  have l: "i < length (jobs s')" using w(1) assms(3) weakened_length by simp
  have f: "fg_at i (jobs s')" using w(1) assms(2) by (rule weakened_fg_at)
  from weakened_pid [OF w(1) assms(3)] show ?thesis
  proof
    assume "pid (jobs s' ! i) = pid (jobs s ! i)"
    with w(2) fgpid_at [OF f l] show ?thesis by simp
  next
    assume "pid (jobs s' ! i) = 0 \<and> state (jobs s' ! i) \<noteq> FG"
    with f show ?thesis by (auto simp: fg_at_def no_fg_nth)
  qed
qed


section \<open>What commands can do\<close>

lemma messages_jobs [simp]: "jobs (messages s) = jobs s"
  by (simp add: messages_def Let_def)

lemma listjob_jobs [simp]: "jobs (listjob i j s) = jobs s"
  by (simp add: listjob_def Let_def split: jstate.splits)

lemma listjobs_jobs [simp]: "jobs (listjobs s) = jobs s"
proof -
  have "jobs (fold (\<lambda>i s. listjob i (jobs s ! i) s) xs s) = jobs s" for xs
    by (induction xs arbitrary: s) auto
  then show ?thesis by (simp add: listjobs_def)
qed

lemma find_job_Ret:
  "find_job cmd operand s = Ret (job, s') \<Longrightarrow> jobs s' = jobs s \<and> (case job of None \<Rightarrow> True | Some i \<Rightarrow> i < length (jobs s))"
  by (auto simp: find_job_def Let_def bind_Ret getjobjid_def getjobpid_def
      dest!: first_job_Some split: if_splits option.splits)

lemma addjob_wf:
  "wf (jobs s) \<Longrightarrow> 0 < p \<Longrightarrow> p \<notin> pid ` set (jobs s) \<Longrightarrow> wf (jobs (snd (addjob p st cmd s)))"
  by (auto simp: addjob_def Let_def intro!: wf_update dest!: first_job_Some split: option.splits)

text \<open>After \<open>addjob\<close> only the new job can be in the foreground, and it is where its pid is found.\<close>

lemma addjob_fg:
  assumes "no_fg (jobs s)" "0 < p"
  shows "no_fg (jobs (snd (addjob p st cmd s))) \<or>
    (\<exists>i < length (jobs (snd (addjob p st cmd s))). fg_at i (jobs (snd (addjob p st cmd s))) \<and>
       pid (jobs (snd (addjob p st cmd s)) ! i) = p)"
proof (cases "first_job (\<lambda>j. pid j = 0) (jobs s)")
  case None
  then show ?thesis using assms by (simp add: addjob_def)
next
  case (Some i)
  let ?j = "\<lparr>pid = p, jid = nextjid s, state = st, cmdline = cmd\<rparr>"
  have js: "jobs (snd (addjob p st cmd s)) = (jobs s)[i := ?j]" using Some assms(2) by (simp add: addjob_def Let_def)
  have i: "i < length (jobs s)" using first_job_Some [OF Some] by simp
  have "fg_at i ((jobs s)[i := ?j])" using assms(1)
    by (simp add: fg_at_def no_fg_nth) (metis nth_list_update_neq)
  with i show ?thesis unfolding js by auto
qed

lemma addjob_no_fg: "no_fg (jobs s) \<Longrightarrow> st \<noteq> FG \<Longrightarrow> no_fg (jobs (snd (addjob p st cmd s)))"
  by (auto simp: addjob_def Let_def intro!: no_fg_update split: option.splits)

definition fresh_pid :: "env \<Rightarrow> shell \<Rightarrow> bool" where
  "fresh_pid e s \<longleftrightarrow> 0 < forked e \<and> forked e \<notin> pid ` set (jobs s)"

lemma set_state_wf: "wf (jobs s) \<Longrightarrow> wf (jobs (set_state i st s))"
  by (cases "i < length (jobs s)") (auto simp: set_state_def list_update_beyond intro: wf_update)

lemma set_state_fg: "no_fg (jobs s) \<Longrightarrow> fg_at i (jobs (set_state i FG s))"
  by (auto simp: set_state_def fg_at_def no_fg_nth) (metis nth_list_update_neq)

lemma set_state_no_fg: "no_fg (jobs s) \<Longrightarrow> st \<noteq> FG \<Longrightarrow> no_fg (jobs (set_state i st s))"
  by (simp add: set_state_def no_fg_update)

lemma do_bgfg_keeps:
  assumes "do_bgfg argv e s = Ret s'" "wf (jobs s)" "no_fg (jobs s)"
  shows "wf (jobs s') \<and> no_fg (jobs s')"
proof (cases "length argv < 2")
  case True
  then show ?thesis using assms by (auto simp: do_bgfg_def Let_def)
next
  case False
  from assms(1) False obtain job s0 where f: "find_job (argv ! 0) (argv ! 1) s = Ret (job, s0)"
    by (auto simp: do_bgfg_def Let_def bind_Ret)
  from find_job_Ret [OF f] have s0: "jobs s0 = jobs s" by simp
  show ?thesis
  proof (cases job)
    case None
    then show ?thesis using assms f s0 False by (simp add: do_bgfg_def Let_def)
  next
    case (Some i)
    then have i: "i < length (jobs s)" using find_job_Ret [OF f] by simp
    from assms(1) False f Some obtain s1 s2 where
      s1: "deliver_all (early e) s0 = Ret s1" "kill (- pid (jobs s1 ! i)) 18 (kill_ok e) s1 = Ret s2"
      by (auto simp: do_bgfg_def Let_def bind_Ret)
    have w1: "weakened (jobs s) (jobs s1)" using deliver_all_weakened [OF s1(1)] s0 by simp
    have j2: "jobs s2 = jobs s1" by (rule kill_jobs [OF s1(2)])
    have ok2: "wf (jobs s2)" "no_fg (jobs s2)" "length (jobs s2) = length (jobs s)"
      using weakened_wf [OF w1 assms(2)] weakened_no_fg [OF w1 assms(3)] weakened_length [OF w1] by (simp_all add: j2)
    show ?thesis
    proof (cases "argv ! 0 = ''bg''")
      case True
      let ?p = "printf ''[%d] (%d) %s'' [pid2jid (pid (jobs s2 ! i)) (jobs s2), pid (jobs s2 ! i)] [cmdline (jobs s2 ! i)] s2"
      from assms(1) False f Some s1 True obtain s3 where
        "deliver_all (middle e) (set_state i BG ?p) = Ret s3" "deliver_all (late e) s3 = Ret s'"
        by (auto simp: do_bgfg_def Let_def bind_Ret)
      from weakened_trans [OF deliver_all_weakened [OF this(1)] deliver_all_weakened [OF this(2)]]
      have w: "weakened (jobs (set_state i BG ?p)) (jobs s')" .
      have "wf (jobs (set_state i BG ?p))" "no_fg (jobs (set_state i BG ?p))"
        using ok2 by (simp_all add: set_state_wf set_state_no_fg)
      with weakened_wf [OF w] weakened_no_fg [OF w] show ?thesis by blast
    next
      case fg: False
      from assms(1) False f Some s1 fg obtain s3 s4 gs where
        s3: "deliver_all (middle e) (set_state i FG s2) = Ret s3" "waitfg (pid (jobs s3 ! i)) (late e) s3 = Ret (s4, gs)"
        "deliver_all gs s4 = Ret s'"
        by (auto simp: do_bgfg_def Let_def bind_Ret)
      have w: "weakened (jobs (set_state i FG s2)) (jobs s3)" by (rule deliver_all_weakened [OF s3(1)])
      have "fg_at i (jobs s3)" "wf (jobs s3)" using w set_state_fg [OF ok2(2)] set_state_wf [OF ok2(1)]
        by (auto intro: weakened_fg_at weakened_wf)
      moreover have "i < length (jobs s3)" using weakened_length [OF w] i ok2(3) by (simp add: set_state_def)
      ultimately have "no_fg (jobs s4)" "wf (jobs s4)"
        using waitfg_no_fg [OF s3(2)] waitfg_Ret [OF s3(2)] by (auto intro: weakened_wf)
      with deliver_all_weakened [OF s3(3)] show ?thesis by (blast intro: weakened_wf weakened_no_fg)
    qed
  qed
qed

lemma launch_keeps:
  assumes "launch line argv bg e s = Ret s'" "wf (jobs s)" "no_fg (jobs s)" "fresh_pid e s"
  shows "wf (jobs s') \<and> no_fg (jobs s')"
proof -
  let ?s = "s\<lparr>out := out s @ [Execve (forked e) argv]\<rparr>"
  have p: "0 < forked e" "\<not> forked e < 0" "forked e \<notin> pid ` set (jobs ?s)" using assms(4) by (auto simp: fresh_pid_def)
  have wfa: "wf (jobs (snd (addjob (forked e) st line ?s)))" for st by (rule addjob_wf) (use assms(2) p in auto)
  show ?thesis
  proof (cases bg)
    case True
    from assms(1) p True obtain s1 where s1: "deliver_all (middle e) (snd (addjob (forked e) BG line ?s)) = Ret s1"
      "deliver_all (late e) (printf ''[%d] (%d) %s'' [pid2jid (forked e) (jobs s1), forked e] [line] s1) = Ret s'"
      by (auto simp: launch_def Let_def bind_Ret)
    have w: "weakened (jobs (snd (addjob (forked e) BG line ?s))) (jobs s')"
      using weakened_trans [OF deliver_all_weakened [OF s1(1)]] deliver_all_weakened [OF s1(2)] by simp
    have "no_fg (jobs (snd (addjob (forked e) BG line ?s)))" by (rule addjob_no_fg) (use assms(3) in auto)
    with w wfa show ?thesis by (blast intro: weakened_wf weakened_no_fg)
  next
    case False
    from assms(1) p False obtain s1 s2 gs where s1: "deliver_all (middle e) (snd (addjob (forked e) FG line ?s)) = Ret s1"
      "waitfg (forked e) (late e) s1 = Ret (s2, gs)" "deliver_all gs s2 = Ret s'"
      by (auto simp: launch_def Let_def bind_Ret)
    have w: "weakened (jobs (snd (addjob (forked e) FG line ?s))) (jobs s1)" by (rule deliver_all_weakened [OF s1(1)])
    have w2: "weakened (jobs s1) (jobs s2)" using waitfg_Ret [OF s1(2)] by simp
    have "no_fg (jobs ?s)" using assms(3) by simp
    from addjob_fg [OF this p(1), of FG line]
    have "no_fg (jobs s2)"
    proof (elim disjE exE conjE)
      assume "no_fg (jobs (snd (addjob (forked e) FG line ?s)))"
      with w w2 show ?thesis by (blast intro: weakened_no_fg)
    next
      fix i assume i: "i < length (jobs (snd (addjob (forked e) FG line ?s)))"
        "fg_at i (jobs (snd (addjob (forked e) FG line ?s)))" "pid (jobs (snd (addjob (forked e) FG line ?s)) ! i) = forked e"
      have i1: "i < length (jobs s1)" "fg_at i (jobs s1)" using i w weakened_length [OF w] by (auto intro: weakened_fg_at)
      from weakened_pid [OF w i(1)] show ?thesis
      proof
        assume "pid (jobs s1 ! i) = pid (jobs (snd (addjob (forked e) FG line ?s)) ! i)"
        with waitfg_no_fg [of s1 i "late e" s2 gs] s1(2) i(3) i1 show ?thesis by simp
      next
        assume "pid (jobs s1 ! i) = 0 \<and> state (jobs s1 ! i) \<noteq> FG"
        with i1 have "no_fg (jobs s1)" by (auto simp: fg_at_def no_fg_nth)
        with w2 show ?thesis by (rule weakened_no_fg)
      qed
    qed
    moreover have "wf (jobs s2)" using wfa w w2 by (blast intro: weakened_wf)
    ultimately show ?thesis using deliver_all_weakened [OF s1(3)] by (blast intro: weakened_wf weakened_no_fg)
  qed
qed

lemma eval_keeps:
  assumes "eval line e s = Ret s'" "wf (jobs s)" "no_fg (jobs s)" "fresh_pid e s"
  shows "wf (jobs s') \<and> no_fg (jobs s')"
proof -
  from assms(1) obtain argv bg where p: "parseline line = Some (argv, bg)" by (auto simp: eval_def split: option.splits)
  show ?thesis
  proof (cases "argv = []")
    case True
    then show ?thesis using assms p by (simp add: eval_def)
  next
    case False
    from assms(1) p False obtain s1 b s2 where b: "builtin_cmd argv e s = Ret (s1, b)"
      "(if b then Ret s1 else launch line argv bg e s1) = Ret s2" "s' = messages s2"
      by (auto simp: eval_def bind_Ret)
    have 1: "wf (jobs s1) \<and> no_fg (jobs s1)" "\<not> b \<Longrightarrow> s1 = s"
      using b(1) assms(2,3) do_bgfg_keeps [of argv e s] by (auto simp: builtin_cmd_def bind_Ret split: if_splits)
    show ?thesis
    proof (cases b)
      case True
      with b 1 show ?thesis by simp
    next
      case False
      with b 1 launch_keeps [of line argv bg e s s2] assms(2-) show ?thesis by simp
    qed
  qed
qed

end
