(* ===== verification/TshProps.thy ===== *)
theory TshProps
  imports TshCorrect
begin

text \<open>
  The properties of the shell: the invariant of the states in which it reads a command, the wait for
  the foreground job, the parser, and the job ids.
\<close>

section \<open>The states in which the shell reads a line\<close>

inductive at_prompt :: "shell \<Rightarrow> bool" where
  start: "at_prompt (shell_start v)"
| signals: "at_prompt s \<Longrightarrow> deliver_all gs s = Ret s' \<Longrightarrow> at_prompt s'"
| command: "at_prompt s \<Longrightarrow> fresh_pid e s \<Longrightarrow> eval line e s = Ret s' \<Longrightarrow> at_prompt s'"

text \<open>C24: whenever the shell reads a command, no job is in the foreground, no two jobs have the same
  process, and free entries have no job id, whichever signals arrived in whichever window of the
  commands before.\<close>

theorem prompt_invariant:
  assumes "at_prompt s"
  shows "wf (jobs s) \<and> no_fg (jobs s)"
  using assms
proof induction
  case (start v)
  show ?case by (simp add: shell_start_def initjobs_def wf_def no_fg_def clearjob_def list_all_iff)
next
  case (signals s gs s')
  then show ?case using weakened_wf weakened_no_fg deliver_all_weakened by blast
next
  case (command s e line s')
  then show ?case using eval_keeps by blast
qed

definition env0 :: "int \<Rightarrow> env" where
  "env0 p = \<lparr>forked = p, kill_ok = True, idle = [], early = [], middle = [], late = []\<rparr>"

definition shell1 :: shell where
  "shell1 = (shell_start False)\<lparr>
     jobs := \<lparr>pid = 70, jid = 1, state = BG, cmdline = ''./a &'' @ [CHR 0x0A]\<rparr> # replicate 15 clearjob,
     nextjid := 2, out := [Execve 70 [''./a''], Printf ''[%d] (%d) %s'' [1, 70] [''./a &'' @ [CHR 0x0A]]]\<rparr>"

lemma shell1_start: "eval (''./a &'' @ [CHR 0x0A]) (env0 70) (shell_start False) = Ret shell1"
  by code_simp

lemma shell_start_ok: "wf (jobs (shell_start v))" "no_fg (jobs (shell_start v))"
  by (simp_all add: shell_start_def initjobs_def wf_def no_fg_def clearjob_def list_all_iff)

lemma fresh1: "fresh_pid (env0 70) (shell_start False)"
  by (simp add: fresh_pid_def env0_def shell_start_def initjobs_def clearjob_def MAXJOBS_def)

theorem prompt_invariant_witness: "wf (jobs shell1) \<and> no_fg (jobs shell1)"
proof (rule prompt_invariant)
  show "at_prompt shell1" by (rule at_prompt.command [OF at_prompt.start fresh1 shell1_start])
qed

section \<open>Waiting for the foreground job\<close>

definition clear_of :: "int \<Rightarrow> job_t list \<Rightarrow> bool" where
  "clear_of p js \<longleftrightarrow> (\<forall>j \<in> set js. pid j = p \<longrightarrow> state j \<noteq> FG)"

lemma clear_of_weakened: "weakened js js' \<Longrightarrow> clear_of p js \<Longrightarrow> 0 < p \<Longrightarrow> clear_of p js'"
  using weakened_length weakened_nth by (fastforce simp: clear_of_def weaker_def in_set_conv_nth)

lemma clear_of_fgpid: "clear_of p js \<Longrightarrow> 0 < p \<Longrightarrow> fgpid js \<noteq> p"
  by (auto simp: clear_of_def fgpid_def dest!: first_job_Some split: option.splits)

lemma reap_clear:
  assumes "wf (jobs s)" "0 < p"
  shows "clear_of p (jobs (reap p st s))"
proof (cases "first_job (\<lambda>j. pid j = p) (jobs s)")
  case None
  then have "clear_of p (jobs s)" by (simp add: first_job_None clear_of_def)
  then show ?thesis by (rule clear_of_weakened [OF reap_weakened _ assms(2)])
next
  case (Some i)
  note i = first_job_Some [OF Some]
  have "clear_of p ((jobs s)[i := j])" if "state j \<noteq> FG" for j
  proof -
    have "k = i" if "k < length (jobs s)" "pid (jobs s ! k) = p" for k
      using assms that i unfolding wf_def by (metis less_irrefl)
    then have "state ((jobs s)[i := j] ! k) \<noteq> FG" if "k < length (jobs s)" "pid ((jobs s)[i := j] ! k) = p" for k
      using that \<open>state j \<noteq> FG\<close> i by (cases "k = i") auto
    then show ?thesis by (auto simp: clear_of_def in_set_conv_nth)
  qed
  with Some assms(2) show ?thesis
    by (cases st) (auto simp: reap_def deletejob_def getjobpid_def Let_def clearjob_def)
qed

lemma sigchld_clear:
  "wf (jobs s) \<Longrightarrow> 0 < p \<Longrightarrow> (p, st) \<in> set rs \<Longrightarrow> list_all (\<lambda>(q, st). 0 < q) rs \<Longrightarrow>
   clear_of p (jobs (sigchld_handler rs s))"
proof (induction rs s rule: sigchld_handler.induct)
  case (2 q sq rs s)
  show ?case
  proof (cases "(p, st) = (q, sq)")
    case True
    with 2 reap_clear [of s p st] show ?thesis by (auto intro: clear_of_weakened sigchld_weakened)
  next
    case False
    with 2 show ?thesis by (auto intro: weakened_wf reap_weakened)
  qed
qed simp

lemma deliver_Ret: "g \<noteq> SIGINT False \<Longrightarrow> g \<noteq> SIGTSTP False \<Longrightarrow> \<exists>s'. deliver g s = Ret s'"
  by (cases g) (auto simp: sigint_handler_def sigtstp_handler_def kill_def Let_def)

lemma waitfg_zero: "no_fg (jobs s) \<Longrightarrow> \<exists>s'. waitfg 0 gs s = Block s'"
proof (induction gs arbitrary: s)
  case Nil
  then show ?case by (simp add: waitfg.simps fgpid_no_fg)
next
  case (Cons g gs)
  have "\<exists>s1. deliver g s = Ret s1"
    using Cons.prems by (cases g) (simp_all add: sigint_handler_def sigtstp_handler_def fgpid_no_fg)
  then obtain s1 where s1: "deliver g s = Ret s1" by blast
  have "no_fg (jobs s1)" using deliver_weakened [OF s1] Cons.prems by (rule weakened_no_fg)
  then show ?case using Cons.IH [of s1] Cons.prems s1 by (subst waitfg.simps) (simp add: fgpid_no_fg)
qed

definition shell2 :: shell where
  "shell2 = shell1\<lparr>jobs := \<lparr>pid = 70, jid = 1, state = FG, cmdline = ''./a'' @ [CHR 0x0A]\<rparr> # replicate 15 clearjob\<rparr>"

lemma shell1_ok: "wf (jobs shell1)" "no_fg (jobs shell1)"
  using eval_keeps [OF shell1_start] by (auto simp: shell_start_ok fresh1)

lemma shell1_job: "find_job ''fg'' ''%1'' shell1 = Ret (Some 0, shell1)" "pid (jobs shell1 ! 0) = 70"
  by code_simp+

lemma shell2_wf: "wf (jobs shell2)"
proof -
  have "jobs shell2 = (jobs shell1)[0 := (jobs shell1 ! 0)\<lparr>state := FG, cmdline := ''./a'' @ [CHR 0x0A]\<rparr>]"
    by (simp add: shell2_def shell1_def)
  moreover have "0 < length (jobs shell1)" by (simp add: shell1_def)
  ultimately show ?thesis using shell1_ok(1) by (simp add: wf_update)
qed

text \<open>C25: the wait for a foreground job ends once \<open>waitpid\<close> has reported it as exited, stopped or
  killed, however many other signals arrive before.\<close>

theorem waitfg_returns:
  assumes "wf (jobs s)" and "0 < p" and "SIGCHLD rs \<in> set gs" and "(p, st) \<in> set rs"
    and "list_all (\<lambda>(q, st). 0 < q) rs" and "SIGINT False \<notin> set gs" and "SIGTSTP False \<notin> set gs"
  shows "\<exists>s' gs'. waitfg p gs s = Ret (s', gs') \<and> fgpid (jobs s') \<noteq> p"
proof -
  have "\<exists>s' gs'. waitfg p gs s = Ret (s', gs')"
    using assms
  proof (induction gs arbitrary: s)
    case (Cons g gs)
    show ?case
    proof (cases "p = fgpid (jobs s)")
      case True
      from deliver_Ret [of g s] Cons.prems(6,7) obtain s1 where s1: "deliver g s = Ret s1" by auto
      have w: "weakened (jobs s) (jobs s1)" by (rule deliver_weakened [OF s1])
      have step: "waitfg p (g # gs) s = waitfg p gs s1" using True s1 by (subst waitfg.simps) simp
      show ?thesis
      proof (cases "g = SIGCHLD rs")
        case g: True
        then have "clear_of p (jobs s1)" using s1 sigchld_clear [OF Cons.prems(1,2,4,5)] by simp
        then have "fgpid (jobs s1) \<noteq> p" using Cons.prems(2) by (rule clear_of_fgpid)
        then show ?thesis unfolding step by (subst waitfg.simps) auto
      next
        case False
        then show ?thesis unfolding step using Cons weakened_wf [OF w] by auto
      qed
    next
      case False
      then show ?thesis by (subst waitfg.simps) auto
    qed
  qed simp
  then show ?thesis using waitfg_Ret by blast
qed

theorem waitfg_returns_witness:
  "\<exists>s' gs'. waitfg 70 [SIGTSTP True, SIGCHLD [(70, Stopped 20)]] shell2 = Ret (s', gs') \<and> fgpid (jobs s') \<noteq> 70"
  by (rule waitfg_returns [where rs = "[(70, Stopped 20)]" and st = "Stopped 20"])
    (simp_all add: shell2_wf)

text \<open>If the job that \<open>fg\<close> continues exits before the shell starts to wait for it, its entry is
  already cleared when its process id is read: the shell waits for process 0 for ever, whatever
  signals still arrive.\<close>

theorem fg_waits_for_ever:
  assumes "wf (jobs s)" and "no_fg (jobs s)" and "find_job ''fg'' operand s = Ret (Some i, s)"
    and "early e = []" and "kill_ok e" and "middle e = [SIGCHLD [(pid (jobs s ! i), Exited)]]"
    and "0 < pid (jobs s ! i)"
  shows "\<exists>s'. do_bgfg [''fg'', operand] e s = Block s'"
proof -
  have i: "i < length (jobs s)" using find_job_Ret [OF assms(3)] by simp
  let ?s1 = "s\<lparr>out := out s @ [Kill (- pid (jobs s ! i)) 18]\<rparr>"
  let ?s2 = "sigchld_handler [(pid (jobs s ! i), Exited)] (set_state i FG ?s1)"
  let ?js = "jobs (set_state i FG ?s1)"
  have r: "do_bgfg [''fg'', operand] e s = bind (waitfg (pid (jobs ?s2 ! i)) (late e) ?s2) (\<lambda>(s, gs). deliver_all gs s)"
    using assms(3-6) by (simp add: do_bgfg_def kill_def Let_def del: sigchld_handler.simps)
  have js: "?js ! i = (jobs s ! i)\<lparr>state := FG\<rparr>" "length ?js = length (jobs s)" using i by (simp_all add: set_state_def)
  have "wf ?js" by (rule set_state_wf) (use assms(1) in simp)
  then have "first_job (\<lambda>j. pid j = pid (?js ! i)) ?js = Some i"
    by (rule first_job_this) (use assms(1,7) i js in \<open>auto simp: wf_def\<close>)
  then have s2: "jobs ?s2 = ?js[i := clearjob]"
    using assms(7) js(1) by (simp add: reap_def deletejob_def Let_def)
  have f: "fg_at i ?js" by (rule set_state_fg) (use assms(2) in simp)
  have "state (?js[i := clearjob] ! k) \<noteq> FG" if "k < length ?js" for k
    using that f by (cases "k = i") (auto simp: clearjob_def fg_at_def)
  then have n: "no_fg (jobs ?s2)" unfolding s2 by (simp add: no_fg_nth)
  have z: "pid (jobs ?s2 ! i) = 0" unfolding s2 using i js(2) by (simp add: clearjob_def)
  from waitfg_zero [OF n, of "late e"] show ?thesis unfolding r z by auto
qed

theorem fg_waits_for_ever_witness:
  "\<exists>s'. do_bgfg [''fg'', ''%1''] ((env0 80)\<lparr>middle := [SIGCHLD [(70, Exited)]], late := [SIGINT True]\<rparr>) shell1 = Block s'"
  by (rule fg_waits_for_ever [where i = 0])
    (simp_all add: shell1_ok shell1_job env0_def)

section \<open>Parsing\<close>

text \<open>The line with every argument in quotes.\<close>

definition quoted :: "string \<Rightarrow> string" where
  "quoted a = CHR 0x27 # a @ [CHR 0x27, CHR '' '']"

definition render :: "string list \<Rightarrow> string" where
  "render as = butlast (concat (map quoted as)) @ [CHR 0x0A]"

definition plain_args :: "string list \<Rightarrow> bool" where
  "plain_args as \<longleftrightarrow> as \<noteq> [] \<and> list_all (\<lambda>a. CHR 0x27 \<notin> set a \<and> CHR 0x00 \<notin> set a) as"

text \<open>The last argument asks for a background job.\<close>

definition ends_in_amp :: "string list \<Rightarrow> bool" where
  "ends_in_amp as \<longleftrightarrow> (\<exists>cs. last as = CHR ''&'' # cs)"

lemma skip_quoted: "skip (concat (map quoted as)) = concat (map quoted as)"
  by (cases as) (simp_all add: skip_def quoted_def)

lemma strchr_first: "c \<notin> set a \<Longrightarrow> strchr c (a @ c # r) = Some (a, r)"
proof -
  assume "c \<notin> set a"
  then have "takeWhile (\<lambda>x. x \<noteq> c) (a @ c # r) = a" "dropWhile (\<lambda>x. x \<noteq> c) (a @ c # r) = c # r"
    by (induction a) auto
  then show ?thesis by (simp add: strchr_def)
qed

lemma args_quoted: "list_all (\<lambda>a. CHR 0x27 \<notin> set a) as \<Longrightarrow> args (concat (map quoted as)) = as"
proof (induction as)
  case Nil
  show ?case by (subst args.simps) (simp add: next_arg_def strchr_def)
next
  case (Cons a as)
  have "next_arg (quoted a @ concat (map quoted as)) = Some (a, CHR '' '' # concat (map quoted as))"
    using Cons.prems strchr_first [of "CHR 0x27" a] by (simp add: next_arg_def quoted_def)
  moreover have "skip (CHR '' '' # concat (map quoted as)) = concat (map quoted as)"
    using skip_quoted [of as] by (simp add: skip_def)
  ultimately show ?case using Cons by (subst args.simps) simp
qed

text \<open>C26: arguments without quotes or NUL bytes in them, written in quotes, are parsed back as they were, blanks and
  all, as a foreground job, unless the last one begins with \<open>&\<close>: that one is dropped, although it is quoted, and the others are a background
  job.  More arguments than \<open>argv\<close> has room for overrun it.\<close>

theorem parseline_render:
  assumes "plain_args as" and "length (render as) < MAXLINE"
  shows "parseline (render as) =
    (if length as \<ge> MAXARGS then None else if ends_in_amp as then Some (butlast as, True) else Some (as, False))"
proof -
  obtain as' b where as: "as = as' @ [b]" using assms(1) by (cases as rule: rev_cases) (auto simp: plain_args_def)
  have "butlast (render as) @ '' '' = concat (map quoted as)"
    by (simp add: render_def as quoted_def butlast_append)
  moreover have "list_all (\<lambda>a. CHR 0x27 \<notin> set a) as" using assms(1) by (simp add: plain_args_def list_all_iff)
  ultimately have "args (skip (butlast (render as) @ '' '')) = as"
    by (simp add: skip_quoted args_quoted)
  moreover have "render as \<noteq> []" by (simp add: render_def)
  moreover have "ends_in_amp as \<longleftrightarrow> last as \<noteq> [] \<and> hd (last as) = CHR ''&''"
    by (cases "last as") (auto simp: ends_in_amp_def)
  ultimately show ?thesis using assms by (auto simp: parseline_def Let_def plain_args_def)
qed

theorem parseline_render_witness:
  "parseline (render [''./a'', ''x y'', '''']) = Some ([''./a'', ''x y'', ''''], False) \<and>
   parseline (render [''./a'', ''&x'']) = Some ([''./a''], True)"
  using parseline_render [of "[''./a'', ''x y'', '''']"] parseline_render [of "[''./a'', ''&x'']"]
  by (simp add: plain_args_def ends_in_amp_def render_def quoted_def MAXLINE_def MAXARGS_def)

text \<open>\<open>&\<close> between the two comparisons is bitwise: a command \<open>rm\<close> is taken for \<open>bg\<close> or \<open>fg\<close>, and is
  never run.\<close>

theorem builtin_rm:
  "eval (''rm'' @ [CHR 0x0A]) e s =
     Ret (messages (printf ''%s command requires PID or %%jobid argument'' [] [''rm''] s))"
proof -
  have "parseline (''rm'' @ [CHR 0x0A]) = Some ([''rm''], False)" by code_simp
  moreover have "strcmp ''rm'' ''quit'' \<noteq> 0" "strcmp ''rm'' ''jobs'' \<noteq> 0"
    "strcmp ''rm'' ''bg'' AND strcmp ''rm'' ''fg'' = 0"
    by code_simp+
  ultimately show ?thesis by (simp add: eval_def builtin_cmd_def do_bgfg_def Let_def)
qed

section \<open>Job ids\<close>

text \<open>The job lists and next ids the shell can have at its prompt.\<close>

definition reaches :: "job_t list \<Rightarrow> int \<Rightarrow> bool" where
  "reaches js n \<longleftrightarrow> (\<exists>s. at_prompt s \<and> jobs s = js \<and> nextjid s = n \<and> \<not> verbose s)"

definition background_line :: string where
  "background_line = ''./a &'' @ [CHR 0x0A]"

lemma background_parsed: "parseline background_line = Some ([''./a''], True)"
  unfolding background_line_def by code_simp

lemma background_not_builtin: "builtin_cmd [''./a''] e s = Ret (s, False)"
  by code_simp

lemma messages_keeps [simp]: "nextjid (messages s) = nextjid s" "verbose (messages s) = verbose s"
  by (simp_all add: messages_def Let_def printf_def)

lemma reaches_background:
  assumes "reaches js n" "0 < p" "p \<notin> pid ` set js" "first_job (\<lambda>j. pid j = 0) js = Some i"
  shows "reaches (js[i := \<lparr>pid = p, jid = n, state = BG, cmdline = background_line\<rparr>])
    (if n + 1 > int MAXJOBS then 1 else n + 1)"
proof -
  from assms(1) obtain s where s: "at_prompt s" "jobs s = js" "nextjid s = n" "\<not> verbose s" by (auto simp: reaches_def)
  from assms s background_parsed background_not_builtin [of "env0 p" s] obtain s' where
    "eval background_line (env0 p) s = Ret s'" "nextjid s' = (if n + 1 > int MAXJOBS then 1 else n + 1)" "\<not> verbose s'"
    "jobs s' = js[i := \<lparr>pid = p, jid = n, state = BG, cmdline = background_line\<rparr>]"
    by (auto simp: eval_def launch_def env0_def addjob_def Let_def printf_def)
  moreover have "fresh_pid (env0 p) s" using assms s by (simp add: fresh_pid_def env0_def)
  ultimately show ?thesis using at_prompt.command [OF s(1)] unfolding reaches_def by blast
qed

lemma reaches_exit:
  assumes "reaches js n" "0 < p" "first_job (\<lambda>j. pid j = p) js = Some i"
  shows "reaches (js[i := clearjob]) (maxjid (js[i := clearjob]) + 1)"
proof -
  from assms(1) obtain s where s: "at_prompt s" "jobs s = js" "nextjid s = n" "\<not> verbose s" by (auto simp: reaches_def)
  have "deliver_all [SIGCHLD [(p, Exited)]] s =
      Ret (s\<lparr>jobs := js[i := clearjob], nextjid := maxjid (js[i := clearjob]) + 1\<rparr>)"
    using assms s by (simp add: reap_def deletejob_def Let_def)
  from at_prompt.signals [OF s(1) this] show ?thesis using s(4) by (force simp: reaches_def)
qed

text \<open>A positive number is a process that is started, a negative one a process that exits.\<close>

fun history :: "int list \<Rightarrow> job_t list \<Rightarrow> int \<Rightarrow> job_t list option" where
  "history [] js n = Some js"
| "history (p # ps) js n =
     (if 0 < p \<and> p \<notin> set (map pid js) \<and> first_job (\<lambda>j. pid j = 0) js \<noteq> None then
        history ps (js[the (first_job (\<lambda>j. pid j = 0) js) := \<lparr>pid = p, jid = n, state = BG, cmdline = background_line\<rparr>])
          (if n + 1 > int MAXJOBS then 1 else n + 1)
      else if p < 0 \<and> first_job (\<lambda>j. pid j = - p) js \<noteq> None then
        history ps (js[the (first_job (\<lambda>j. pid j = - p) js) := clearjob])
          (maxjid (js[the (first_job (\<lambda>j. pid j = - p) js) := clearjob]) + 1)
      else None)"

lemma history_reaches: "history ps js n = Some js' \<Longrightarrow> reaches js n \<Longrightarrow> \<exists>n'. reaches js' n'"
proof (induction ps js n rule: history.induct)
  case (2 p ps js n)
  show ?case
  proof (cases "0 < p \<and> p \<notin> set (map pid js) \<and> first_job (\<lambda>j. pid j = 0) js \<noteq> None")
    case True
    with 2 show ?thesis using reaches_background [OF 2(4), of p] by auto
  next
    case False
    with 2(3) have "p < 0 \<and> first_job (\<lambda>j. pid j = - p) js \<noteq> None" by (auto split: if_splits)
    with 2 False show ?thesis using reaches_exit [OF 2(4), of "- p"] by auto
  qed
qed auto

text \<open>Sixteen background jobs, of which the second and third exit, and two more.\<close>

lemma history_ids:
  "map_option (\<lambda>js. map (\<lambda>j. (pid j, jid j)) (take 3 js)) (history ([70..85] @ [-71, -72, 86, 87]) initjobs 1) =
     Some [(70, 1), (86, 17), (87, 1)]"
  by code_simp

text \<open>Two running jobs can have the same job id: \<open>addjob\<close> goes back to id 1 after the sixteenth
  without a test that it is free.\<close>

theorem duplicate_jids:
  "\<exists>s. at_prompt s \<and> pid (jobs s ! 0) = 70 \<and> jid (jobs s ! 0) = 1 \<and> pid (jobs s ! 2) = 87 \<and> jid (jobs s ! 2) = 1"
proof -
  from history_ids obtain js where h: "history ([70..85] @ [-71, -72, 86, 87]) initjobs 1 = Some js"
    and j: "map (\<lambda>j. (pid j, jid j)) (take 3 js) = [(70, 1), (86, 17), (87, 1)]"
    unfolding map_option_eq_Some by (elim exE conjE)
  from arg_cong [OF j, of length] have l: "3 \<le> length js" by simp
  have ids: "(pid (js ! i), jid (js ! i)) = [(70, 1), (86, 17), (87, 1)] ! i" if "i < 3" for i
    using arg_cong [OF j, of "\<lambda>xs. xs ! i"] l that by simp
  have "reaches initjobs 1" using at_prompt.start [of False] by (force simp: reaches_def shell_start_def)
  from history_reaches [OF h this] obtain s where "at_prompt s" "jobs s = js" by (auto simp: reaches_def)
  with ids [of 0] ids [of 2] show ?thesis by auto
qed

end
