(* ===== verification/Timing.thy ===== *)
theory Timing
  imports "HOL-Library.Word" Complex_Main
begin

text \<open>
  The timing package of the malloc driver: \<open>clock.c\<close>, \<open>ftimer.c\<close> and \<open>fcyc.c\<close>.  What the processor and
  the kernel deliver (the cycle counter, the times, the duration of a run) are arguments.
  Numbers of type \<open>double\<close> are rationals here: rounding is not modelled.
\<close>

section \<open>The cycle counter\<close>

type_synonym u32 = "32 word"

record clock =
  cyc_hi :: u32
  cyc_lo :: u32
  cyc_per_tick :: rat
  start_tick :: int

text \<open>\<open>rdtsc\<close> delivers a counter of 64 bits in two halves.\<close>

definition access_counter :: "64 word \<Rightarrow> u32 \<times> u32" where
  "access_counter tsc = (ucast (drop_bit 32 tsc), ucast tsc)"

definition start_counter :: "64 word \<Rightarrow> clock \<Rightarrow> clock" where
  "start_counter tsc c = (let (hi, lo) = access_counter tsc in c\<lparr>cyc_hi := hi, cyc_lo := lo\<rparr>)"

definition get_counter :: "64 word \<Rightarrow> clock \<Rightarrow> rat" where
  "get_counter tsc c =
     (let (ncyc_hi, ncyc_lo) = access_counter tsc;
          lo = ncyc_lo - cyc_lo c;
          borrow = (if lo > ncyc_lo then 1 else 0);
          hi = ncyc_hi - cyc_hi c - borrow
      in of_nat (unat hi) * of_nat (2 ^ 30) * 4 + of_nat (unat lo))"

definition ovhd :: "64 word \<Rightarrow> 64 word \<Rightarrow> 64 word \<Rightarrow> 64 word \<Rightarrow> clock \<Rightarrow> rat \<times> clock" where
  "ovhd t0 t1 t2 t3 c =
     (let c = start_counter t0 c; result = get_counter t1 c;
          c = start_counter t2 c; result = get_counter t3 c
      in (result, c))"

definition mhz_full :: "64 word \<Rightarrow> 64 word \<Rightarrow> int \<Rightarrow> clock \<Rightarrow> rat \<times> clock" where
  "mhz_full t0 t1 sleeptime c = (let c = start_counter t0 c in (get_counter t1 c / (10 ^ 6 * of_int sleeptime), c))"

definition mhz :: "64 word \<Rightarrow> 64 word \<Rightarrow> clock \<Rightarrow> rat \<times> clock" where
  "mhz t0 t1 c = mhz_full t0 t1 2 c"

section \<open>Compensating for timer interrupts\<close>

definition NEVENT :: nat where "NEVENT = 100"
definition THRESHOLD :: rat where "THRESHOLD = 1000"
definition RECORDTHRESH :: rat where "RECORDTHRESH = 3000"

text \<open>The loop of \<open>callibrate\<close>.  Every round reads the counter and, after a gap, the user time: the list
  holds both for each round.  \<open>None\<close> when the list ends before the loop does.\<close>

fun callibrate_loop :: "nat \<Rightarrow> rat \<Rightarrow> int \<Rightarrow> (64 word \<times> int) list \<Rightarrow> clock \<Rightarrow> clock option" where
  "callibrate_loop e oldt oldc obs c =
     (if e \<ge> NEVENT then Some c
      else case obs of
        [] \<Rightarrow> None
      | (tsc, newc) # obs \<Rightarrow>
          let newt = get_counter tsc c in
          if newt - oldt \<ge> THRESHOLD then
            if newc > oldc then
              let cpt = (newt - oldt) / of_int (newc - oldc);
                  c = (if (cyc_per_tick c = 0 \<or> cyc_per_tick c > cpt) \<and> cpt > RECORDTHRESH
                       then c\<lparr>cyc_per_tick := cpt\<rparr> else c)
              in callibrate_loop (e + 1) newt newc obs c
            else callibrate_loop e newt oldc obs c
          else callibrate_loop e oldt oldc obs c)"

declare callibrate_loop.simps [simp del]

definition callibrate :: "int \<Rightarrow> 64 word \<Rightarrow> 64 word \<Rightarrow> (64 word \<times> int) list \<Rightarrow> clock \<Rightarrow> clock option" where
  "callibrate oldc t0 t1 obs c = (let c = start_counter t0 c in callibrate_loop 0 (get_counter t1 c) oldc obs c)"

definition start_comp_counter :: "int \<Rightarrow> 64 word \<Rightarrow> 64 word \<Rightarrow> (64 word \<times> int) list \<Rightarrow> int \<Rightarrow> 64 word \<Rightarrow> clock \<Rightarrow> clock option" where
  "start_comp_counter oldc t0 t1 obs utime tsc c =
     (case (if cyc_per_tick c = 0 then callibrate oldc t0 t1 obs c else Some c) of
        None \<Rightarrow> None
      | Some c \<Rightarrow> Some (start_counter tsc (c\<lparr>start_tick := utime\<rparr>)))"

definition get_comp_counter :: "64 word \<Rightarrow> int \<Rightarrow> clock \<Rightarrow> rat" where
  "get_comp_counter tsc utime c =
     (let time = get_counter tsc c; ticks = utime - start_tick c in time - of_int ticks * cyc_per_tick c)"

section \<open>Timers\<close>

text \<open>The time that \<open>n\<close> runs of a function take: the readings before and after, in seconds and
  microseconds.\<close>

definition ftimer_gettod :: "int \<times> int \<Rightarrow> int \<times> int \<Rightarrow> int \<Rightarrow> rat" where
  "ftimer_gettod stv etv n =
     (let diff = 10 ^ 3 * of_int (fst etv - fst stv) + (1 / 10 ^ 3) * of_int (snd etv - snd stv);
          diff = diff / of_int n
      in (1 / 10 ^ 3) * diff)"

definition MAX_ETIME :: int where "MAX_ETIME = 86400"

text \<open>The real timer counts down from \<open>MAX_ETIME\<close>.\<close>

definition get_etime :: "int \<times> int \<Rightarrow> rat" where
  "get_etime r_curr = of_int (MAX_ETIME - fst r_curr) + of_int (0 - snd r_curr) * (1 / 10 ^ 6)"

definition ftimer_itimer :: "int \<times> int \<Rightarrow> int \<times> int \<Rightarrow> int \<Rightarrow> rat" where
  "ftimer_itimer r0 r1 n =
     (let start = get_etime r0; tmeas = get_etime r1 - start in tmeas / of_int n)"

section \<open>The K-best scheme\<close>

text \<open>\<open>cache_buf\<close> is the size of the allocated buffer, in bytes.\<close>

record sampler =
  kbest :: nat
  maxsamples :: nat
  epsilon :: rat
  compensate :: bool
  clear_cache :: bool
  cache_bytes :: nat
  cache_block :: nat
  cache_buf :: "nat option"
  vals :: "rat list"
  samplecount :: nat

definition init_sampler :: "sampler \<Rightarrow> sampler" where
  "init_sampler s = s\<lparr>vals := replicate (kbest s) 0, samplecount := 0\<rparr>"

text \<open>The insertion sort: the value at the position moves down.\<close>

fun sift :: "nat \<Rightarrow> rat list \<Rightarrow> rat list" where
  "sift 0 v = v"
| "sift (Suc p) v = (if v ! p > v ! Suc p then sift p (v[p := v ! Suc p, Suc p := v ! p]) else v)"

text \<open>\<open>None\<close> when \<open>kbest\<close> is 0: then the code reads before the array.\<close>

definition add_sample :: "rat \<Rightarrow> sampler \<Rightarrow> sampler option" where
  "add_sample val s =
     (if samplecount s < kbest s then
        let pos = samplecount s; v = (vals s)[pos := val]
        in Some (s\<lparr>vals := sift pos v, samplecount := samplecount s + 1\<rparr>)
      else if kbest s = 0 then None
      else if val < vals s ! (kbest s - 1) then
        let pos = kbest s - 1; v = (vals s)[pos := val]
        in Some (s\<lparr>vals := sift pos v, samplecount := samplecount s + 1\<rparr>)
      else Some (s\<lparr>samplecount := samplecount s + 1\<rparr>))"

definition has_converged :: "sampler \<Rightarrow> bool" where
  "has_converged s \<longleftrightarrow> samplecount s \<ge> kbest s \<and> (1 + epsilon s) * vals s ! 0 \<ge> vals s ! (kbest s - 1)"

text \<open>The addresses, counted in integers, that \<open>clear\<close> reads.  With a block of less than four bytes the
  loop does not move.\<close>

partial_function (option) clear_loop :: "nat \<Rightarrow> nat \<Rightarrow> nat \<Rightarrow> nat list \<Rightarrow> nat list option" where
  "clear_loop cptr cend incr acc =
     (if cptr < cend then clear_loop (cptr + incr) cend incr (acc @ [cptr]) else Some acc)"

definition clear :: "sampler \<Rightarrow> (nat list \<times> sampler) option" where
  "clear s =
     (let incr = cache_block s div 4;
          s = (if cache_buf s = None then s\<lparr>cache_buf := Some (cache_bytes s)\<rparr> else s)
      in map_option (\<lambda>r. (r, s)) (clear_loop 0 (cache_bytes s div 4) incr []))"

lemma clear_keeps: "clear s = Some (r, s') \<Longrightarrow> s' = s\<lparr>cache_buf := cache_buf s'\<rparr>"
  by (auto simp: clear_def Let_def split: if_splits)

lemma add_sample_count: "add_sample x s = Some s' \<Longrightarrow> samplecount s' = samplecount s + 1 \<and> maxsamples s' = maxsamples s"
  by (auto simp: add_sample_def Let_def split: if_splits)

text \<open>The rounds of \<open>fcyc\<close>: the measurement of a round depends on its number.\<close>

function sample_loop :: "(nat \<Rightarrow> rat) \<Rightarrow> sampler \<Rightarrow> sampler option" where
  "sample_loop cyc s =
     (case (if clear_cache s then map_option snd (clear s) else Some s) of
        None \<Rightarrow> None
      | Some s \<Rightarrow>
          (case add_sample (cyc (samplecount s)) s of
             None \<Rightarrow> None
           | Some s \<Rightarrow> if \<not> has_converged s \<and> samplecount s < maxsamples s then sample_loop cyc s else Some s))"
  by pat_completeness auto

termination
proof (relation "measure (\<lambda>(cyc, s). maxsamples s - samplecount s)", goal_cases)
  case (2 cyc s s1 s2)
  then have "samplecount s1 = samplecount s" "maxsamples s1 = maxsamples s"
    using clear_keeps by (auto split: if_splits) (metis sampler.select_convs sampler.surjective sampler.update_convs)+
  with 2 add_sample_count [of "cyc (samplecount s1)" s1 s2] show ?case by (simp, linarith)
qed simp

declare sample_loop.simps [simp del]

text \<open>\<open>fcyc\<close> with its two ways of measuring.\<close>

definition fcyc :: "(nat \<Rightarrow> rat) \<Rightarrow> (nat \<Rightarrow> rat) \<Rightarrow> sampler \<Rightarrow> (rat \<times> sampler) option" where
  "fcyc plain corrected s =
     (let s = init_sampler s in
      case sample_loop (if compensate s then corrected else plain) s of
        None \<Rightarrow> None
      | Some s \<Rightarrow> Some (vals s ! 0, s\<lparr>vals := []\<rparr>))"

definition set_fcyc_clear_cache :: "bool \<Rightarrow> sampler \<Rightarrow> sampler" where
  "set_fcyc_clear_cache b s = s\<lparr>clear_cache := b\<rparr>"

definition set_fcyc_cache_size :: "nat \<Rightarrow> sampler \<Rightarrow> sampler" where
  "set_fcyc_cache_size bytes s =
     (if bytes \<noteq> cache_bytes s then s\<lparr>cache_bytes := bytes, cache_buf := None\<rparr> else s)"

definition set_fcyc_cache_block :: "nat \<Rightarrow> sampler \<Rightarrow> sampler" where
  "set_fcyc_cache_block bytes s = s\<lparr>cache_block := bytes\<rparr>"

definition set_fcyc_compensate :: "bool \<Rightarrow> sampler \<Rightarrow> sampler" where
  "set_fcyc_compensate b s = s\<lparr>compensate := b\<rparr>"

definition set_fcyc_k :: "nat \<Rightarrow> sampler \<Rightarrow> sampler" where
  "set_fcyc_k k s = s\<lparr>kbest := k\<rparr>"

definition set_fcyc_maxsamples :: "nat \<Rightarrow> sampler \<Rightarrow> sampler" where
  "set_fcyc_maxsamples n s = s\<lparr>maxsamples := n\<rparr>"

definition set_fcyc_epsilon :: "rat \<Rightarrow> sampler \<Rightarrow> sampler" where
  "set_fcyc_epsilon e s = s\<lparr>epsilon := e\<rparr>"

definition fcyc_defaults :: sampler where
  "fcyc_defaults = \<lparr>kbest = 3, maxsamples = 20, epsilon = 1 / 100, compensate = False, clear_cache = False,
     cache_bytes = 2 ^ 19, cache_block = 32, cache_buf = None, vals = [], samplecount = 0\<rparr>"

text \<open>\<open>config.h\<close> chooses \<open>gettimeofday\<close>.\<close>

definition fsecs :: "int \<times> int \<Rightarrow> int \<times> int \<Rightarrow> rat" where
  "fsecs stv etv = ftimer_gettod stv etv 10"

end
