(* ===== verification/TimingProps.thy ===== *)
theory TimingProps
  imports Timing "HOL-Library.Multiset"
begin

text \<open>
  The timing package: the counter difference, the average of the timers, the clearing of the cache, and
  the K-best scheme, whose sampler always holds the \<open>k\<close> smallest samples in order.
\<close>

section \<open>The cycle counter\<close>

lemma uint_halves:
  "uint (ucast (drop_bit 32 t) :: u32) = uint (t :: 64 word) div 2 ^ 32" "uint (ucast t :: u32) = uint t mod 2 ^ 32"
proof -
  have t: "0 \<le> uint t" "uint t < 2 ^ 64" using unsigned_less [of t] by simp_all
  then have "uint (drop_bit 32 t) = uint t div 2 ^ 32"
    by (simp only: drop_bit_eq_div) (simp add: uint_div_distrib)
  moreover have "uint t div 2 ^ 32 < 2 ^ 32" "0 \<le> uint t div 2 ^ 32" using t by (simp_all add: pos_imp_zdiv_nonneg_iff)
  ultimately show "uint (ucast (drop_bit 32 t) :: u32) = uint t div 2 ^ 32"
    by (simp only: unsigned_ucast_eq take_bit_eq_mod) simp
  show "uint (ucast t :: u32) = uint t mod 2 ^ 32"
    by (simp only: unsigned_ucast_eq take_bit_eq_mod) simp
qed

lemma uint_diff_diff: "uint (x - y - z) = (uint (x :: u32) - uint y - uint z) mod 2 ^ 32"
  by (simp add: uint_word_ariths mod_diff_left_eq)

lemma mod_known: "0 \<le> r \<Longrightarrow> r < m \<Longrightarrow> x = r + q * m \<Longrightarrow> x mod m = (r :: int)"
  by simp

lemma borrow_arith:
  fixes a b c d :: int
  assumes "0 \<le> a" "a < 2 ^ 32" "0 \<le> b" "b < 2 ^ 32" "0 \<le> c" "c < 2 ^ 32" "0 \<le> d" "d < 2 ^ 32"
    and lo: "lo = (b - d) mod 2 ^ 32" and hi: "hi = (a - c - (if b < lo then 1 else 0)) mod 2 ^ 32"
  shows "hi * 2 ^ 32 + lo = ((a * 2 ^ 32 + b) - (c * 2 ^ 32 + d)) mod 2 ^ 64"
proof -
  define k where "k = (if d \<le> b then 0 else 1 :: int)"
  have lo': "lo = b - d + k * 2 ^ 32"
    unfolding lo k_def using assms by (auto intro: mod_known [of _ _ _ "-1"])
  then have br: "(if b < lo then 1 else 0) = k" using assms by (auto simp: k_def)
  define j where "j = (if k \<le> a - c then 0 else 1 :: int)"
  have hi': "hi = a - c - k + j * 2 ^ 32"
    unfolding hi br j_def using assms by (auto simp: k_def intro: mod_known [of _ _ _ "-1"])
  have "0 \<le> hi" "hi < 2 ^ 32" "0 \<le> lo" "lo < 2 ^ 32" unfolding hi lo by simp_all
  then have "0 \<le> hi * 2 ^ 32 + lo" "hi * 2 ^ 32 + lo < 2 ^ 64" by simp_all
  from mod_known [OF this, of _ "- j"] show ?thesis
    unfolding lo' hi' by (simp add: algebra_simps)
qed

text \<open>C30: the two-word subtraction with borrow yields the difference of the 64-bit counter readings,
  a wrap-around of the counter included.\<close>

theorem get_counter_difference:
  "get_counter t1 (start_counter t0 c) = of_nat (unat (t1 - t0))"
proof -
  define lo where "lo = (ucast t1 :: u32) - ucast t0"
  define hi where "hi = (ucast (drop_bit 32 t1) :: u32) - ucast (drop_bit 32 t0) - (if lo > ucast t1 then 1 else 0)"
  have b: "0 \<le> uint t1" "uint t1 < 2 ^ 64" "0 \<le> uint t0" "uint t0 < 2 ^ 64"
    using unsigned_less [of t0] unsigned_less [of t1] by simp_all
  then have q: "uint t1 div 2 ^ 32 < 2 ^ 32" "uint t0 div 2 ^ 32 < 2 ^ 32" by simp_all
  have lo': "uint lo = (uint t1 mod 2 ^ 32 - uint t0 mod 2 ^ 32) mod 2 ^ 32"
    unfolding lo_def uint_word_ariths(2) uint_halves by simp
  have "uint hi = (uint t1 div 2 ^ 32 - uint t0 div 2 ^ 32 - (if uint t1 mod 2 ^ 32 < uint lo then 1 else 0)) mod 2 ^ 32"
    unfolding hi_def uint_diff_diff word_less_def uint_halves(2) uint_halves(1) [symmetric]
    by (simp add: uint_halves del: unsigned_ucast_eq)
  from borrow_arith [OF _ q(1) _ _ _ q(2) _ _ lo' this] b
  have "uint hi * 2 ^ 32 + uint lo = (uint t1 - uint t0) mod 2 ^ 64" by (simp add: pos_imp_zdiv_nonneg_iff)
  also have "\<dots> = uint (t1 - t0)" by (simp add: uint_word_ariths)
  finally have "int (unat hi * 2 ^ 32 + unat lo) = int (unat (t1 - t0))" by simp
  then have "unat hi * 2 ^ 32 + unat lo = unat (t1 - t0)" by (simp only: of_nat_eq_iff)
  moreover have "get_counter t1 (start_counter t0 c) = of_nat (unat hi * 2 ^ 32 + unat lo)"
    unfolding hi_def lo_def by (simp add: get_counter_def start_counter_def access_counter_def Let_def)
  ultimately show ?thesis by simp
qed

text \<open>What calibration records is a cost per tick above the threshold, so a corrected measurement is
  never longer than the raw one.\<close>

definition calibrated :: "clock \<Rightarrow> bool" where
  "calibrated c \<longleftrightarrow> cyc_per_tick c = 0 \<or> RECORDTHRESH < cyc_per_tick c"

lemma callibrate_loop_ok: "callibrate_loop e oldt oldc obs c = Some c' \<Longrightarrow> calibrated c \<Longrightarrow> calibrated c'"
proof (induction e oldt oldc obs c rule: callibrate_loop.induct)
  case (1 e oldt oldc obs c)
  note r = 1(4) [unfolded callibrate_loop.simps [of e oldt oldc obs c]]
  show ?case
    using 1(1-3,5) r by (auto simp: Let_def calibrated_def split: if_splits list.splits)
qed

lemma start_comp_counter_ok:
  "start_comp_counter oldc t0 t1 obs utime tsc c = Some c' \<Longrightarrow> calibrated c \<Longrightarrow> calibrated c' \<and> start_tick c' = utime"
  by (auto simp: start_comp_counter_def callibrate_def Let_def calibrated_def start_counter_def access_counter_def
      dest!: callibrate_loop_ok split: if_splits option.splits)

lemma get_comp_counter_le:
  assumes "start_comp_counter oldc t0 t1 obs utime tsc c = Some c'" "calibrated c" "utime \<le> utime'"
  shows "get_comp_counter tsc' utime' c' \<le> get_counter tsc' c'"
proof -
  from start_comp_counter_ok [OF assms(1,2)] have "0 \<le> cyc_per_tick c'" "start_tick c' = utime"
    by (auto simp: calibrated_def RECORDTHRESH_def)
  with assms(3) show ?thesis by (simp add: get_comp_counter_def Let_def)
qed

section \<open>Timers\<close>

lemma ftimer_gettod_average:
  "ftimer_gettod stv etv n = of_int ((fst etv * 10 ^ 6 + snd etv) - (fst stv * 10 ^ 6 + snd stv)) / (10 ^ 6 * of_int n)"
  by (simp add: ftimer_gettod_def Let_def field_simps)

lemma ftimer_itimer_average:
  "ftimer_itimer r0 r1 n = of_int ((fst r0 * 10 ^ 6 + snd r0) - (fst r1 * 10 ^ 6 + snd r1)) / (10 ^ 6 * of_int n)"
proof -
  have "get_etime r1 - get_etime r0 = of_int ((fst r0 * 10 ^ 6 + snd r0) - (fst r1 * 10 ^ 6 + snd r1)) / 10 ^ 6"
    by (simp add: get_etime_def field_simps)
  then show ?thesis unfolding ftimer_itimer_def Let_def by (simp only: divide_divide_eq_left)
qed

section \<open>Insertion\<close>

lemma sift_length [simp]: "length (sift p v) = length v"
  by (induction p v rule: sift.induct) auto

lemma insort_last: "sorted (ys @ [y :: rat]) \<Longrightarrow> x < y \<Longrightarrow> insort x (ys @ [y]) = insort x ys @ [y]"
  by (induction ys) auto

lemma insort_end: "sorted ys \<Longrightarrow> \<forall>y \<in> set ys. y \<le> (x :: rat) \<Longrightarrow> insort x ys = ys @ [x]"
proof -
  assume "sorted ys" "\<forall>y \<in> set ys. y \<le> x"
  then have "sort (x # ys) = ys @ [x]" by (intro properties_for_sort) (auto simp: sorted_append)
  then show ?thesis using \<open>sorted ys\<close> by (simp add: sorted_sort_id)
qed

lemma sift_insort:
  "p < length v \<Longrightarrow> sorted (take p v) \<Longrightarrow> sift p v = insort (v ! p) (take p v) @ drop (Suc p) v"
proof (induction p v rule: sift.induct)
  case (1 v)
  then show ?case by (simp add: Cons_nth_drop_Suc)
next
  case (2 p v)
  have tk: "take (Suc p) v = take p v @ [v ! p]" using 2(2) by (simp add: take_Suc_conv_app_nth)
  show ?case
  proof (cases "v ! p > v ! Suc p")
    case True
    let ?v = "v[p := v ! Suc p, Suc p := v ! p]"
    have l: "p < length v" "Suc p < length v" using 2(2) by auto
    have "sift p ?v = insort (?v ! p) (take p ?v) @ drop (Suc p) ?v"
      by (rule 2(1) [OF True]) (use 2(2,3) tk in \<open>auto simp: sorted_append\<close>)
    moreover have "?v ! p = v ! Suc p" "take p ?v = take p v" using l by simp_all
    moreover have "drop (Suc p) ?v = v ! p # drop (Suc (Suc p)) v"
      using l by (subst Cons_nth_drop_Suc [symmetric]) (auto simp: drop_update_cancel)
    ultimately show ?thesis using True insort_last [of "take p v" "v ! p" "v ! Suc p"] 2(3) tk by simp
  next
    case False
    have "sorted (take p v @ [v ! p])" using 2(3) tk by simp
    then have "\<forall>y \<in> set (take (Suc p) v). y \<le> v ! Suc p" using False tk by (auto simp: sorted_append)
    from insort_end [OF 2(3) this] have "insort (v ! Suc p) (take (Suc p) v) = take (Suc p) v @ [v ! Suc p]" .
    then have "insort (v ! Suc p) (take (Suc p) v) @ drop (Suc (Suc p)) v = take (Suc p) v @ drop (Suc p) v"
      using 2(2) by (simp add: Cons_nth_drop_Suc)
    then show ?thesis using False by simp
  qed
qed

section \<open>The best samples\<close>

definition best :: "rat list \<Rightarrow> sampler \<Rightarrow> bool" where
  "best xs s \<longleftrightarrow> 0 < kbest s \<and> samplecount s = length xs \<and> length (vals s) = kbest s \<and>
     take (length xs) (vals s) = take (kbest s) (sort xs)"

lemma best_init: "0 < kbest s \<Longrightarrow> best [] (init_sampler s)"
  by (simp add: best_def init_sampler_def)

lemma take_insort: "sorted ys \<Longrightarrow> take k (insort (x :: rat) ys) = take k (insort x (take k ys))"
proof (induction ys arbitrary: k)
  case (Cons y ys)
  then show ?case by (cases k) (auto simp: take_Cons')
qed simp

lemma insort_take_less:
  assumes "sorted ys" "0 < k" "k \<le> length ys" "x < ys ! (k - 1)"
  shows "take k (insort (x :: rat) ys) = insort x (take (k - 1) ys)"
proof -
  have ys: "take k ys = take (k - 1) ys @ [ys ! (k - 1)]" using assms(2,3) by (cases k) (simp_all add: take_Suc_conv_app_nth)
  have "sorted (take k ys)" using assms(1) by (rule sorted_wrt_take)
  then have "insort x (take k ys) = insort x (take (k - 1) ys) @ [ys ! (k - 1)]"
    using insort_last assms(4) unfolding ys by blast
  then have "take k (insort x (take k ys)) = insort x (take (k - 1) ys)" using assms(2,3) by simp
  then show ?thesis using take_insort [OF assms(1), of k x] by simp
qed

lemma insort_take_ge:
  assumes "sorted ys" "0 < k" "k \<le> length ys" "ys ! (k - 1) \<le> x"
  shows "take k (insort (x :: rat) ys) = take k ys"
proof -
  have "\<forall>y \<in> set (take k ys). y \<le> x"
  proof
    fix y assume "y \<in> set (take k ys)"
    then obtain i where i: "i < k" "i < length ys" "y = ys ! i" by (auto simp: in_set_conv_nth)
    then have "y \<le> ys ! (k - 1)" using assms(1-3) by (auto intro: sorted_nth_mono)
    then show "y \<le> x" using assms(4) by (rule order_trans)
  qed
  then have "insort x (take k ys) = take k ys @ [x]" using assms(1) by (intro insort_end) (simp_all add: sorted_wrt_take)
  then show ?thesis using take_insort [OF assms(1), of k x] assms(3) by simp
qed

lemma sort_snoc: "sort (xs @ [x :: rat]) = insort x (sort xs)"
  by (induction xs) (simp_all add: insort_left_comm)

lemma best_add:
  assumes "best xs s"
  shows "\<exists>v. add_sample x s = Some (s\<lparr>vals := v, samplecount := Suc (samplecount s)\<rparr>) \<and>
    best (xs @ [x]) (s\<lparr>vals := v, samplecount := Suc (samplecount s)\<rparr>)"
proof -
  let ?ys = "sort xs" and ?k = "kbest s" and ?v = "vals s"
  from assms have k: "0 < ?k" and n: "samplecount s = length xs" and l: "length ?v = ?k"
    and v: "take (length xs) ?v = take ?k ?ys" by (auto simp: best_def)
  show ?thesis
  proof (cases "length xs < ?k")
    case True
    let ?u = "?v[length xs := x]"
    have "take (length xs) ?u = ?ys" using v True by simp
    then have "sift (length xs) ?u = insort x ?ys @ drop (Suc (length xs)) ?u"
      using sift_insort [of "length xs" ?u] True l by simp
    then show ?thesis using k n l True
      by (auto simp: add_sample_def best_def sort_snoc Let_def)
  next
    case False
    then have v': "?v = take ?k ?ys" using v l by simp
    have last: "?v ! (?k - 1) = ?ys ! (?k - 1)" unfolding v' using k by simp
    show ?thesis
    proof (cases "x < ?ys ! (?k - 1)")
      case True
      let ?u = "?v[?k - 1 := x]"
      have "take (?k - 1) ?u = take (?k - 1) ?ys" unfolding v' using k by (simp add: min_def)
      then have "sift (?k - 1) ?u = insort x (take (?k - 1) ?ys)"
        using sift_insort [of "?k - 1" ?u] k l by (simp add: sorted_wrt_take)
      also have "\<dots> = take ?k (insort x ?ys)" using insort_take_less [of ?ys ?k x] True False k by simp
      finally show ?thesis using k n l False True last
        by (auto simp: add_sample_def best_def sort_snoc Let_def)
    next
      case ge: False
      then have "take ?k (insort x ?ys) = take ?k ?ys" using insort_take_ge [of ?ys ?k x] False k by simp
      then have "best (xs @ [x]) (s\<lparr>vals := ?v, samplecount := Suc (samplecount s)\<rparr>)"
        using k n l False v' by (simp add: best_def sort_snoc)
      then show ?thesis using k n False ge last by (intro exI [of _ ?v]) (simp add: add_sample_def)
    qed
  qed
qed

lemma best_converged:
  "best xs s \<Longrightarrow> has_converged s \<longleftrightarrow> kbest s \<le> length xs \<and> sort xs ! (kbest s - 1) \<le> (1 + epsilon s) * sort xs ! 0"
proof -
  assume b: "best xs s"
  have "vals s ! i = sort xs ! i" if "i < kbest s" "i < length xs" for i
    using b that arg_cong [of _ _ "\<lambda>v. v ! i"] unfolding best_def by (metis nth_take)
  then show ?thesis using b by (auto simp: has_converged_def best_def)
qed

section \<open>Clearing the cache\<close>

lemma clear_loop_stuck: "clear_loop c n i acc = Some r \<Longrightarrow> i = 0 \<longrightarrow> \<not> c < n"
  by (rule clear_loop.raw_induct [where P = "\<lambda>c n i acc r. i = 0 \<longrightarrow> \<not> c < n"])
    (fastforce split: if_splits)+

lemma clear_loop_reads:
  "0 < i \<Longrightarrow> \<exists>r. clear_loop c n i acc = Some (acc @ r) \<and> set r = {j. c \<le> j \<and> j < n \<and> i dvd j - c}"
proof (induction "n - c" arbitrary: c acc rule: less_induct)
  case less
  show ?case
  proof (cases "c < n")
    case True
    then have "n - (c + i) < n - c" using less.prems by simp
    from less.hyps [OF this less.prems, of "acc @ [c]"] obtain r where
      r: "clear_loop (c + i) n i (acc @ [c]) = Some (acc @ [c] @ r)" "set r = {j. c + i \<le> j \<and> j < n \<and> i dvd j - (c + i)}"
      by auto
    have "set (c # r) = {j. c \<le> j \<and> j < n \<and> i dvd j - c}"
    proof -
      have "i dvd j - c \<longleftrightarrow> j = c \<or> c + i \<le> j \<and> i dvd j - (c + i)" if "c \<le> j" for j
      proof (cases "c + i \<le> j")
        case True
        then have "j - c = (j - (c + i)) + i" by simp
        then have "i dvd j - c \<longleftrightarrow> i dvd j - (c + i)" by (simp only: dvd_add_triv_right_iff)
        then show ?thesis using True less.prems by auto
      next
        case False
        then have "j - c < i" using that by simp
        then show ?thesis using that less.prems False nat_dvd_not_less [of "j - c" i] by auto
      qed
      then show ?thesis unfolding r(2) list.set(2) using True by auto
    qed
    then show ?thesis using r(1) True by (subst clear_loop.simps) (intro exI [of _ "c # r"], simp)
  next
    case False
    then show ?thesis by (subst clear_loop.simps) (auto intro!: exI [of _ "[]"])
  qed
qed

text \<open>Clearing reads one integer of every block of the cache and never outside the buffer; but with
  blocks of less than four bytes it never ends.\<close>

theorem clear_reads:
  "if 4 \<le> cache_block s then
     \<exists>r s'. clear s = Some (r, s') \<and> set r = {j. j < cache_bytes s div 4 \<and> cache_block s div 4 dvd j} \<and>
       (cache_buf s \<in> {None, Some (cache_bytes s)} \<longrightarrow> cache_buf s' = Some (cache_bytes s))
   else 4 \<le> cache_bytes s \<longrightarrow> clear s = None"
proof (cases "4 \<le> cache_block s")
  case True
  then have "0 < cache_block s div 4" by simp
  from clear_loop_reads [OF this, of 0 "cache_bytes s div 4" "[]"] True show ?thesis
    by (auto simp: clear_def Let_def)
next
  case False
  then have "cache_block s div 4 = 0" by simp
  then have "clear_loop 0 (cache_bytes s div 4) (cache_block s div 4) [] = None" if "4 \<le> cache_bytes s"
    using clear_loop_stuck [of 0 "cache_bytes s div 4" "cache_block s div 4" "[]"] that
    by (cases "clear_loop 0 (cache_bytes s div 4) (cache_block s div 4) []") auto
  then show ?thesis using False by (simp add: clear_def)
qed

theorem clear_reads_witness: "clear (set_fcyc_cache_block 2 fcyc_defaults) = None"
  using clear_reads [of "set_fcyc_cache_block 2 fcyc_defaults"]
  by (simp add: set_fcyc_cache_block_def fcyc_defaults_def)

section \<open>The measurement\<close>

definition converged_at :: "nat \<Rightarrow> rat \<Rightarrow> (nat \<Rightarrow> rat) \<Rightarrow> nat \<Rightarrow> bool" where
  "converged_at k e cyc n \<longleftrightarrow>
     (let v = sort (map cyc [0..<n]) in k \<le> n \<and> v ! (k - 1) \<le> (1 + e) * v ! 0)"

lemma best_buf [simp]: "best xs (s\<lparr>cache_buf := b\<rparr>) = best xs s"
  by (simp add: best_def)

lemma clear_Some: "4 \<le> cache_block s \<Longrightarrow> \<exists>r b. clear s = Some (r, s\<lparr>cache_buf := b\<rparr>)"
  using clear_reads [of s] clear_keeps by (metis (full_types))

lemma sample_loop_best:
  "best (map cyc [0..<m]) s \<Longrightarrow> \<not> clear_cache s \<or> 4 \<le> cache_block s \<Longrightarrow>
   \<exists>n s'. sample_loop cyc s = Some s' \<and> best (map cyc [0..<n]) s' \<and> m < n \<and> n \<le> max (Suc m) (maxsamples s) \<and>
     (converged_at (kbest s) (epsilon s) cyc n \<or> maxsamples s \<le> n) \<and>
     (\<forall>i. m < i \<and> i < n \<longrightarrow> \<not> converged_at (kbest s) (epsilon s) cyc i)"
proof (induction cyc s arbitrary: m rule: sample_loop.induct)
  case (1 cyc s)
  have "\<exists>b. (if clear_cache s then map_option snd (clear s) else Some s) = Some (s\<lparr>cache_buf := b\<rparr>)"
  proof (cases "clear_cache s")
    case True
    with clear_Some [of s] 1(3) show ?thesis by auto
  next
    case False
    then show ?thesis by (intro exI [of _ "cache_buf s"]) simp
  qed
  then obtain b where s1: "(if clear_cache s then map_option snd (clear s) else Some s) = Some (s\<lparr>cache_buf := b\<rparr>)" ..
  let ?s1 = "s\<lparr>cache_buf := b\<rparr>"
  have c: "samplecount ?s1 = m" using 1(2) by (simp add: best_def)
  from 1(2) have "best (map cyc [0..<m]) ?s1" by simp
  from best_add [OF this, of "cyc m"] obtain v where
    v: "add_sample (cyc m) ?s1 = Some (?s1\<lparr>vals := v, samplecount := Suc m\<rparr>)"
      "best (map cyc [0..<Suc m]) (?s1\<lparr>vals := v, samplecount := Suc m\<rparr>)"
    unfolding c by auto
  let ?s2 = "?s1\<lparr>vals := v, samplecount := Suc m\<rparr>"
  have cv: "has_converged ?s2 \<longleftrightarrow> converged_at (kbest s) (epsilon s) cyc (Suc m)"
    using best_converged [OF v(2)] by (simp add: converged_at_def Let_def)
  have step: "sample_loop cyc s = (if \<not> has_converged ?s2 \<and> Suc m < maxsamples s then sample_loop cyc ?s2 else Some ?s2)"
    by (subst sample_loop.simps) (simp add: s1 c [simplified] v(1) del: upt_Suc)
  show ?case
  proof (cases "\<not> has_converged ?s2 \<and> Suc m < maxsamples s")
    case True
    have "\<exists>n s'. sample_loop cyc ?s2 = Some s' \<and> best (map cyc [0..<n]) s' \<and> Suc m < n \<and>
       n \<le> max (Suc (Suc m)) (maxsamples ?s2) \<and>
       (converged_at (kbest ?s2) (epsilon ?s2) cyc n \<or> maxsamples ?s2 \<le> n) \<and>
       (\<forall>i. Suc m < i \<and> i < n \<longrightarrow> \<not> converged_at (kbest ?s2) (epsilon ?s2) cyc i)"
    proof (rule "1.IH" [OF s1, of ?s2])
      show "add_sample (cyc (samplecount ?s1)) ?s1 = Some ?s2" using v(1) unfolding c .
      show "\<not> has_converged ?s2 \<and> samplecount ?s2 < maxsamples ?s2" using True by simp
      show "best (map cyc [0..<Suc m]) ?s2" by (rule v(2))
      show "\<not> clear_cache ?s2 \<or> 4 \<le> cache_block ?s2" using 1(3) by simp
    qed
    then obtain n s' where n: "sample_loop cyc ?s2 = Some s'" "best (map cyc [0..<n]) s'" "Suc m < n"
      "n \<le> max (Suc (Suc m)) (maxsamples s)" "converged_at (kbest s) (epsilon s) cyc n \<or> maxsamples s \<le> n"
      "\<forall>i. Suc m < i \<and> i < n \<longrightarrow> \<not> converged_at (kbest s) (epsilon s) cyc i" by auto
    have "\<not> converged_at (kbest s) (epsilon s) cyc i" if "m < i" "i < n" for i
      using that n(6) True cv by (cases "i = Suc m") auto
    then show ?thesis using n True step by (intro exI [of _ n] exI [of _ s']) (auto simp: max_def split: if_splits)
  next
    case False
    have "sample_loop cyc s = Some ?s2" unfolding step using False by (rule if_not_P)
    moreover have "converged_at (kbest s) (epsilon s) cyc (Suc m) \<or> maxsamples s \<le> Suc m" using False cv by auto
    ultimately show ?thesis using v(2) by (intro exI [of _ "Suc m"] exI [of _ ?s2]) auto
  qed
qed

text \<open>C29: \<open>fcyc\<close> ends, with the smallest of the \<open>n\<close> samples it took, where \<open>n\<close> is the first number of
  samples for which the \<open>k\<close> best agree within the tolerance, but at most \<open>maxsamples\<close>.\<close>

theorem fcyc_kbest:
  assumes "0 < kbest s" and "\<not> clear_cache s \<or> 4 \<le> cache_block s"
    and cyc: "cyc = (if compensate s then corrected else plain)"
  shows "\<exists>n s'. fcyc plain corrected s = Some (Min (cyc ` {..<n}), s') \<and> 0 < n \<and> n \<le> max 1 (maxsamples s) \<and>
     (converged_at (kbest s) (epsilon s) cyc n \<or> maxsamples s \<le> n) \<and>
     (\<forall>i. 0 < i \<and> i < n \<longrightarrow> \<not> converged_at (kbest s) (epsilon s) cyc i)"
proof -
  have "best (map cyc [0..<0]) (init_sampler s)" using best_init [OF assms(1)] by simp
  moreover have "\<not> clear_cache (init_sampler s) \<or> 4 \<le> cache_block (init_sampler s)"
    using assms(2) by (simp add: init_sampler_def)
  ultimately obtain n s' where n: "sample_loop cyc (init_sampler s) = Some s'" "best (map cyc [0..<n]) s'" "0 < n"
    "n \<le> max 1 (maxsamples s)" "converged_at (kbest s) (epsilon s) cyc n \<or> maxsamples s \<le> n"
    "\<forall>i. 0 < i \<and> i < n \<longrightarrow> \<not> converged_at (kbest s) (epsilon s) cyc i"
    using sample_loop_best [of cyc 0 "init_sampler s"] by (auto simp: init_sampler_def)
  have "vals s' ! 0 = sort (map cyc [0..<n]) ! 0"
    using n(2,3) arg_cong [of _ _ "\<lambda>v. v ! 0"] unfolding best_def by (metis length_map length_upt minus_nat.diff_0 nth_take)
  also have "\<dots> = Min (cyc ` {..<n})"
  proof -
    have "length (sort (map cyc [0..<n])) = n" by simp
    then have "sort (map cyc [0..<n]) \<noteq> []" using n(3) by fastforce
    then have "sort (map cyc [0..<n]) ! 0 = Min (set (sort (map cyc [0..<n])))"
      using n(3) by (intro Min_eqI [symmetric]) (auto simp: in_set_conv_nth sorted_nth_mono simp del: set_sort)
    then show ?thesis by (simp add: lessThan_atLeast0 del: sort_upt)
  qed
  finally have "fcyc plain corrected s = Some (Min (cyc ` {..<n}), s'\<lparr>vals := []\<rparr>)"
    using n(1) by (simp add: fcyc_def Let_def cyc init_sampler_def)
  then show ?thesis using n(3-6) by blast
qed

text \<open>Five measurements around one million cycles.\<close>

theorem fcyc_kbest_witness:
  "\<exists>n s'. fcyc (\<lambda>i. 1000000 + of_nat i) (\<lambda>i. 0) fcyc_defaults = Some (Min ((\<lambda>i. 1000000 + of_nat i) ` {..<n}), s')"
  using fcyc_kbest [of fcyc_defaults "\<lambda>i. 1000000 + of_nat i" "\<lambda>i. 0" "\<lambda>i. 1000000 + of_nat i"]
  by (auto simp: fcyc_defaults_def)

end
