(* ===== verification/MdriverMain.thy ===== *)
theory MdriverMain
  imports Mdriver Decimal Complex_Main
begin

text \<open>
  The rest of \<open>mdriver.c\<close>: reading a trace file, the runs on the allocator of the C library, the table of
  results and the performance index, and the loop of \<open>main\<close> over the traces.  The contents of the
  files, the junk in fresh arrays and the measured times are arguments.
\<close>

section \<open>Scanning\<close>

text \<open>Conversions: \<open>None\<close> when nothing matches or the value does not fit.\<close>

definition scan_d :: "string \<Rightarrow> (int \<times> string) option" where
  "scan_d s = (case scan_num s of None \<Rightarrow> None | Some (n, r) \<Rightarrow> if - (2 ^ 31) \<le> n \<and> n < 2 ^ 31 then Some (n, r) else None)"

definition scan_u :: "string \<Rightarrow> (nat \<times> string) option" where
  "scan_u s = (case scan_num s of None \<Rightarrow> None | Some (n, r) \<Rightarrow> if \<bar>n\<bar> < 2 ^ 32 then Some (nat (n mod 2 ^ 32), r) else None)"

definition scan_word :: "string \<Rightarrow> (string \<times> string) option" where
  "scan_word s =
     (let s = dropWhile isspace s; w = takeWhile (\<lambda>c. \<not> isspace c) s
      in if w = [] then None else Some (w, dropWhile (\<lambda>c. \<not> isspace c) s))"

lemma length_dropWhile_le' [intro]: "length s \<le> n \<Longrightarrow> length (dropWhile P s) \<le> n"
  using length_dropWhile_le [of P s] by simp

lemma scan_num_length: "scan_num s = Some (n, r) \<Longrightarrow> length r \<le> length s"
proof -
  assume "scan_num s = Some (n, r)"
  then have r: "r = dropWhile isdigit (dropWhile isspace s) \<or> r = dropWhile isdigit (tl (dropWhile isspace s))"
    by (auto simp: scan_num_def Let_def split: if_splits)
  have "length (dropWhile isspace s) \<le> length s" by (rule length_dropWhile_le)
  then have "length (tl (dropWhile isspace s)) \<le> length s" by simp
  with r length_dropWhile_le [of isspace s] show ?thesis by blast
qed

lemma scan_u_length: "scan_u s = Some (n, r) \<Longrightarrow> length r \<le> length s"
  by (auto simp: scan_u_def dest: scan_num_length split: option.splits if_splits)

lemma scan_word_length: "scan_word s = Some (w, r) \<Longrightarrow> length r < length s"
proof -
  let ?s = "dropWhile isspace s" and ?P = "\<lambda>c. \<not> isspace c"
  assume "scan_word s = Some (w, r)"
  then have w: "takeWhile ?P ?s = w" "w \<noteq> []" "r = dropWhile ?P ?s" by (auto simp: scan_word_def Let_def split: if_splits)
  have "length ?s = length w + length r"
    unfolding w(1) [symmetric] w(3) by (metis length_append takeWhile_dropWhile_id)
  moreover have "length ?s \<le> length s" by (rule length_dropWhile_le)
  ultimately show ?thesis using w(2) by (cases w) auto
qed

section \<open>read\_trace\<close>

record trace_t =
  sugg_heapsize :: int
  num_ids :: int
  num_ops :: int
  weight :: int
  trace_ops :: "traceop_t list"

text \<open>One request line, after its type letter.  A conversion that fails would leave its variable as it
  was, which is \<open>BadAccess\<close> here.  The format of a \<open>f\<close> line is \<open>%ud\<close>: a letter d after the number is
  taken with it.  The size of such a request is never set or read; it is 0 here.
  An index of \<open>2 ^ 31\<close> or more would turn negative in the request; it is out of range either way.\<close>

definition read_op :: "char \<Rightarrow> string \<Rightarrow> stop + (traceop_t \<times> string)" where
  "read_op c s =
     (if c = CHR ''a'' \<or> c = CHR ''r'' then
        (case scan_u s of
           None \<Rightarrow> Inl BadAccess
         | Some (index, s) \<Rightarrow>
             (case scan_u s of
                None \<Rightarrow> Inl BadAccess
              | Some (sz, s) \<Rightarrow>
                  Inr (\<lparr>tr_type = (if c = CHR ''a'' then ALLOC else REALLOC), tr_index = index, tr_size = to_int32 sz\<rparr>, s)))
      else if c = CHR ''f'' then
        (case scan_u s of
           None \<Rightarrow> Inl BadAccess
         | Some (index, s) \<Rightarrow>
             Inr (\<lparr>tr_type = FREE, tr_index = index, tr_size = 0\<rparr>, if s \<noteq> [] \<and> hd s = CHR ''d'' then tl s else s))
      else Inl AppError)"

lemma read_op_length: "read_op c s = Inr (op, r) \<Longrightarrow> length r \<le> length s"
  by (auto simp: read_op_def dest!: scan_u_length split: if_splits option.splits)

text \<open>The loop over the request lines: requests read so far, and the largest index of an \<open>a\<close> or \<open>r\<close> line.
  The array for the requests has \<open>n\<close> entries, the buffer for the type \<open>MAXLINE\<close> bytes.\<close>

definition TRACE_MAXLINE :: nat where "TRACE_MAXLINE = 1024"

function read_ops :: "nat \<Rightarrow> nat \<Rightarrow> traceop_t list \<Rightarrow> string \<Rightarrow> stop + (traceop_t list \<times> nat)" where
  "read_ops n max_index ops s =
     (case scan_word s of
        None \<Rightarrow> Inr (ops, max_index)
      | Some (type, s) \<Rightarrow>
          if length type \<ge> TRACE_MAXLINE then Inl BadAccess
          else
            (case read_op (hd type) s of
               Inl e \<Rightarrow> Inl e
             | Inr (op, s) \<Rightarrow>
                 if length ops \<ge> n then Inl BadAccess
                 else read_ops n
                   (if tr_type op \<noteq> FREE \<and> tr_index op > max_index then tr_index op else max_index) (ops @ [op]) s))"
  by pat_completeness auto
termination
  by (relation "measure (\<lambda>(n, m, ops, s). length s)") (auto dest!: scan_word_length read_op_length)

declare read_ops.simps [simp del]

text \<open>A negative number of requests or ids makes \<open>malloc\<close> fail.\<close>

definition read_trace :: "string \<Rightarrow> stop + trace_t" where
  "read_trace txt =
     (case scan_d txt of None \<Rightarrow> Inl BadAccess | Some (heapsize, s) \<Rightarrow>
     (case scan_d s of None \<Rightarrow> Inl BadAccess | Some (ids, s) \<Rightarrow>
     (case scan_d s of None \<Rightarrow> Inl BadAccess | Some (n, s) \<Rightarrow>
     (case scan_d s of None \<Rightarrow> Inl BadAccess | Some (w, s) \<Rightarrow>
      if n < 0 \<or> ids < 0 then Inl AppError
      else
        (case read_ops (nat n) 0 [] s of
           Inl e \<Rightarrow> Inl e
         | Inr (ops, max_index) \<Rightarrow>
             if int max_index \<noteq> (ids - 1) mod 2 ^ 32 \<or> n \<noteq> int (length ops) then Inl Assertion
             else Inr \<lparr>sugg_heapsize = heapsize, num_ids = ids, num_ops = n, weight = w, trace_ops = ops\<rparr>)))))"

section \<open>The libc package\<close>

text \<open>The allocator of the C library, on a state of its own.\<close>

record 'h libc_ops =
  libc_malloc :: "nat \<Rightarrow> 'h \<Rightarrow> nat \<times> 'h"
  libc_free :: "nat \<Rightarrow> 'h \<Rightarrow> 'h"
  libc_realloc :: "nat \<Rightarrow> nat \<Rightarrow> 'h \<Rightarrow> nat \<times> 'h"

text \<open>\<open>Inl\<close> carries the complaints that were printed before the program exits.\<close>

fun eval_libc_valid :: "'h libc_ops \<Rightarrow> int \<Rightarrow> nat \<Rightarrow> traceop_t list \<Rightarrow> nat list \<times> 'h \<Rightarrow>
    (int \<times> nat \<times> complaint) option + nat list \<times> 'h" where
  "eval_libc_valid libc tracenum i [] (bs, h) = Inr (bs, h)"
| "eval_libc_valid libc tracenum i (op # tr) (bs, h) =
     (if \<not> tr_index op < length bs then Inl None
      else case tr_type op of
        ALLOC \<Rightarrow>
          (let (p, h) = libc_malloc libc (size_t (tr_size op)) h in
           if p = NULL then Inl (Some (tracenum, i, MallocFailed))
           else eval_libc_valid libc tracenum (Suc i) tr (bs[tr_index op := p], h))
      | REALLOC \<Rightarrow>
          (let (newp, h) = libc_realloc libc (bs ! tr_index op) (size_t (tr_size op)) h in
           if newp = NULL then Inl (Some (tracenum, i, ReallocFailed))
           else eval_libc_valid libc tracenum (Suc i) tr (bs[tr_index op := newp], h))
      | FREE \<Rightarrow> eval_libc_valid libc tracenum (Suc i) tr (bs, libc_free libc (bs ! tr_index op) h))"

fun eval_libc_speed :: "'h libc_ops \<Rightarrow> traceop_t list \<Rightarrow> nat list \<times> 'h \<Rightarrow> (nat list \<times> 'h) option" where
  "eval_libc_speed libc [] (bs, h) = Some (bs, h)"
| "eval_libc_speed libc (op # tr) (bs, h) =
     (let index = tr_index op in
      if \<not> index < length bs then None
      else case tr_type op of
        ALLOC \<Rightarrow>
          (let (p, h) = libc_malloc libc (size_t (tr_size op)) h in
           if p = NULL then None else eval_libc_speed libc tr (bs[index := p], h))
      | REALLOC \<Rightarrow>
          (let oldp = bs ! index; (newp, h) = libc_realloc libc oldp (size_t (tr_size op)) h in
           if newp = NULL then None else eval_libc_speed libc tr (bs[index := newp], h))
      | FREE \<Rightarrow> eval_libc_speed libc tr (bs, libc_free libc (bs ! index) h))"

section \<open>Results\<close>

text \<open>\<open>double\<close> numbers are rationals here.\<close>

record stats_t =
  st_ops :: rat
  valid :: bool
  secs :: rat
  util :: rat

definition AVG_LIBC_THRUPUT :: rat where "AVG_LIBC_THRUPUT = 600000"
definition UTIL_WEIGHT :: rat where "UTIL_WEIGHT = 6 / 10"

text \<open>A quotient; a division by zero yields an infinity or no number at all, which is \<open>None\<close>.\<close>

definition quotient :: "rat \<Rightarrow> rat \<Rightarrow> rat option" where
  "quotient a b = (if b = 0 then None else Some (a / b))"

text \<open>A row of the table \<open>printresults\<close> prints: number, and for a valid trace utilization in percent,
  requests, seconds, thousands of requests per second.\<close>

definition result_row :: "nat \<Rightarrow> stats_t \<Rightarrow> nat \<times> (rat \<times> rat \<times> rat \<times> rat option) option" where
  "result_row i st =
     (i, if valid st then Some (util st * 100, st_ops st, secs st, quotient (st_ops st / 10 ^ 3) (secs st)) else None)"

definition printresults :: "stats_t list \<Rightarrow> nat \<Rightarrow>
    (nat \<times> (rat \<times> rat \<times> rat \<times> rat option) option) list \<times> (rat \<times> rat \<times> rat \<times> rat option) option" where
  "printresults stats errs =
     (let good = filter valid stats;
          secs = sum_list (map secs good); ops = sum_list (map st_ops good); util = sum_list (map util good)
      in (map2 result_row [0..<length stats] stats,
          if errs = 0 then Some (util / of_nat (length stats) * 100, ops, secs, quotient (ops / 10 ^ 3) secs)
          else None))"

text \<open>The end of \<open>main\<close>: the two parts of the performance index.  Without any measurable time the
  throughput is infinite, and zero requests in zero time make it and the index not a number: \<open>None\<close>.\<close>

definition perf_parts :: "stats_t list \<Rightarrow> rat \<times> rat option" where
  "perf_parts stats =
     (let secs = sum_list (map secs stats);
          ops = sum_list (map st_ops stats);
          util = sum_list (map util stats);
          avg_mm_util = util / of_nat (length stats);
          p1 = UTIL_WEIGHT * avg_mm_util;
          p2 = (case quotient ops secs of
                  None \<Rightarrow> if ops = 0 then None else Some (1 - UTIL_WEIGHT)
                | Some avg_mm_throughput \<Rightarrow>
                    if avg_mm_throughput > AVG_LIBC_THRUPUT then Some (1 - UTIL_WEIGHT)
                    else Some ((1 - UTIL_WEIGHT) * (avg_mm_throughput / AVG_LIBC_THRUPUT)))
      in (p1, p2))"

definition perfindex :: "stats_t list \<Rightarrow> nat \<Rightarrow> rat option" where
  "perfindex stats errs =
     (if errs = 0 then (case perf_parts stats of (p1, None) \<Rightarrow> None | (p1, Some p2) \<Rightarrow> Some ((p1 + p2) * 100)) else Some 0)"

definition numcorrect :: "stats_t list \<Rightarrow> nat" where
  "numcorrect stats = length (filter valid stats)"

section \<open>The run\<close>

text \<open>One trace: its file, what the fresh arrays of the trace contain, and the measured time.  \<open>fsecs\<close> runs
  \<open>eval_mm_speed\<close> several times, each run from an empty heap; one run stands for them.  The heap is
  never empty after \<open>mm_init\<close>, so the utilization is a proper quotient.\<close>

record trace_run =
  tracefile :: string
  junk_blocks :: "nat \<Rightarrow> nat list"
  junk_sizes :: "nat \<Rightarrow> nat list"
  measured :: rat

definition run_trace :: "'a mm_ops \<Rightarrow> nat \<Rightarrow> trace_run \<Rightarrow> 'a driver \<Rightarrow> stop + stats_t \<times> 'a driver" where
  "run_trace ops i r d =
     (case read_trace (tracefile r) of
        Inl e \<Rightarrow> Inl e
      | Inr trace \<Rightarrow>
          let d = d\<lparr>blocks := junk_blocks r (nat (num_ids trace)), block_sizes := junk_sizes r (nat (num_ids trace))\<rparr>;
              st = \<lparr>st_ops = of_int (num_ops trace), valid = False, secs = 0, util = 0\<rparr>
          in case eval_mm_valid ops (trace_ops trace) (int i) d of
               Inl e \<Rightarrow> Inl e
             | Inr (False, d) \<Rightarrow> Inr (st, d)
             | Inr (True, d) \<Rightarrow>
                 (case eval_mm_util ops (trace_ops trace) d of
                    Inl e \<Rightarrow> Inl e
                  | Inr (mx, heapsize, d) \<Rightarrow>
                      (case eval_mm_speed ops (trace_ops trace) d of
                         Inl e \<Rightarrow> Inl e
                       | Inr d \<Rightarrow>
                           Inr (st\<lparr>valid := True, util := of_int mx / of_nat heapsize, secs := measured r\<rparr>, d))))"

fun run_traces :: "'a mm_ops \<Rightarrow> nat \<Rightarrow> trace_run list \<Rightarrow> 'a driver \<Rightarrow> stop + stats_t list \<times> 'a driver" where
  "run_traces ops i [] d = Inr ([], d)"
| "run_traces ops i (r # rs) d =
     (case run_trace ops i r d of
        Inl e \<Rightarrow> Inl e
      | Inr (st, d) \<Rightarrow>
          (case run_traces ops (Suc i) rs d of Inl e \<Rightarrow> Inl e | Inr (sts, d) \<Rightarrow> Inr (st # sts, d)))"

text \<open>What \<open>main\<close> prints for the grader: the number of correct traces and the performance index.\<close>

definition mdriver_main :: "'a mm_ops \<Rightarrow> trace_run list \<Rightarrow> 'a driver \<Rightarrow> stop + nat \<times> rat option" where
  "mdriver_main ops rs d =
     (case run_traces ops 0 rs d of
        Inl e \<Rightarrow> Inl e
      | Inr (stats, d) \<Rightarrow> Inr (numcorrect stats, perfindex stats (errors d)))"

end
