(* ===== verification/MdriverRun.thy ===== *)
theory MdriverRun
  imports MdriverMain MdriverCorrect
begin

text \<open>
  The run of the driver over a list of traces, for every allocator that provides the interface: it ends
  or exits for lack of memory, and what it reports lies within its bounds.
\<close>

section \<open>The interpreters of a trace\<close>

text \<open>\<open>eval_mm_speed\<close> makes the calls that \<open>eval_mm_util\<close> makes.\<close>

lemma speed_op_util:
  assumes "heap e = heap d" "blocks e = blocks d"
  shows "util_op ops op (tot, mx, d) = Inr (tot', mx', d') \<Longrightarrow>
      \<exists>e'. speed_op ops op e = Inr e' \<and> heap e' = heap d' \<and> blocks e' = blocks d' \<and> driver.log e' = driver.log e"
    and "util_op ops op (tot, mx, d) = Inl AppError \<Longrightarrow> speed_op ops op e = Inl AppError"
  using assms
  by (auto simp: util_op_def speed_op_def remember_def Let_def
      split: optype.splits if_splits option.splits prod.splits)

lemma speed_ops_util:
  "heap e = heap d \<Longrightarrow> blocks e = blocks d \<Longrightarrow>
   (util_ops ops tr (tot, mx, d) = Inl AppError \<longrightarrow> speed_ops ops tr e = Inl AppError) \<and>
   (\<forall>st. util_ops ops tr (tot, mx, d) = Inr st \<longrightarrow> (\<exists>e'. speed_ops ops tr e = Inr e' \<and> driver.log e' = driver.log e))"
proof (induction tr arbitrary: tot mx d e)
  case (Cons op tr)
  show ?case
  proof (cases "util_op ops op (tot, mx, d)")
    case (Inl x)
    then show ?thesis using speed_op_util(2) [OF Cons.prems, of ops op tot mx] by auto
  next
    case (Inr st)
    obtain tot' mx' d' where st: "st = (tot', mx', d')" by (cases st) auto
    from speed_op_util(1) [OF Cons.prems Inr [unfolded st]] obtain e' where
      e': "speed_op ops op e = Inr e'" "heap e' = heap d'" "blocks e' = blocks d'" "driver.log e' = driver.log e" by blast
    from Cons.IH [OF e'(2,3), of tot' mx'] e' Inr st show ?thesis by auto
  qed
qed simp

lemma eval_mm_speed_util:
  "eval_mm_util ops tr d = Inl AppError \<Longrightarrow> eval_mm_speed ops tr d = Inl AppError"
  "eval_mm_util ops tr d = Inr r \<Longrightarrow> \<exists>d'. eval_mm_speed ops tr d = Inr d' \<and> driver.log d' = driver.log d"
proof -
  obtain r0 h where h: "op_init ops (mem_reset_brk (heap d)) = (r0, h)" by force
  note s = speed_ops_util [of "d\<lparr>heap := h\<rparr>" "d\<lparr>heap := h\<rparr>" ops tr 0 0, OF refl refl]
  show "eval_mm_util ops tr d = Inl AppError \<Longrightarrow> eval_mm_speed ops tr d = Inl AppError"
    using s h by (auto simp: eval_mm_util_def eval_mm_speed_def split: if_splits sum.splits)
  show "eval_mm_util ops tr d = Inr r \<Longrightarrow> \<exists>d'. eval_mm_speed ops tr d = Inr d' \<and> driver.log d' = driver.log d"
    using s h by (fastforce simp: eval_mm_util_def eval_mm_speed_def split: if_splits sum.splits)
qed

lemma util_op_log: "util_op ops op (tot, mx, d) = Inr (tot', mx', d') \<Longrightarrow> driver.log d' = driver.log d"
  by (auto simp: util_op_def remember_def Let_def split: optype.splits if_splits option.splits prod.splits)

lemma util_ops_log: "util_ops ops tr st = Inr st' \<Longrightarrow> driver.log (snd (snd st')) = driver.log (snd (snd st))"
  by (induction tr arbitrary: st) (auto split: sum.splits dest!: util_op_log)

lemma eval_mm_util_log: "eval_mm_util ops tr d = Inr (mx, sz, d') \<Longrightarrow> driver.log d' = driver.log d"
  by (auto simp: eval_mm_util_def Let_def split: prod.splits if_splits sum.splits dest!: util_ops_log)

section \<open>The arrays of a trace keep their lengths\<close>

lemma valid_op_length:
  "valid_op ops t i op d = Inr (b, d') \<Longrightarrow> length (blocks d') = length (blocks d) \<and> length (block_sizes d') = length (block_sizes d)"
  by (auto simp: valid_op_def add_range_def malloc_error_def remember_def fill_def Let_def
      split: optype.splits if_splits option.splits prod.splits sum.splits bool.splits)

lemma valid_ops_length:
  "valid_ops ops t i tr d = Inr (b, d') \<Longrightarrow> length (blocks d') = length (blocks d) \<and> length (block_sizes d') = length (block_sizes d)"
  by (induction tr arbitrary: i d) (auto dest!: valid_op_length split: sum.splits prod.splits bool.splits)

lemma eval_valid_length:
  "eval_mm_valid ops tr t d = Inr (b, d') \<Longrightarrow> length (blocks d') = length (blocks d) \<and> length (block_sizes d') = length (block_sizes d)"
  by (auto simp: eval_mm_valid_def malloc_error_def Let_def dest!: valid_ops_length split: prod.splits if_splits)

lemma util_op_length:
  "util_op ops op (tot, mx, d) = Inr (tot', mx', d') \<Longrightarrow> length (blocks d') = length (blocks d) \<and> length (block_sizes d') = length (block_sizes d)"
  by (auto simp: util_op_def remember_def Let_def split: optype.splits if_splits option.splits prod.splits)

lemma util_ops_length:
  "util_ops ops tr (tot, mx, d) = Inr (tot', mx', d') \<Longrightarrow> length (blocks d') = length (blocks d) \<and> length (block_sizes d') = length (block_sizes d)"
  by (induction tr arbitrary: tot mx d) (auto dest!: util_op_length split: sum.splits)

lemma eval_util_length:
  "eval_mm_util ops tr d = Inr (mx, sz, d') \<Longrightarrow> length (blocks d') = length (blocks d) \<and> length (block_sizes d') = length (block_sizes d)"
  by (auto simp: eval_mm_util_def Let_def dest!: util_ops_length split: prod.splits if_splits sum.splits)

section \<open>Allocators that do not move their arena\<close>

locale arena_allocator = allocator +
  assumes init_arena: "op_init ops s = (r, s') \<Longrightarrow> same_arena s s'"
    and malloc_arena: "op_malloc ops n s = Some (p, s') \<Longrightarrow> same_arena s s'"
    and free_arena: "op_free ops p s = Some s' \<Longrightarrow> same_arena s s'"
    and realloc_arena: "op_realloc ops q n s = Some (p, s') \<Longrightarrow> same_arena s s'"
begin

lemmas op_arena = init_arena malloc_arena free_arena realloc_arena

lemma add_range_arena: "add_range p n t i d = Inr (b, d') \<Longrightarrow> heap d' = heap d"
  by (auto simp: add_range_def malloc_error_def Let_def split: if_splits)

lemma valid_op_arena: "valid_op ops t i op d = Inr (b, d') \<Longrightarrow> same_arena (heap d) (heap d')"
  by (auto simp: valid_op_def malloc_error_def remember_def fill_def same_arena_def Let_def
      dest!: op_arena [unfolded same_arena_def] add_range_arena
      split: optype.splits if_splits option.splits prod.splits sum.splits bool.splits)

lemma valid_ops_arena: "valid_ops ops t i tr d = Inr (b, d') \<Longrightarrow> same_arena (heap d) (heap d')"
  by (induction tr arbitrary: i d)
    (auto dest!: valid_op_arena intro: same_arena_trans split: sum.splits prod.splits bool.splits)

lemma util_op_arena: "util_op ops op (tot, mx, d) = Inr (tot', mx', d') \<Longrightarrow> same_arena (heap d) (heap d')"
  by (auto simp: util_op_def remember_def Let_def dest: op_arena
      split: optype.splits if_splits option.splits prod.splits)

lemma util_ops_arena: "util_ops ops tr (tot, mx, d) = Inr (tot', mx', d') \<Longrightarrow> same_arena (heap d) (heap d')"
  by (induction tr arbitrary: tot mx d)
    (auto dest!: util_op_arena intro: same_arena_trans split: sum.splits)

lemma speed_op_arena: "speed_op ops op d = Inr d' \<Longrightarrow> same_arena (heap d) (heap d')"
  by (auto simp: speed_op_def Let_def dest: op_arena split: optype.splits if_splits option.splits prod.splits)

lemma speed_ops_arena: "speed_ops ops tr d = Inr d' \<Longrightarrow> same_arena (heap d) (heap d')"
  by (induction tr arbitrary: d) (auto dest!: speed_op_arena intro: same_arena_trans split: sum.splits)

lemma reset_init_arena: "op_init ops (mem_reset_brk s) = (r, s') \<Longrightarrow> same_arena s s'"
  using init_arena same_arena_trans [OF same_arena_refl(2)] by blast

lemma eval_arena:
  "eval_mm_valid ops tr t d = Inr (b, d') \<Longrightarrow> same_arena (heap d) (heap d')"
  "eval_mm_util ops tr d = Inr (mx, sz, d') \<Longrightarrow> same_arena (heap d) (heap d')"
  "eval_mm_speed ops tr d = Inr d' \<Longrightarrow> same_arena (heap d) (heap d')"
  by (auto simp: eval_mm_valid_def eval_mm_util_def eval_mm_speed_def malloc_error_def Let_def
      dest!: reset_init_arena valid_ops_arena util_ops_arena speed_ops_arena
      intro: same_arena_trans split: prod.splits if_splits sum.splits)

end

section \<open>The performance index\<close>

definition good_stats :: "stats_t \<Rightarrow> bool" where
  "good_stats st \<longleftrightarrow> valid st \<and> 0 \<le> util st \<and> util st \<le> 1 \<and> 0 < secs st"

lemma sum_list_bounds:
  fixes f :: "'b \<Rightarrow> rat"
  assumes "\<forall>x \<in> set xs. 0 \<le> f x \<and> f x \<le> 1"
  shows "0 \<le> sum_list (map f xs) \<and> sum_list (map f xs) \<le> of_nat (length xs)"
  using assms by (induction xs) auto

lemma sum_list_positive:
  fixes f :: "'b \<Rightarrow> rat"
  assumes "\<forall>x \<in> set xs. 0 < f x" "xs \<noteq> []"
  shows "0 < sum_list (map f xs)"
  using assms(2,1) by (induction xs rule: list_nonempty_induct) (auto intro: add_pos_pos)

lemma perfindex_bounds:
  assumes "stats \<noteq> []" "errs = 0 \<longrightarrow> list_all good_stats stats" "list_all (\<lambda>st. 0 \<le> st_ops st) stats"
  shows "\<exists>idx. perfindex stats errs = Some idx \<and> 0 \<le> idx \<and> idx \<le> 100"
proof (cases "errs = 0")
  case True
  with assms(2) have u: "0 \<le> sum_list (map util stats)" "sum_list (map util stats) \<le> of_nat (length stats)"
    using sum_list_bounds [of stats util] by (auto simp: list_all_iff good_stats_def)
  define a where "a = sum_list (map util stats) / of_nat (length stats)"
  have a: "0 \<le> a" "a \<le> 1" using u assms(1) by (simp_all add: a_def divide_le_eq)
  define q where "q = sum_list (map st_ops stats) / sum_list (map secs stats)"
  have "0 < sum_list (map secs stats)"
    by (rule sum_list_positive) (use True assms(1,2) in \<open>auto simp: list_all_iff good_stats_def\<close>)
  moreover have "0 \<le> sum_list (map st_ops stats)" using assms(3) by (auto simp: list_all_iff intro!: sum_list_nonneg)
  ultimately have q: "0 \<le> q" "quotient (sum_list (map st_ops stats)) (sum_list (map secs stats)) = Some q"
    by (simp_all add: q_def quotient_def)
  define p2 where "p2 = (if q > AVG_LIBC_THRUPUT then 1 - UTIL_WEIGHT else (1 - UTIL_WEIGHT) * (q / AVG_LIBC_THRUPUT))"
  have "perf_parts stats = (UTIL_WEIGHT * a, Some p2)"
    using q(2) by (simp add: p2_def perf_parts_def Let_def a_def)
  then have "perfindex stats errs = Some ((UTIL_WEIGHT * a + p2) * 100)" using True by (simp add: perfindex_def)
  moreover have "0 \<le> p2" "p2 \<le> 4 / 10" using q(1) by (auto simp: p2_def UTIL_WEIGHT_def AVG_LIBC_THRUPUT_def)
  ultimately show ?thesis using a by (simp add: UTIL_WEIGHT_def)
qed (simp add: perfindex_def)

section \<open>The run over the traces\<close>

text \<open>A trace the driver can be run on: its file is well formed, and so are the requests in it.\<close>

definition good_run :: "nat \<Rightarrow> trace_run \<Rightarrow> bool" where
  "good_run limit r \<longleftrightarrow> 0 < measured r \<and>
     (case read_trace (tracefile r) of
        Inl _ \<Rightarrow> False
      | Inr t \<Rightarrow> trace_ok (nat (num_ids t)) limit {} (trace_ops t) \<and>
          length (junk_blocks r (nat (num_ids t))) = nat (num_ids t) \<and>
          length (junk_sizes r (nat (num_ids t))) = nat (num_ids t))"

lemma read_trace_count: "read_trace txt = Inr t \<Longrightarrow> 0 \<le> num_ops t"
  by (auto simp: read_trace_def split: option.splits prod.splits if_splits sum.splits)

context arena_allocator
begin

lemma run_trace_ok:
  assumes room: "room lo hi" and arena: "mem_start_brk (heap d) = lo" "mem_max_addr (heap d) = hi"
    and r: "good_run limit r" and lim: "limit < 2 ^ 31"
  shows "run_trace ops i r d = Inl AppError \<or>
    (\<exists>st d'. run_trace ops i r d = Inr (st, d') \<and> same_arena (heap d) (heap d') \<and> 0 \<le> st_ops st \<and>
       (if valid st then good_stats st \<and> driver.log d' = driver.log d else length (driver.log d) < length (driver.log d')))"
proof -
  from r obtain t where t: "read_trace (tracefile r) = Inr t" "trace_ok (nat (num_ids t)) limit {} (trace_ops t)"
    and j: "length (junk_blocks r (nat (num_ids t))) = nat (num_ids t)" "length (junk_sizes r (nat (num_ids t))) = nat (num_ids t)"
    and m: "0 < measured r" by (auto simp: good_run_def split: sum.splits)
  let ?d = "d\<lparr>blocks := junk_blocks r (nat (num_ids t)), block_sizes := junk_sizes r (nat (num_ids t))\<rparr>"
  have n: "0 \<le> num_ops t" using t(1) by (rule read_trace_count)
  have a: "mem_start_brk (heap ?d) = lo" "mem_max_addr (heap ?d) = hi" using arena by simp_all
  have l: "length (block_sizes ?d) = length (blocks ?d)" "trace_ok (length (blocks ?d)) limit {} (trace_ops t)"
    using j t(2) by simp_all
  from eval_mm_valid_ok [OF room a l lim, of "int i"] obtain b d1
    where d1: "eval_mm_valid ops (trace_ops t) (int i) ?d = Inr (b, d1)" "only_memory (full lo hi) (int i) 0 (trace_ops t) ?d b d1" by blast
  have s1: "same_arena (heap d) (heap d1)" using eval_arena(1) [OF d1(1)] by simp
  show ?thesis
  proof (cases b)
    case False
    then show ?thesis using d1 s1 t(1) n by (auto simp: run_trace_def only_memory_def)
  next
    case True
    then have l1: "driver.log d1 = driver.log d" using d1(2) by (simp add: only_memory_def)
    have a1: "mem_start_brk (heap d1) = lo" "mem_max_addr (heap d1) = hi" using s1 arena by (simp_all add: same_arena_def)
    have len1: "length (blocks d1) = nat (num_ids t)" "length (block_sizes d1) = nat (num_ids t)"
      using eval_valid_length [OF d1(1)] j by simp_all
    then have l1': "length (block_sizes d1) = length (blocks d1)" "trace_ok (length (blocks d1)) limit {} (trace_ops t)"
      using t(2) by simp_all
    show ?thesis
    proof (cases "eval_mm_util ops (trace_ops t) d1 = Inl AppError")
      case True
      then show ?thesis using d1(1) \<open>b\<close> t(1) by (simp add: run_trace_def)
    next
      case False
      with eval_mm_util_ok [OF room a1 l1' lim] obtain mx sz d2 where
        d2: "eval_mm_util ops (trace_ops t) d1 = Inr (mx, sz, d2)" "0 \<le> mx" "mx \<le> int sz" by blast
      have s2: "same_arena (heap d) (heap d2)" using same_arena_trans [OF s1 eval_arena(2) [OF d2(1)]] .
      have l2: "driver.log d2 = driver.log d" using eval_mm_util_log [OF d2(1)] l1 by simp
      have a2: "mem_start_brk (heap d2) = lo" "mem_max_addr (heap d2) = hi" using s2 arena by (simp_all add: same_arena_def)
      have len2: "length (block_sizes d2) = length (blocks d2)" "trace_ok (length (blocks d2)) limit {} (trace_ops t)"
        using eval_util_length [OF d2(1)] len1 t(2) by simp_all
      have u: "0 \<le> (of_int mx / of_nat sz :: rat)" "(of_int mx / of_nat sz :: rat) \<le> 1"
      proof -
        have "(of_int mx :: rat) \<le> of_int (int sz)" using d2(3) by (simp only: of_int_le_iff)
        then show "(of_int mx / of_nat sz :: rat) \<le> 1" by (cases "sz = 0") (simp_all add: divide_le_eq_1)
      qed (use d2(2) in simp)
      from eval_mm_util_ok [OF room a2 len2 lim] show ?thesis
      proof
        assume "eval_mm_util ops (trace_ops t) d2 = Inl AppError"
        from eval_mm_speed_util(1) [OF this] show ?thesis using d1(1) \<open>b\<close> d2(1) t(1) by (simp add: run_trace_def)
      next
        assume "\<exists>mx sz d'. eval_mm_util ops (trace_ops t) d2 = Inr (mx, sz, d') \<and> 0 \<le> mx \<and> mx \<le> int sz"
        then obtain x where "eval_mm_util ops (trace_ops t) d2 = Inr x" by blast
        from eval_mm_speed_util(2) [OF this] obtain d3 where
          d3: "eval_mm_speed ops (trace_ops t) d2 = Inr d3" "driver.log d3 = driver.log d2" by blast
        have "same_arena (heap d) (heap d3)" using same_arena_trans [OF s2 eval_arena(3) [OF d3(1)]] .
        then show ?thesis using d1(1) \<open>b\<close> d2(1) d3 t(1) l2 u m n by (simp add: run_trace_def good_stats_def)
      qed
    qed
  qed
qed

lemma run_traces_ok:
  assumes "room lo hi" "mem_start_brk (heap d) = lo" "mem_max_addr (heap d) = hi"
    and "list_all (good_run limit) rs" and "limit < 2 ^ 31"
  shows "run_traces ops i rs d = Inl AppError \<or>
    (\<exists>sts d'. run_traces ops i rs d = Inr (sts, d') \<and> length sts = length rs \<and>
       list_all (\<lambda>st. 0 \<le> st_ops st) sts \<and> length (driver.log d) \<le> length (driver.log d') \<and>
       (length (driver.log d) = length (driver.log d') \<longrightarrow> list_all good_stats sts))"
  using assms
proof (induction rs arbitrary: d i)
  case (Cons r rs)
  have r: "good_run limit r" using Cons.prems(4) by simp
  from run_trace_ok [OF Cons.prems(1-3) r Cons.prems(5), of i] show ?case
  proof
    assume "\<exists>st d'. run_trace ops i r d = Inr (st, d') \<and> same_arena (heap d) (heap d') \<and> 0 \<le> st_ops st \<and>
       (if valid st then good_stats st \<and> driver.log d' = driver.log d else length (driver.log d) < length (driver.log d'))"
    then obtain st d' where d': "run_trace ops i r d = Inr (st, d')" "same_arena (heap d) (heap d')" "0 \<le> st_ops st"
      "if valid st then good_stats st \<and> driver.log d' = driver.log d else length (driver.log d) < length (driver.log d')" by blast
    have "mem_start_brk (heap d') = lo" "mem_max_addr (heap d') = hi"
      using d'(2) Cons.prems(2,3) by (simp_all add: same_arena_def)
    note a = this
    have "list_all (good_run limit) rs" using Cons.prems(4) by simp
    from Cons.IH [OF Cons.prems(1) a this Cons.prems(5), of "Suc i"] show ?thesis
    proof (elim disjE exE conjE)
      fix sts d'' assume s: "run_traces ops (Suc i) rs d' = Inr (sts, d'')" "length sts = length rs"
        "list_all (\<lambda>st. 0 \<le> st_ops st) sts" "length (driver.log d') \<le> length (driver.log d'')"
        "length (driver.log d') = length (driver.log d'') \<longrightarrow> list_all good_stats sts"
      then show ?thesis using d' by (cases "valid st") auto
    qed (use d'(1) in simp_all)
  qed simp
qed simp

lemma main_ok:
  assumes "room lo hi" "mem_start_brk (heap d) = lo" "mem_max_addr (heap d) = hi" "driver.log d = []"
    and "list_all (good_run limit) rs" "rs \<noteq> []" and "limit < 2 ^ 31"
  shows "mdriver_main ops rs d = Inl AppError \<or>
    (\<exists>k idx. mdriver_main ops rs d = Inr (k, Some idx) \<and> k \<le> length rs \<and> 0 \<le> idx \<and> idx \<le> 100)"
  using run_traces_ok [OF assms(1-3,5,7), of 0]
proof (elim disjE exE conjE)
  fix sts d' assume s: "run_traces ops 0 rs d = Inr (sts, d')" "length sts = length rs"
    "list_all (\<lambda>st. 0 \<le> st_ops st) sts"
    "length (driver.log d) = length (driver.log d') \<longrightarrow> list_all good_stats sts"
  have "sts \<noteq> []" using s(2) assms(6) by auto
  moreover have "errors d' = 0 \<longrightarrow> list_all good_stats sts" using s(4) assms(4) by (simp add: errors_def)
  ultimately have "\<exists>idx. perfindex sts (errors d') = Some idx \<and> 0 \<le> idx \<and> idx \<le> 100"
    using s(3) by (intro perfindex_bounds)
  moreover have "numcorrect sts \<le> length rs" unfolding numcorrect_def s(2) [symmetric] by (rule length_filter_le)
  ultimately show ?thesis using s(1) by (auto simp: mdriver_main_def)
qed (simp add: mdriver_main_def)

end

end
