(* ===== verification/TraceFile.thy ===== *)
theory TraceFile
  imports MdriverMain
begin

text \<open>
  Trace files: what the reader of the driver does with a trace that was printed in their format.
\<close>

section \<open>Reading numbers\<close>

lemma scan_decimal:
  assumes "list_all isspace ws" "isspace c"
  shows "scan_num (ws @ decimal n @ c # r) = Some (int n, c # r)"
proof -
  obtain x xs where x: "decimal n = x # xs" using decimal_props [of n] by (cases "decimal n") auto
  have d: "list_all isdigit (decimal n)" using decimal_props by blast
  then have dx: "isdigit x" by (simp add: x)
  have "dropWhile isspace (ws @ decimal n @ c # r) = decimal n @ c # r"
    using assms(1) digit_not_space(1) [OF dx] by (induction ws) (auto simp: x)
  moreover have "\<not> isdigit c" using assms(2) digit_not_space(1) by blast
  then have "takeWhile isdigit (decimal n @ c # r) = decimal n" "dropWhile isdigit (decimal n @ c # r) = c # r"
    using d by (simp_all add: takeWhile_append dropWhile_append list_all_iff)
  ultimately show ?thesis
    using digit_not_space [OF dx] decimal_props [of n] by (simp add: scan_num_def Let_def x)
qed

lemma scan_u_decimal:
  "isspace a \<Longrightarrow> isspace c \<Longrightarrow> n < 2 ^ 32 \<Longrightarrow> scan_u (a # decimal n @ c # r) = Some (n, c # r)"
  using scan_decimal [of "[a]" c n r] by (simp add: scan_u_def nat_mod_distrib)

lemma scan_d_decimal:
  "list_all isspace ws \<Longrightarrow> isspace c \<Longrightarrow> 0 \<le> n \<Longrightarrow> n < 2 ^ 31 \<Longrightarrow> scan_d (ws @ decimal (nat n) @ c # r) = Some (n, c # r)"
  using scan_decimal [of ws c "nat n" r] by (simp add: scan_d_def)

section \<open>Trace files\<close>

abbreviation newline :: char where "newline \<equiv> CHR 0x0A"
abbreviation blank :: char where "blank \<equiv> CHR '' ''"

definition letter :: "optype \<Rightarrow> char" where
  "letter t = (case t of ALLOC \<Rightarrow> CHR ''a'' | REALLOC \<Rightarrow> CHR ''r'' | FREE \<Rightarrow> CHR ''f'')"

definition print_op :: "traceop_t \<Rightarrow> string" where
  "print_op op = letter (tr_type op) # blank # decimal (tr_index op) @
     (if tr_type op = FREE then [newline] else blank # decimal (nat (tr_size op)) @ [newline])"

definition print_trace :: "trace_t \<Rightarrow> string" where
  "print_trace t = decimal (nat (sugg_heapsize t)) @ newline # decimal (nat (num_ids t)) @ newline #
     decimal (nat (num_ops t)) @ newline # decimal (nat (weight t)) @ newline # concat (map print_op (trace_ops t))"

definition op_ranged :: "traceop_t \<Rightarrow> bool" where
  "op_ranged op \<longleftrightarrow> tr_index op < 2 ^ 32 \<and> 0 \<le> tr_size op \<and> tr_size op < 2 ^ 31 \<and> (tr_type op = FREE \<longrightarrow> tr_size op = 0)"

definition top_index :: "nat \<Rightarrow> traceop_t list \<Rightarrow> nat" where
  "top_index m ops = foldl (\<lambda>m op. if tr_type op \<noteq> FREE \<and> tr_index op > m then tr_index op else m) m ops"

lemma spaces [simp]: "isspace newline" "isspace blank"
  by (simp_all add: isspace_def)

lemma scan_letter: "scan_word (newline # letter t # blank # s) = Some ([letter t], blank # s)"
  by (cases t) (simp_all add: scan_word_def letter_def isspace_def)

lemma read_op_print:
  assumes "op_ranged op"
  shows "read_op (letter (tr_type op)) (tl (print_op op) @ s) = Inr (op, newline # s)"
proof (cases "tr_type op = FREE")
  case True
  then show ?thesis using assms scan_u_decimal [of blank newline "tr_index op" s]
    by (simp add: read_op_def print_op_def letter_def op_ranged_def traceop_t.equality)
next
  case False
  have z: "nat (tr_size op) < 2 ^ 31" "int (nat (tr_size op)) = tr_size op" using assms by (auto simp: op_ranged_def)
  have s1: "scan_u (blank # decimal (tr_index op) @ blank # decimal (nat (tr_size op)) @ newline # s) =
      Some (tr_index op, blank # decimal (nat (tr_size op)) @ newline # s)"
    by (rule scan_u_decimal) (use assms in \<open>simp_all add: op_ranged_def\<close>)
  have s2: "scan_u (blank # decimal (nat (tr_size op)) @ newline # s) = Some (nat (tr_size op), newline # s)"
    by (rule scan_u_decimal) (use z in simp_all)
  show ?thesis using s1 s2 False z to_int32_small [OF z(1)]
    by (cases "tr_type op") (simp_all add: read_op_def print_op_def letter_def traceop_t.equality)
qed

lemma read_ops_print:
  "list_all op_ranged ops \<Longrightarrow>
   read_ops n m acc (newline # concat (map print_op ops)) =
     (if ops = [] \<or> length acc + length ops \<le> n then Inr (acc @ ops, top_index m ops) else Inl BadAccess)"
proof (induction ops arbitrary: acc m)
  case Nil
  show ?case by (subst read_ops.simps) (simp add: scan_word_def isspace_def top_index_def)
next
  case (Cons op ops)
  let ?rest = "concat (map print_op ops)"
  have p: "print_op op = letter (tr_type op) # blank # tl (tl (print_op op))" by (simp add: print_op_def)
  then have sw: "scan_word (newline # print_op op @ ?rest) = Some ([letter (tr_type op)], tl (print_op op) @ ?rest)"
    by (metis append_Cons list.sel(3) scan_letter)
  have r: "read_op (letter (tr_type op)) (tl (print_op op) @ ?rest) = Inr (op, newline # ?rest)"
    by (rule read_op_print) (use Cons.prems in simp)
  have "read_ops n m acc (newline # concat (map print_op (op # ops))) =
      (if length acc \<ge> n then Inl BadAccess
       else read_ops n (if tr_type op \<noteq> FREE \<and> tr_index op > m then tr_index op else m) (acc @ [op]) (newline # ?rest))"
    by (subst read_ops.simps) (simp add: sw TRACE_MAXLINE_def r)
  then show ?case using Cons by (auto simp: top_index_def)
qed

lemma read_printed:
  assumes "list_all op_ranged (trace_ops t)"
    and "list_all (\<lambda>n. 0 \<le> n \<and> n < 2 ^ 31) [sugg_heapsize t, num_ids t, num_ops t, weight t]"
  shows "read_trace (print_trace t) =
    (if num_ops t < int (length (trace_ops t)) then Inl BadAccess
     else if num_ops t = int (length (trace_ops t)) \<and> int (top_index 0 (trace_ops t)) = (num_ids t - 1) mod 2 ^ 32 then Inr t
     else Inl Assertion)"
proof -
  have h: "scan_d (print_trace t) = Some (sugg_heapsize t, drop (length (decimal (nat (sugg_heapsize t)))) (print_trace t))"
    using assms(2) scan_d_decimal [of "[]" newline "sugg_heapsize t"] by (simp add: print_trace_def)
  have s: "scan_d (newline # decimal (nat k) @ newline # r) = Some (k, newline # r)" if "0 \<le> k" "k < 2 ^ 31" for k r
    using scan_d_decimal [of "[newline]" newline k r] that by simp
  have "read_trace (print_trace t) =
     (case read_ops (nat (num_ops t)) 0 [] (newline # concat (map print_op (trace_ops t))) of
        Inl e \<Rightarrow> Inl e
      | Inr (ops, max_index) \<Rightarrow>
          if int max_index \<noteq> (num_ids t - 1) mod 2 ^ 32 \<or> num_ops t \<noteq> int (length ops) then Inl Assertion
          else Inr \<lparr>sugg_heapsize = sugg_heapsize t, num_ids = num_ids t, num_ops = num_ops t, weight = weight t, trace_ops = ops\<rparr>)"
    using assms(2) h s by (simp add: read_trace_def print_trace_def)
  moreover have "(trace_ops t = [] \<or> length ([] :: traceop_t list) + length (trace_ops t) \<le> nat (num_ops t)) =
      (\<not> num_ops t < int (length (trace_ops t)))"
    using assms(2) by auto
  ultimately show ?thesis
    unfolding read_ops_print [OF assms(1)] by (simp add: trace_t.equality)
qed



section \<open>What the reader accepts\<close>

text \<open>The type of a request in a trace with the largest index \<open>m\<close>.\<close>

definition op_typed :: "nat \<Rightarrow> traceop_t \<Rightarrow> bool" where
  "op_typed m op \<longleftrightarrow> tr_index op < 2 ^ 32 \<and> - (2 ^ 31) \<le> tr_size op \<and> tr_size op < 2 ^ 31 \<and>
     (if tr_type op = FREE then tr_size op = 0 else tr_index op \<le> m)"

lemma op_typed_mono: "op_typed m op \<Longrightarrow> m \<le> m' \<Longrightarrow> op_typed m' op"
  by (auto simp: op_typed_def)

lemma to_int32_range: "- (2 ^ 31) \<le> to_int32 n" "to_int32 n < 2 ^ 31"
proof -
  have *: "w < 2 ^ 32 \<Longrightarrow> - (2 ^ 31) \<le> (if w < 2 ^ 31 then int w else int w - 2 ^ 32) \<and>
      (if w < 2 ^ 31 then int w else int w - 2 ^ 32) < 2 ^ 31" for w :: nat
    by auto
  have "wrap32 n < 2 ^ 32" by (simp add: wrap32_def)
  from * [OF this] show "- (2 ^ 31) \<le> to_int32 n" "to_int32 n < 2 ^ 31" unfolding to_int32_def Let_def by blast+
qed

lemma scan_u_range: "scan_u s = Some (n, r) \<Longrightarrow> n < 2 ^ 32"
  by (auto simp: scan_u_def nat_less_iff split: option.splits if_splits)

lemma read_op_typed:
  assumes "read_op c s = Inr (op, r)"
  shows "op_typed (tr_index op) op"
  using assms to_int32_range
  by (auto simp: read_op_def op_typed_def dest!: scan_u_range split: if_splits option.splits)

definition attained :: "nat \<Rightarrow> traceop_t list \<Rightarrow> bool" where
  "attained m ops \<longleftrightarrow> m = 0 \<or> (\<exists>op\<in>set ops. tr_type op \<noteq> FREE \<and> tr_index op = m)"

lemma read_ops_typed:
  "read_ops n m ops s = Inr (ops', m') \<Longrightarrow> list_all (op_typed m) ops \<Longrightarrow> attained m ops \<Longrightarrow>
   list_all (op_typed m') ops' \<and> attained m' ops'"
proof (induction n m ops s rule: read_ops.induct)
  case (1 n m ops s)
  show ?case
  proof (cases "scan_word s")
    case None
    then show ?thesis using 1(2-4) by (subst (asm) read_ops.simps) simp
  next
    case (Some x)
    obtain type s1 where x: "x = (type, s1)" by force
    obtain op s2 where op: "read_op (hd type) s1 = Inr (op, s2)" and n: "length ops < n" "length type < TRACE_MAXLINE"
      using 1(2) by (subst (asm) read_ops.simps) (auto simp: Some x split: if_splits sum.splits)
    let ?m = "if tr_type op \<noteq> FREE \<and> tr_index op > m then tr_index op else m"
    have r: "read_ops n ?m (ops @ [op]) s2 = Inr (ops', m')"
      using 1(2) n by (subst (asm) read_ops.simps) (simp add: Some x op)
    note t = read_op_typed [OF op]
    have "list_all (op_typed ?m) ops" using 1(3) by (auto simp: list_all_iff intro: op_typed_mono)
    moreover have "op_typed ?m op" using t by (auto simp: op_typed_def)
    ultimately have "list_all (op_typed ?m) (ops @ [op])" by simp
    moreover have "attained ?m (ops @ [op])" using 1(4) by (auto simp: attained_def)
    ultimately show ?thesis using 1(1) [OF Some x [symmetric] _ op refl] n r by simp
  qed
qed



end
