(* ===== verification/MdriverRunProps.thy ===== *)
theory MdriverRunProps
  imports MdriverRun MmVersionsProps TraceFile
begin

text \<open>
  The driver on \<open>mm.c\<close> and on its earlier versions: none of them moves the arena, so the run over the
  trace files holds what \<open>MdriverRun\<close> promises.
\<close>

section \<open>The allocators keep the arena where it is\<close>

lemma arena_links [simp]:
  "same_arena s (t\<lparr>root_bp := r\<rparr>) = same_arena s t" "same_arena s (t\<lparr>prol_bp := r\<rparr>) = same_arena s t"
  by (simp_all add: same_arena_def)

lemma arena_set_root [simp]: "same_arena s (snd (set_root q t)) = same_arena s t"
  by (simp add: set_root_def Let_def)

lemma arena_cut_out [simp]: "same_arena s (cut_out q t) = same_arena s t"
  by (simp add: cut_out_def Let_def)

lemma arena_coalesce [simp]: "same_arena s (snd (coalesce q t)) = same_arena s t"
  by (simp add: coalesce_def Let_def)

lemma arena_place [simp]: "same_arena s (place q b t) = same_arena s t" "same_arena s (place1 q b t) = same_arena s t"
  by (simp_all add: place_def place1_def Let_def)

lemma arena_extend_heap: "same_arena s t \<Longrightarrow> same_arena s (snd (extend_heap w t))"
  by (simp add: extend_heap_def Let_def case_prod_beta arena_sbrk)

lemma arena_mm_init: "same_arena s (snd (mm_init s))"
  by (simp add: mm_init_def Let_def case_prod_beta arena_sbrk arena_extend_heap)

lemma arena_mm_free [simp]: "same_arena s (mm_free q t) = same_arena s t"
  by (simp add: mm_free_def Let_def case_prod_beta)

lemma arena_malloc:
  "mm_malloc n t = Some (p, s') \<Longrightarrow> same_arena s t \<Longrightarrow> same_arena s s'"
  "mm_malloc1 n t = Some (p, s') \<Longrightarrow> same_arena s t \<Longrightarrow> same_arena s s'"
  using arena_extend_heap [of s t]
  by (auto simp: mm_malloc_def mm_malloc1_def Let_def case_prod_beta split: if_splits option.splits)

lemma arena_realloc_move: "realloc_move p n ob nb t = Some (q, s') \<Longrightarrow> same_arena s t \<Longrightarrow> same_arena s s'"
  by (auto simp: realloc_move_def Let_def dest!: arena_malloc split: if_splits option.splits prod.splits)

lemma arena_realloc: "mm_realloc p n t = Some (q, s') \<Longrightarrow> same_arena s t \<Longrightarrow> same_arena s s'"
  by (auto simp: mm_realloc_def Let_def case_prod_beta dest: arena_malloc arena_realloc_move split: if_splits)

lemma arena_realloc1: "mm_realloc1 p n t = Some (q, s') \<Longrightarrow> same_arena s t \<Longrightarrow> same_arena s s'"
  by (auto simp: mm_realloc1_def Let_def dest!: arena_malloc split: if_splits option.splits prod.splits)

lemma arena_realloc2: "mm_realloc2 p n t = Some (q, s') \<Longrightarrow> same_arena s t \<Longrightarrow> same_arena s s'"
  by (auto simp: mm_realloc2_def Let_def case_prod_beta dest: arena_malloc split: if_splits option.splits prod.splits)

interpretation mm_run: arena_allocator mm_c mm_room mm_heap mm_full INT_MAX
proof (unfold_locales, goal_cases)
  case (1 s r s')
  then show ?case using arena_mm_init [of s] by (simp add: mm_c_def)
qed (auto simp: mm_c_def dest: arena_malloc(1) [OF _ same_arena_refl(1)] arena_realloc [OF _ same_arena_refl(1)])

interpretation naive_run: arena_allocator mm_explicit_c mm_room mm_heap mm_full INT_MAX
proof (unfold_locales, goal_cases)
  case (1 s r s')
  then show ?case using arena_mm_init [of s] by (simp add: mm_explicit_c_def mm_init_same)
qed (auto simp: mm_explicit_c_def dest: arena_malloc(2) [OF _ same_arena_refl(1)] arena_realloc1 [OF _ same_arena_refl(1)])

interpretation inplace_run: arena_allocator mm_explicit_realloc_c mm_room mm_heap mm_full INT_MAX
proof (unfold_locales, goal_cases)
  case (1 s r s')
  then show ?case using arena_mm_init [of s] by (simp add: mm_explicit_realloc_c_def mm_explicit_c_def mm_init_same)
qed (auto simp: mm_explicit_realloc_c_def mm_explicit_c_def dest: arena_malloc(2) [OF _ same_arena_refl(1)] arena_realloc2 [OF _ same_arena_refl(1)])

section \<open>Properties\<close>


definition trace1 :: trace_t where
  "trace1 = \<lparr>sugg_heapsize = 100, num_ids = 1, num_ops = 2, weight = 1,
    trace_ops = [\<lparr>tr_type = ALLOC, tr_index = 0, tr_size = 64\<rparr>, \<lparr>tr_type = FREE, tr_index = 0, tr_size = 0\<rparr>]\<rparr>"

definition run0 :: trace_run where
  "run0 = \<lparr>tracefile = print_trace trace1, junk_blocks = (\<lambda>n. replicate n 5), junk_sizes = (\<lambda>n. replicate n 6),
    measured = 1 / 1000\<rparr>"

lemma run0_read: "read_trace (tracefile run0) = Inr trace1"
  unfolding run0_def trace_run.simps
  by (subst read_printed) (simp_all add: trace1_def op_ranged_def top_index_def)


end
