(* ===== verification/Dbfs.thy ===== *)
theory Dbfs
  imports Decimal
begin

text \<open>
  The two debugfs modules of \<open>kernellab-handout\<close>: \<open>dbfs_paddr.c\<close>, which translates a virtual address of a
  process, and \<open>dbfs_ptree.c\<close>, which lists a process and its ancestors.  Page tables and process table belong
  to the kernel and are arguments.
\<close>

section \<open>Translation of addresses\<close>

text \<open>What the module takes from the kernel: the process table and the page tables, each level with the
  offset macro that reads its entry and the tests on the entry.  \<open>pid_mm\<close> is \<open>None\<close> when there is no
  such process, and \<open>Some None\<close> when it has no address space.\<close>

datatype level = PGD | P4D | PUD | PMD | PTE

record ('m, 'e) paging =
  pid_mm :: "int \<Rightarrow> 'm option option"
  pgd_offset :: "'m \<Rightarrow> u64 \<Rightarrow> 'e"
  p4d_offset :: "'e \<Rightarrow> u64 \<Rightarrow> 'e"
  pud_offset :: "'e \<Rightarrow> u64 \<Rightarrow> 'e"
  pmd_offset :: "'e \<Rightarrow> u64 \<Rightarrow> 'e"
  pte_offset :: "'e \<Rightarrow> u64 \<Rightarrow> 'e"
  none_entry :: "level \<Rightarrow> 'e \<Rightarrow> bool"
  bad_entry :: "level \<Rightarrow> 'e \<Rightarrow> bool"
  pte_present :: "'e \<Rightarrow> bool"
  pte_val :: "'e \<Rightarrow> u64"

text \<open>A system call returns a number, or the kernel touches memory outside an object.\<close>

datatype ret = Returns int | Oops

definition EFAULT :: int where "EFAULT = 14"
definition EINVAL :: int where "EINVAL = 22"
definition PADDR_MAXLEN :: nat where "PADDR_MAXLEN = 64"
definition PAGE_MASK :: u64 where "PAGE_MASK = NOT (mask 12)"

text \<open>The loops that put a number together from the bytes from \<open>k\<close> on.\<close>

definition read_pid :: "byte list \<Rightarrow> u32" where
  "read_pid buf = foldl (\<lambda>pid i. pid + push_bit (8 * i) (ucast (buf ! i))) 0 [0..<4]"

definition read_vaddr :: "byte list \<Rightarrow> u64" where
  "read_vaddr buf = foldl (\<lambda>vaddr i. vaddr + push_bit (8 * i) (ucast (buf ! (8 + i)))) 0 [0..<6]"

definition write_paddr :: "u64 \<Rightarrow> byte list \<Rightarrow> byte list" where
  "write_paddr paddr buf = foldl (\<lambda>buf i. buf[16 + i := ucast (drop_bit (8 * i) paddr AND 255)]) buf [0..<5]"

text \<open>The descent through the five levels.\<close>

definition walk :: "('m, 'e) paging \<Rightarrow> 'm \<Rightarrow> u64 \<Rightarrow> u64 option" where
  "walk k mm vaddr =
     (let pgdp = pgd_offset k mm vaddr in
      if none_entry k PGD pgdp \<or> bad_entry k PGD pgdp then None else
      let p4dp = p4d_offset k pgdp vaddr in
      if none_entry k P4D p4dp \<or> bad_entry k P4D p4dp then None else
      let pudp = pud_offset k p4dp vaddr in
      if none_entry k PUD pudp \<or> bad_entry k PUD pudp then None else
      let pmdp = pmd_offset k pudp vaddr in
      if none_entry k PMD pmdp \<or> bad_entry k PMD pmdp then None else
      let ptep = pte_offset k pmdp vaddr in
      if none_entry k PTE ptep \<or> \<not> pte_present k ptep then None
      else Some ((pte_val k ptep AND PAGE_MASK) OR (vaddr AND NOT PAGE_MASK)))"

text \<open>The user buffer has at least \<open>len\<close> bytes.  \<open>rd\<close> and \<open>wr\<close> say whether it can be copied from and to: \<open>Some m\<close> is
  a page fault after \<open>m\<close> bytes.  The file position does not change: \<open>position += len\<close> moves the pointer.\<close>

definition read_output :: "('m, 'e) paging \<Rightarrow> nat option \<Rightarrow> nat option \<Rightarrow> byte list \<Rightarrow> nat \<Rightarrow> ret \<times> byte list" where
  "read_output k rd wr user len =
     (let buf = replicate PADDR_MAXLEN 0;
          len = (if len < PADDR_MAXLEN then len else PADDR_MAXLEN)
      in if rd \<noteq> None then (Returns (- EFAULT), user)
         else
           let buf = take len user @ drop len buf;
               pid = sint (read_pid buf);
               vaddr = read_vaddr buf
           in case pid_mm k pid of
                None \<Rightarrow> (Returns (- EINVAL), user)
              | Some None \<Rightarrow> (Oops, user)
              | Some (Some mm) \<Rightarrow>
                  (case walk k mm vaddr of
                     None \<Rightarrow> (Returns (- EINVAL), user)
                   | Some paddr \<Rightarrow>
                       let buf = write_paddr paddr buf in
                       (case wr of
                         Some m \<Rightarrow> (Returns (- EFAULT), take (min m len) buf @ drop (min m len) user)
                       | None \<Rightarrow> (Returns (int len), take len buf @ drop len user))))"

section \<open>The tree of processes\<close>

definition PTREE_MAXLEN :: nat where "PTREE_MAXLEN = 512"

record task =
  comm :: string
  tpid :: int
  parent :: nat

text \<open>The process table, with tasks at addresses.\<close>

record tasks =
  pid_task :: "int \<Rightarrow> nat option"
  task_at :: "nat \<Rightarrow> task"

abbreviation NUL :: char where "NUL \<equiv> CHR 0x00"

text \<open>\<open>sscanf\<close> with \<open>%u\<close>: without a number the variable keeps its junk.\<close>

definition scan_pid :: "int \<Rightarrow> string \<Rightarrow> int" where
  "scan_pid junk s =
     (let d = takeWhile isdigit (dropWhile isspace s)
      in if d = [] then junk else sint (of_nat (number d) :: u32))"

text \<open>The line of a task; task ids that are printed are positive.\<close>

definition task_line :: "task \<Rightarrow> string" where
  "task_line t = comm t @ '' ('' @ decimal (nat (tpid t)) @ '')'' @ [CHR 0x0A]"

text \<open>One round puts the line in front of the buffer and cuts the end.  \<open>snprintf\<close> always prints
  something, so the loop around it ends at once.\<close>

definition prepend :: "string \<Rightarrow> string \<Rightarrow> string" where
  "prepend line buf =
     (let buf_add = take (PTREE_MAXLEN - 1) line @ replicate (PTREE_MAXLEN - length (take (PTREE_MAXLEN - 1) line)) NUL
      in take (length line) buf_add @ take (PTREE_MAXLEN - length line) buf)"

text \<open>The way up to the process 0.  \<open>None\<close>: it does not end, or a line is longer than the buffer.\<close>

partial_function (option) climb :: "tasks \<Rightarrow> nat \<Rightarrow> string \<Rightarrow> nat \<Rightarrow> (string \<times> nat) option" where
  "climb ts cur buf len =
     (if tpid (task_at ts cur) = 0 then Some (buf, len)
      else
        let line = task_line (task_at ts cur) in
        if length line > PTREE_MAXLEN then None
        else climb ts (parent (task_at ts cur)) (prepend line buf) (len + length line))"

text \<open>The buffer stays between calls.  A longer input than the buffer is copied past its end, and a pid
  without a process leaves a null pointer that is followed.  After a page fault the rest of the
  destination is cleared.\<close>

definition write_pid_to_input :: "tasks \<Rightarrow> nat option \<Rightarrow> int \<Rightarrow> string \<Rightarrow> string \<Rightarrow> (ret \<times> string) option" where
  "write_pid_to_input ts rd junk user buf =
     (if length user > PTREE_MAXLEN then Some (Oops, buf)
      else case rd of
        Some m \<Rightarrow> Some (Returns (- EFAULT), take m user @ replicate (length user - m) NUL @ drop (length user) buf)
      | None \<Rightarrow>
        let buf = user @ drop (length user) buf;
            input_pid = scan_pid junk buf;
            buf = replicate PTREE_MAXLEN NUL
        in case pid_task ts input_pid of
             None \<Rightarrow> Some (Oops, buf)
           | Some cur \<Rightarrow>
               (case climb ts cur buf 0 of
                  None \<Rightarrow> None
                | Some (buf, len) \<Rightarrow> Some (Returns (int len), buf)))"

text \<open>A read always copies from the start of the buffer.  The comparison is unsigned: behind the end of the file
  the rest is a huge number, and a long read runs past the buffer.\<close>

definition read_trace_from_output :: "string \<Rightarrow> nat option \<Rightarrow> nat \<Rightarrow> nat \<Rightarrow> ret \<times> string \<times> nat" where
  "read_trace_from_output buf wr n position =
     (let rest = (int PTREE_MAXLEN - int position) mod 2 ^ 64;
          len = nat (if int n < rest then int n else rest)
      in if len > PTREE_MAXLEN then (Oops, [], position)
         else case wr of
           Some m \<Rightarrow> (Returns (- EFAULT), take (min m len) buf, position)
         | None \<Rightarrow> (Returns (int len), take len buf, position + len))"

end
