(* ===== verification/DbfsProps.thy ===== *)
theory DbfsProps
  imports Dbfs
begin

text \<open>
  What user programs see of the debugfs modules: the bytes of a packet before and after a translation,
  the lines of the process tree, and how reading the tree in pieces goes.
\<close>

unbundle bit_operations_syntax

section \<open>Numbers in bytes\<close>

definition byte_of :: "nat \<Rightarrow> nat \<Rightarrow> byte" where
  "byte_of n i = of_nat (drop_bit (8 * i) n)"

text \<open>The packet of \<open>app.c\<close>: pid, four bytes of padding, and the two addresses.\<close>

definition packet :: "nat \<Rightarrow> byte list \<Rightarrow> nat \<Rightarrow> nat \<Rightarrow> byte list" where
  "packet p pad v x = map (byte_of p) [0..<4] @ pad @ map (byte_of v) [0..<8] @ map (byte_of x) [0..<8]"

lemma bit_byte_of: "bit (byte_of n i) j \<longleftrightarrow> j < 8 \<and> bit n (8 * i + j)"
  by (auto simp: byte_of_def bit_of_nat_iff bit_drop_bit_eq)

lemma uint_byte_of: "unat (byte_of n i) = take_bit 8 (drop_bit (8 * i) n)"
  by (simp add: byte_of_def unat_of_nat take_bit_eq_mod)


lemma sum_bytes:
  "(\<Sum>i<k. take_bit 8 (drop_bit (8 * i) n) * 2 ^ (8 * i)) = take_bit (8 * k) (n :: nat)"
proof (induction k)
  case (Suc k)
  have "take_bit (8 * Suc k) n = take_bit (8 * k) n + push_bit (8 * k) (take_bit 8 (drop_bit (8 * k) n))"
    using mod_mult2_eq [of n "2 ^ (8 * k)" "2 ^ 8"]
    by (simp add: take_bit_eq_mod drop_bit_eq_div push_bit_eq_mult power_add mult.commute)
  then show ?case using Suc by (simp add: push_bit_eq_mult)
qed simp

lemma foldl_bytes:
  assumes "\<And>i. i < k \<Longrightarrow> buf ! (o' + i) = byte_of n i"
  shows "foldl (\<lambda>v i. v + push_bit (8 * i) (ucast (buf ! (o' + i)))) 0 [0..<k] = (of_nat (take_bit (8 * k) n) :: 'a::len word)"
  using assms
proof (induction k)
  case (Suc k)
  have "push_bit (8 * k) (ucast (byte_of n k) :: 'a word) = of_nat (take_bit 8 (drop_bit (8 * k) n) * 2 ^ (8 * k))"
    by (simp add: push_bit_eq_mult uint_byte_of [symmetric])
  moreover have "take_bit (8 * k) n + take_bit 8 (drop_bit (8 * k) n) * 2 ^ (8 * k) = take_bit (8 * Suc k) n"
    using sum_bytes [of n k] sum_bytes [of n "Suc k"] by (simp only: sum.lessThan_Suc)
  ultimately show ?case using Suc by (simp del: of_nat_mult of_nat_power add: of_nat_add [symmetric])
qed simp

lemma ucast_byte: "(ucast (drop_bit (8 * i) w AND 255 :: u64) :: byte) = byte_of (unat w) i"
proof (rule bit_word_eqI)
  fix j assume "j < LENGTH(8)"
  have "bit (mask 8 :: u64) j" using \<open>j < LENGTH(8)\<close> by (simp only: bit_mask_iff) simp
  then have "bit (255 :: u64) j" by (simp add: mask_eq_exp_minus_1)
  then show "bit (ucast (drop_bit (8 * i) w AND 255) :: byte) j = bit (byte_of (unat w) i) j"
    using \<open>j < LENGTH(8)\<close> by (simp add: bit_byte_of bit_ucast_iff bit_and_iff bit_drop_bit_eq bit_unsigned_iff)
qed

text \<open>Five bytes of the answer replace the five low bytes of what the caller had in the field.\<close>

definition answered :: "nat \<Rightarrow> nat \<Rightarrow> nat" where
  "answered paddr x = take_bit 40 paddr + push_bit 40 (drop_bit 40 x)"

lemma byte_answered: "byte_of (answered a x) i = (if i < 5 then byte_of a i else byte_of x i)"
proof (rule bit_word_eqI)
  fix j assume "j < LENGTH(8)"
  moreover have "answered a x = take_bit 40 a OR push_bit 40 (drop_bit 40 x)"
    unfolding answered_def by (rule disjunctive_add) (auto simp: bit_take_bit_iff bit_push_bit_iff)
  ultimately show "bit (byte_of (answered a x) i) j = bit (if i < 5 then byte_of a i else byte_of x i) j"
    by (auto simp: bit_byte_of bit_or_iff bit_take_bit_iff bit_push_bit_iff bit_drop_bit_eq)
qed

lemma read_packet:
  assumes "length pad = 4"
  shows "read_pid (packet p pad v x @ zs) = of_nat (take_bit 32 p)" "read_vaddr (packet p pad v x @ zs) = of_nat (take_bit 48 v)"
proof -
  have "(packet p pad v x @ zs) ! (0 + i) = byte_of p i" if "i < 4" for i
    using that by (simp add: packet_def nth_append)
  from foldl_bytes [of 4 _ 0, OF this] show "read_pid (packet p pad v x @ zs) = of_nat (take_bit 32 p)"
    by (simp add: read_pid_def)
  have "(packet p pad v x @ zs) ! (8 + i) = byte_of v i" if "i < 6" for i
    using that assms by (simp add: packet_def nth_append)
  from foldl_bytes [of 6 _ 8, OF this] show "read_vaddr (packet p pad v x @ zs) = of_nat (take_bit 48 v)"
    by (simp add: read_vaddr_def)
qed

lemma write_packet:
  assumes "length pad = 4"
  shows "write_paddr w (packet p pad v x @ zs) = packet p pad v (answered (unat w) x) @ zs"
proof -
  obtain a b c d where pad: "pad = [a, b, c, d]"
    using assms by (auto simp: numeral_eq_Suc length_Suc_conv)
  show ?thesis
    unfolding write_paddr_def ucast_byte by (simp add: packet_def pad upt_rec numeral_eq_Suc byte_answered)
qed

section \<open>What a translation is\<close>

text \<open>The entry of a page table that the descent reads at each level: it goes on from an entry that is there and not
  bad, and at the last level the page has to be present.\<close>

definition passes :: "('m, 'e) paging \<Rightarrow> level \<Rightarrow> 'e \<Rightarrow> bool" where
  "passes k l e \<longleftrightarrow> \<not> none_entry k l e \<and> (if l = PTE then pte_present k e else \<not> bad_entry k l e)"

inductive entry :: "('m, 'e) paging \<Rightarrow> 'm \<Rightarrow> nat \<Rightarrow> level \<Rightarrow> 'e \<Rightarrow> bool" for k mm v where
  pgd: "entry k mm v PGD (pgd_offset k mm (of_nat v))"
| p4d: "entry k mm v PGD e \<Longrightarrow> passes k PGD e \<Longrightarrow> entry k mm v P4D (p4d_offset k e (of_nat v))"
| pud: "entry k mm v P4D e \<Longrightarrow> passes k P4D e \<Longrightarrow> entry k mm v PUD (pud_offset k e (of_nat v))"
| pmd: "entry k mm v PUD e \<Longrightarrow> passes k PUD e \<Longrightarrow> entry k mm v PMD (pmd_offset k e (of_nat v))"
| pte: "entry k mm v PMD e \<Longrightarrow> passes k PMD e \<Longrightarrow> entry k mm v PTE (pte_offset k e (of_nat v))"

text \<open>The physical address: the page of the last entry, and the offset of the virtual address in its page of 4096
  bytes.\<close>

inductive translates :: "('m, 'e) paging \<Rightarrow> 'm \<Rightarrow> nat \<Rightarrow> nat \<Rightarrow> bool" for k mm v where
  "entry k mm v PTE e \<Longrightarrow> passes k PTE e \<Longrightarrow>
   translates k mm v (4096 * (unat (pte_val k e) div 4096) + v mod 4096)"

inductive_simps entry_simps: "entry k mm v PGD e" "entry k mm v P4D e" "entry k mm v PUD e" "entry k mm v PMD e" "entry k mm v PTE e"
inductive_simps translates_simps: "translates k mm v P"

lemma page_and_offset:
  assumes "v < 2 ^ 64"
  shows "unat ((w AND PAGE_MASK) OR (of_nat v AND NOT PAGE_MASK) :: u64) = 4096 * (unat w div 4096) + v mod 4096"
proof -
  have "4096 * (unat w div 4096) = push_bit 12 (drop_bit 12 (unat w))" "v mod 4096 = take_bit 12 v"
    by (simp_all add: push_bit_eq_mult drop_bit_eq_div take_bit_eq_mod)
  moreover have "push_bit 12 (drop_bit 12 (unat w)) + take_bit 12 v = push_bit 12 (drop_bit 12 (unat w)) OR take_bit 12 v"
    by (rule disjunctive_add) (auto simp: bit_simps)
  moreover have "unat ((w AND PAGE_MASK) OR (of_nat v AND NOT PAGE_MASK) :: u64) = push_bit 12 (drop_bit 12 (unat w)) OR take_bit 12 v"
  proof (rule bit_eqI)
    fix n
    have "bit v n \<Longrightarrow> n < 64" using assms by (metis bit_take_bit_iff take_bit_nat_eq_self)
    moreover have "bit w n \<Longrightarrow> n < 64" using bit_imp_le_length [of w n] by simp
    ultimately show "bit (unat ((w AND PAGE_MASK) OR (of_nat v AND NOT PAGE_MASK))) n \<longleftrightarrow> bit (push_bit 12 (drop_bit 12 (unat w)) OR take_bit 12 v) n"
      by (auto simp: bit_simps PAGE_MASK_def possible_bit_def)
  qed
  ultimately show ?thesis by simp
qed

lemma walk_translates:
  assumes "v < 2 ^ 64"
  shows "translates k mm v P \<longleftrightarrow> (\<exists>w. walk k mm (of_nat v) = Some w \<and> P = unat w)"
  unfolding translates_simps entry_simps
  by (auto simp: walk_def Let_def passes_def page_and_offset [OF assms])

section \<open>The tree\<close>

text \<open>A task and its ancestors, up to but without the process 0.\<close>

inductive ancestors :: "tasks \<Rightarrow> nat \<Rightarrow> task list \<Rightarrow> bool" for ts where
  top: "tpid (task_at ts c) = 0 \<Longrightarrow> ancestors ts c []"
| up: "tpid (task_at ts c) \<noteq> 0 \<Longrightarrow> ancestors ts (parent (task_at ts c)) us \<Longrightarrow> ancestors ts c (task_at ts c # us)"

text \<open>The kernel limits the length of a command name and the process ids.\<close>

definition task_ok :: "task \<Rightarrow> bool" where
  "task_ok t \<longleftrightarrow> length (comm t) \<le> 15 \<and> 0 < tpid t \<and> tpid t < 2 ^ 31"

lemma task_line_length: "task_ok t \<Longrightarrow> length (task_line t) \<le> 29"
  using decimal_length [of "nat (tpid t)" 9] by (fastforce simp: task_ok_def task_line_def nat_less_iff)

lemma prepend_short: "length line < PTREE_MAXLEN \<Longrightarrow> prepend line buf = take PTREE_MAXLEN (line @ buf)"
  by (simp add: prepend_def Let_def PTREE_MAXLEN_def)

lemma take_again: "take n (xs @ take n ys) = take n (xs @ ys)"
  by simp

lemma climb_ancestors:
  assumes "ancestors ts c us" "list_all task_ok us" "length buf = PTREE_MAXLEN"
  shows "climb ts c buf len =
    Some (take PTREE_MAXLEN (concat (rev (map task_line us)) @ buf), len + (\<Sum>t\<leftarrow>us. length (task_line t)))"
  using assms
proof (induction arbitrary: buf len rule: ancestors.induct)
  case (top c)
  then show ?case by (subst climb.simps) simp
next
  case (up c us)
  let ?t = "task_at ts c"
  have l: "length (task_line ?t) < PTREE_MAXLEN" using task_line_length [of ?t] up.prems by (simp add: PTREE_MAXLEN_def)
  then have "climb ts c buf len = climb ts (parent ?t) (take PTREE_MAXLEN (task_line ?t @ buf)) (len + length (task_line ?t))"
    using up.hyps(1) by (subst climb.simps) (simp add: Let_def prepend_short)
  also have "\<dots> = Some (take PTREE_MAXLEN (concat (rev (map task_line us)) @ take PTREE_MAXLEN (task_line ?t @ buf)),
      len + length (task_line ?t) + (\<Sum>t\<leftarrow>us. length (task_line t)))"
    by (rule up.IH) (use up.prems l in simp_all)
  finally show ?case by (simp add: take_again add.assoc del: take_append)
qed


primrec read_all :: "string \<Rightarrow> nat \<Rightarrow> nat \<Rightarrow> nat \<Rightarrow> string" where
  "read_all buf n 0 pos = []"
| "read_all buf n (Suc k) pos =
     (case read_trace_from_output buf None n pos of (_, out, pos) \<Rightarrow> out @ read_all buf n k pos)"

lemma read_within:
  assumes "pos \<le> PTREE_MAXLEN"
  shows "read_trace_from_output buf None n pos =
    (let r = min n (PTREE_MAXLEN - pos) in (Returns (int r), take r buf, pos + r))"
proof -
  have "(int PTREE_MAXLEN - int pos) mod 2 ^ 64 = int (PTREE_MAXLEN - pos)"
    using assms by (simp add: PTREE_MAXLEN_def of_nat_diff)
  then show ?thesis
    by (auto simp: read_trace_from_output_def Let_def min_def)
qed

lemma read_all_steps:
  "pos + k * n \<le> PTREE_MAXLEN \<Longrightarrow>
   read_all buf n (k + j) pos = concat (replicate k (take n buf)) @ read_all buf n j (pos + k * n)"
proof (induction k arbitrary: pos)
  case (Suc k)
  then have "read_trace_from_output buf None n pos = (Returns (int n), take n buf, pos + n)"
    by (subst read_within) (simp_all add: Let_def min_def)
  then show ?case using Suc by (simp add: add.assoc)
qed simp

lemma scan_printed:
  assumes "p < 2 ^ 31"
  shows "scan_pid junk (decimal p @ CHR 0x0A # r) = int p"
proof -
  obtain x xs where x: "decimal p = x # xs" using decimal_props [of p] by (cases "decimal p") auto
  have d: "list_all isdigit (decimal p)" "number (decimal p) = p" using decimal_props by blast+
  have "dropWhile isspace (decimal p @ CHR 0x0A # r) = decimal p @ CHR 0x0A # r"
    using d(1) digit_not_space(1) [of x] by (simp add: x)
  moreover have "takeWhile isdigit (decimal p @ CHR 0x0A # r) = decimal p"
    using d(1) by (simp add: takeWhile_append list_all_iff isdigit_def)
  moreover have "sint (of_nat p :: u32) = int p" using assms by (simp add: signed_of_nat signed_take_bit_int_eq_self)
  ultimately show ?thesis using d(2) by (simp add: scan_pid_def Let_def x)
qed

section \<open>Properties\<close>

text \<open>C33: a packet of \<open>app.c\<close> comes back with the physical address of its virtual address in the five low bytes
  of its last field, so an address of 40 bits or more is cut.  The physical address is the page frame
  of the entry the five levels of page tables lead to, with the offset within the page; if an entry is missing
  or bad, if the page is not present, or if there is no such process, the packet comes back as it
  was with an error, and a process without an address space crashes.\<close>

theorem paddr_translates:
  assumes "p < 2 ^ 31" and "v < 2 ^ 48" and "length pad = 4"
  shows "case pid_mm k (int p) of
       None \<Rightarrow> read_output k None None (packet p pad v x) 24 = (Returns (- EINVAL), packet p pad v x)
     | Some None \<Rightarrow> read_output k None None (packet p pad v x) 24 = (Oops, packet p pad v x)
     | Some (Some mm) \<Rightarrow>
         (if \<exists>a. translates k mm v a
          then \<exists>a. translates k mm v a \<and>
            read_output k None None (packet p pad v x) 24 = (Returns 24, packet p pad v (answered a x))
          else read_output k None None (packet p pad v x) 24 = (Returns (- EINVAL), packet p pad v x))"
proof -
  let ?zs = "drop 24 (replicate PADDR_MAXLEN 0) :: byte list"
  have l: "length (packet p pad' v' x') = 24" if "length pad' = 4" for pad' v' x' using that by (simp add: packet_def)
  have "take_bit 32 p = p" "take_bit 48 v = v" using assms(1,2) by (simp_all add: take_bit_nat_eq_self)
  moreover have "sint (of_nat p :: u32) = int p" using assms(1) by (simp add: signed_of_nat signed_take_bit_int_eq_self)
  ultimately have "sint (read_pid (packet p pad v x @ ?zs)) = int p" "read_vaddr (packet p pad v x @ ?zs) = of_nat v"
    unfolding read_packet [OF assms(3)] by simp_all
  moreover have "v < 2 ^ 64" using assms(2) by simp
  ultimately show ?thesis
    using l [OF assms(3)] write_packet [OF assms(3)]
    by (auto simp: read_output_def Let_def PADDR_MAXLEN_def walk_translates split: option.split)
qed

text \<open>Process 7 has one page.\<close>

definition paging7 :: "u64 \<Rightarrow> (unit, u64) paging" where
  "paging7 e = \<lparr>pid_mm = (\<lambda>p. if p = 7 then Some (Some ()) else None), pgd_offset = (\<lambda>_ _. 0x67),
     p4d_offset = (\<lambda>e _. e), pud_offset = (\<lambda>e _. e), pmd_offset = (\<lambda>e _. e),
     pte_offset = (\<lambda>_ v. if drop_bit 12 v = 5 then e else 0),
     none_entry = (\<lambda>_ e. e = 0), bad_entry = (\<lambda>_ e. e \<noteq> 0x67), pte_present = (\<lambda>e. bit e 0), pte_val = (\<lambda>e. e)\<rparr>"

theorem paddr_translates_witness:
  "read_output (paging7 0x230000FF025) None None (packet 7 [0, 0, 0, 0] 0x5123 0) 24 =
   (Returns 24, packet 7 [0, 0, 0, 0] 0x5123 0x30000FF123)"
proof -
  have "translates (paging7 0x230000FF025) () 0x5123 = (\<lambda>a. a = 0x230000FF123)"
    unfolding translates_simps entry_simps fun_eq_iff
    by (auto simp: passes_def paging7_def drop_bit_eq_div)
  moreover have "pid_mm (paging7 e) 7 = Some (Some ())" for e by (simp add: paging7_def)
  moreover have "answered 0x230000FF123 0 = 0x30000FF123" by (simp add: answered_def)
  ultimately show ?thesis 
    using paddr_translates [where p = 7 and v = "0x5123" and pad = "[0, 0, 0, 0]" and k = "paging7 0x230000FF025" and x = 0] by simp
qed

text \<open>C34: writing a process id fills the file with the lines of the process and its ancestors, the oldest
  first; what does not fit is cut off at the end, which is where the process itself stands.\<close>

theorem ptree_lists_ancestors:
  assumes "p < 2 ^ 31" and "pid_task ts (int p) = Some c" and "ancestors ts c us" and "list_all task_ok us"
    and "length buf = PTREE_MAXLEN"
  shows "write_pid_to_input ts None junk (decimal p @ [CHR 0x0A]) buf =
    Some (Returns (int ((\<Sum>t\<leftarrow>us. length (task_line t)))),
      take PTREE_MAXLEN (concat (rev (map task_line us)) @ replicate PTREE_MAXLEN NUL))"
proof -
  have "p < 10 ^ Suc 9" using assms(1) by simp
  then have "length (decimal p) \<le> 10" using decimal_length [of p 9] by simp
  then show ?thesis
    using assms(2) climb_ancestors [OF assms(3,4), of "replicate PTREE_MAXLEN NUL" 0] scan_printed [OF assms(1)]
    by (simp add: write_pid_to_input_def Let_def PTREE_MAXLEN_def)
qed

definition tasks0 :: tasks where
  "tasks0 = \<lparr>pid_task = (\<lambda>p. if p = 42 then Some 3 else None),
     task_at = (\<lambda>a. [\<lparr>comm = ''swapper'', tpid = 0, parent = 0\<rparr>, \<lparr>comm = ''init'', tpid = 1, parent = 0\<rparr>,
        \<lparr>comm = ''bash'', tpid = 9, parent = 1\<rparr>, \<lparr>comm = ''cat'', tpid = 42, parent = 2\<rparr>] ! a)\<rparr>"

theorem ptree_lists_ancestors_witness:
  "\<exists>buf. write_pid_to_input tasks0 None 0 (decimal 42 @ [CHR 0x0A]) (replicate PTREE_MAXLEN NUL) = Some (Returns 27, buf) \<and>
     take 27 buf = ''init (1)'' @ [CHR 0x0A] @ ''bash (9)'' @ [CHR 0x0A] @ ''cat (42)'' @ [CHR 0x0A]"
proof -
  have "ancestors tasks0 (parent (task_at tasks0 1)) []" by (rule ancestors.top) (simp add: tasks0_def)
  then have "ancestors tasks0 (parent (task_at tasks0 2)) [task_at tasks0 1]"
    using ancestors.up [of tasks0 1] by (simp add: tasks0_def)
  then have "ancestors tasks0 (parent (task_at tasks0 3)) [task_at tasks0 2, task_at tasks0 1]"
    using ancestors.up [of tasks0 2] by (simp add: tasks0_def)
  then have a: "ancestors tasks0 3 [task_at tasks0 3, task_at tasks0 2, task_at tasks0 1]"
    using ancestors.up [of tasks0 3] by (simp add: tasks0_def)
  have l: "task_line (task_at tasks0 1) = ''init (1)'' @ [CHR 0x0A]" "task_line (task_at tasks0 2) = ''bash (9)'' @ [CHR 0x0A]"
    "task_line (task_at tasks0 3) = ''cat (42)'' @ [CHR 0x0A]" by code_simp+
  have "list_all task_ok [task_at tasks0 3, task_at tasks0 2, task_at tasks0 1]" by (simp add: tasks0_def task_ok_def)
  moreover have "pid_task tasks0 (int 42) = Some 3" by (simp add: tasks0_def)
  ultimately show ?thesis
    using ptree_lists_ancestors [OF _ _ a, of 42 "replicate PTREE_MAXLEN NUL" 0] by (simp add: l [simplified] PTREE_MAXLEN_def)
qed

text \<open>Every read starts at the beginning of the buffer, so reading the file in pieces repeats its first bytes
  until 512 have been read, and only a read of all 512 bytes sees the file; behind the end a
  long read leaves the buffer.\<close>

theorem ptree_reads:
  assumes "length buf = PTREE_MAXLEN" and "0 < n" and "n < 2 ^ 63"
  shows "read_all buf n (Suc (PTREE_MAXLEN div n)) 0 =
      concat (replicate (PTREE_MAXLEN div n) (take n buf)) @ take (PTREE_MAXLEN mod n) buf \<and>
    (\<forall>pos. PTREE_MAXLEN < pos \<and> pos < 2 ^ 63 \<and> PTREE_MAXLEN < n \<longrightarrow> read_trace_from_output buf None n pos = (Oops, [], pos))"
proof
  have "PTREE_MAXLEN div n * n \<le> PTREE_MAXLEN" by simp
  moreover have "PTREE_MAXLEN - PTREE_MAXLEN div n * n = PTREE_MAXLEN mod n" by (simp add: minus_div_mult_eq_mod)
  moreover have "PTREE_MAXLEN mod n < n" using assms(2) by simp
  ultimately show "read_all buf n (Suc (PTREE_MAXLEN div n)) 0 =
      concat (replicate (PTREE_MAXLEN div n) (take n buf)) @ take (PTREE_MAXLEN mod n) buf"
    using read_all_steps [of 0 "PTREE_MAXLEN div n" n buf 1] read_within [of "PTREE_MAXLEN div n * n" buf n]
    by (simp add: Let_def min_def)
  have "int n < (int PTREE_MAXLEN - int pos) mod 2 ^ 64" if "PTREE_MAXLEN < pos" "pos < 2 ^ 63" for pos
  proof -
    have "(int PTREE_MAXLEN - int pos) mod 2 ^ 64 = int PTREE_MAXLEN - int pos + 2 ^ 64"
      using that mod_pos_pos_trivial [of "int PTREE_MAXLEN - int pos + 2 ^ 64" "2 ^ 64"] by simp
    then show ?thesis using that assms(3) by simp
  qed
  then show "\<forall>pos. PTREE_MAXLEN < pos \<and> pos < 2 ^ 63 \<and> PTREE_MAXLEN < n \<longrightarrow>
      read_trace_from_output buf None n pos = (Oops, [], pos)"
    by (auto simp: read_trace_from_output_def Let_def)
qed

theorem ptree_reads_witness:
  "read_all (''init (1)'' @ replicate 504 NUL) 4 (Suc (PTREE_MAXLEN div 4)) 0 = concat (replicate 128 ''init'')"
  using ptree_reads [of "''init (1)'' @ replicate 504 NUL" 4] by (simp add: PTREE_MAXLEN_def)
end
