(* ===== verification/Harness.thy ===== *)
theory Harness
  imports Transpose Decimal
begin

text \<open>
  The test harness of the transposition: \<open>cachelab.c\<close> with the baseline and the table of functions,
  \<open>tracegen.c\<close>, which runs and validates a function, and \<open>test-trans.c\<close>, which cuts its trace out of the one
  valgrind writes and scores it.  Valgrind and the reference simulator are arguments.
\<close>

section \<open>cachelab.c\<close>

text \<open>A transposition function may change both arrays; \<open>None\<close> is an access outside of them.\<close>

type_synonym trans = "nat \<Rightarrow> nat \<Rightarrow> int matrix \<Rightarrow> int matrix \<Rightarrow> (int matrix \<times> int matrix) option"

record trans_func_t =
  func_ptr :: trans
  description :: string
  fn_correct :: bool
  num_hits :: nat
  num_misses :: nat
  num_evictions :: nat

definition MAX_TRANS_FUNCS :: nat where "MAX_TRANS_FUNCS = 100"

definition registerTransFunction :: "trans \<Rightarrow> string \<Rightarrow> trans_func_t list \<Rightarrow> trans_func_t list option" where
  "registerTransFunction f desc func_list =
     (if length func_list < MAX_TRANS_FUNCS then
        Some (func_list @ [\<lparr>func_ptr = f, description = desc, fn_correct = False, num_hits = 0, num_misses = 0, num_evictions = 0\<rparr>])
      else None)"

text \<open>\<open>rnd k\<close> is the \<open>k\<close>-th number \<open>rand\<close> returns; the loops count them.\<close>

definition initMatrix :: "(nat \<Rightarrow> int) \<Rightarrow> nat \<Rightarrow> nat \<Rightarrow> int matrix \<Rightarrow> int matrix \<Rightarrow> (int matrix \<times> int matrix) option" where
  "initMatrix rnd M N A B =
     map_option fst (loop [0..<N] (\<lambda>i. loop [0..<M] (\<lambda>j ((A, B), k). do {
       A \<leftarrow> wr N M i j (rnd k) A;
       B \<leftarrow> wr M N j i (rnd (k + 1)) B;
       Some ((A, B), k + 2) })) ((A, B), 0))"

definition correctTrans :: "nat \<Rightarrow> nat \<Rightarrow> int matrix \<Rightarrow> int matrix \<Rightarrow> int matrix option" where
  "correctTrans M N A B = loop [0..<N] (\<lambda>i. loop [0..<M] (\<lambda>j B. do {
     tmp \<leftarrow> rd N M A i j;
     wr M N j i tmp B })) B"

section \<open>trans.c\<close>

definition transpose_submit_desc :: string where "transpose_submit_desc = ''Transpose submission''"

definition registerFunctions :: "trans_func_t list \<Rightarrow> trans_func_t list option" where
  "registerFunctions = registerTransFunction (\<lambda>M N A B. map_option (Pair A) (transpose_submit M N A B)) transpose_submit_desc"

section \<open>tracegen.c\<close>

definition validate :: "nat \<Rightarrow> nat \<Rightarrow> int matrix \<Rightarrow> int matrix \<Rightarrow> bool option" where
  "validate M N A B = do {
     C \<leftarrow> correctTrans M N A (\<lambda>_. 0);
     Some (list_all (\<lambda>i. list_all (\<lambda>j. B (i, j) = C (i, j)) [0..<N]) [0..<M]) }"

text \<open>The registered functions one after the other on the same arrays: the exit status.\<close>

fun run_all :: "nat \<Rightarrow> nat \<Rightarrow> nat \<Rightarrow> trans_func_t list \<Rightarrow> int matrix \<Rightarrow> int matrix \<Rightarrow> nat option" where
  "run_all M N i [] A B = Some 0"
| "run_all M N i (f # fs) A B = do {
     (A, B) \<leftarrow> func_ptr f M N A B;
     ok \<leftarrow> validate M N A B;
     if ok then run_all M N (Suc i) fs A B else Some (i + 1) }"

text \<open>The static arrays have 256 times 256 elements, all of which \<open>initMatrix\<close> may fill.  Without
  the option \<open>-F\<close> the selected function is -1.\<close>

definition tracegen :: "(nat \<Rightarrow> int) \<Rightarrow> trans_func_t list \<Rightarrow> int \<Rightarrow> nat \<Rightarrow> nat \<Rightarrow> nat option" where
  "tracegen rnd func_list selectedFunc M N =
     (if M * N > 256 * 256 then None
      else do {
        (A, B) \<leftarrow> initMatrix rnd M N (\<lambda>_. 0) (\<lambda>_. 0);
        if selectedFunc = - 1 then run_all M N 0 func_list A B
        else if 0 \<le> selectedFunc \<and> selectedFunc < int (length func_list) then do {
          (A, B) \<leftarrow> func_ptr (func_list ! nat selectedFunc) M N A B;
          ok \<leftarrow> validate M N A B;
          Some (if ok then 0 else nat selectedFunc + 1) }
        else None })"

section \<open>test-trans.c\<close>

text \<open>\<open>%llx\<close>: \<open>None\<close> when there is no number.\<close>

definition hex_digit :: "char \<Rightarrow> nat option" where
  "hex_digit c = (let n = of_char c in
     if 48 \<le> n \<and> n \<le> 57 then Some (n - 48)
     else if 97 \<le> n \<and> n \<le> 102 then Some (n - 87)
     else if 65 \<le> n \<and> n \<le> 70 then Some (n - 55) else None)"

definition scan_hex :: "string \<Rightarrow> u64 option" where
  "scan_hex s =
     (let s = dropWhile isspace s;
          neg = (s \<noteq> [] \<and> hd s = CHR ''-'');
          s = (if s \<noteq> [] \<and> (hd s = CHR ''-'' \<or> hd s = CHR ''+'') then tl s else s);
          s = (if take 2 s = ''0x'' \<or> take 2 s = ''0X'' then drop 2 s else s);
          ds = map the (takeWhile (\<lambda>d. d \<noteq> None) (map hex_digit s));
          n = foldl (\<lambda>n d. 16 * n + d) 0 ds
      in if ds = [] then None
         else if n \<ge> 2 ^ 64 then Some (- 1)
         else Some (if neg then - of_nat n else of_nat n))"

text \<open>A line of the trace of valgrind that is a memory access.\<close>

fun is_access :: "string \<Rightarrow> bool" where
  "is_access (c0 # c1 # c2 # s) \<longleftrightarrow> c0 = CHR '' '' \<and> c2 = CHR '' '' \<and> (c1 = CHR ''S'' \<or> c1 = CHR ''M'' \<or> c1 = CHR ''L'')"
| "is_access _ \<longleftrightarrow> False"

text \<open>The loop that cuts the trace of the function out of the whole trace: the lines it writes, whether it has closed
  the file, and \<open>addr\<close>, which keeps its value when nothing is scanned.  The file is closed at the end marker only; in
  a trace without one the lines may still be in the buffer of the stream when the simulator opens the file.\<close>

fun cut_trace :: "u64 \<Rightarrow> u64 \<Rightarrow> bool \<Rightarrow> u64 \<Rightarrow> string list \<Rightarrow> string list \<times> bool \<times> u64" where
  "cut_trace marker_start marker_end flag addr [] = ([], False, addr)"
| "cut_trace marker_start marker_end flag addr (buf # bufs) =
     (if is_access buf then
        let addr = (case scan_hex (drop 3 buf) of None \<Rightarrow> addr | Some a \<Rightarrow> a);
            flag = (flag \<or> addr = marker_start);
            out = (if flag \<and> addr < 0xffffffff then [buf] else [])
        in if addr = marker_end then (out, True, addr)
           else (let (rest, closed, addr) = cut_trace marker_start marker_end flag addr bufs in (out @ rest, closed, addr))
      else cut_trace marker_start marker_end flag addr bufs)"

record results =
  funcid :: int
  res_correct :: bool
  misses :: int

text \<open>What the other programs do: for function \<open>i\<close> the numbers \<open>tracegen\<close> fills its matrix with, the
  addresses of its markers, the trace valgrind writes, and the counts of the reference simulator on the lines written
  to its file, which may depend on whether that file has been closed.\<close>

record tools =
  rand_of :: "nat \<Rightarrow> nat \<Rightarrow> int"
  marker :: "nat \<Rightarrow> u64 \<times> u64"
  valgrind :: "nat \<Rightarrow> string list"
  csim_ref :: "bool \<Rightarrow> string list \<Rightarrow> nat \<times> nat \<times> nat"

text \<open>The round of \<open>eval_perf\<close> for function \<open>i\<close>.\<close>

definition eval_func :: "tools \<Rightarrow> nat \<Rightarrow> nat \<Rightarrow> nat \<Rightarrow> trans_func_t list \<times> results \<times> u64 \<Rightarrow>
    (trans_func_t list \<times> results \<times> u64) option" where
  "eval_func t M N i st =
     (let (func_list, results, addr) = st;
          results = (if description (func_list ! i) = ''Transpose submission'' then results\<lparr>funcid := int i\<rparr> else results)
      in case tracegen (rand_of t i) func_list (int i) M N of
           None \<Rightarrow> None
         | Some status \<Rightarrow>
             if status mod 256 \<noteq> 0 then Some (func_list, results, addr)
             else
               let results = (if funcid results = int i then results\<lparr>res_correct := True\<rparr> else results);
                   (part, closed, addr) = cut_trace (fst (marker t i)) (snd (marker t i)) False addr (valgrind t i);
                   (h, m, e) = csim_ref t closed part;
                   func_list = func_list[i := (func_list ! i)\<lparr>fn_correct := True, num_hits := h, num_misses := m, num_evictions := e\<rparr>]
               in Some (func_list, if funcid results = int i then results\<lparr>misses := sint (of_nat m :: u32)\<rparr> else results, addr))"

definition eval_perf :: "tools \<Rightarrow> nat \<Rightarrow> nat \<Rightarrow> u64 \<Rightarrow> (trans_func_t list \<times> results \<times> u64) option" where
  "eval_perf t M N junk = do {
     func_list \<leftarrow> registerFunctions [];
     loop [0..<length func_list] (eval_func t M N)
       (func_list, \<lparr>funcid = - 1, res_correct = False, misses = 2 ^ 31 - 1\<rparr>, junk) }"

text \<open>The numbers after \<open>TEST_TRANS_RESULTS\<close>; the program refuses sizes of 0 and above 256 with an error.\<close>

definition test_trans :: "tools \<Rightarrow> nat \<Rightarrow> nat \<Rightarrow> u64 \<Rightarrow> (string + nat \<times> int) option" where
  "test_trans t M N junk =
     (if M = 0 \<or> N = 0 then Some (Inl ''Error: Missing required argument'')
      else if M > 256 \<or> N > 256 then Some (Inl ''Error: M or N exceeds 256'')
      else do {
        (func_list, results, addr) \<leftarrow> eval_perf t M N junk;
        Some (Inr (if funcid results = - 1 then (0, 0) else (of_bool (res_correct results), misses results))) })"

end
