(* ===== verification/HarnessProps.thy ===== *)
theory HarnessProps
  imports Harness TransposeCorrect
begin

text \<open>
  What the harness accepts, which accesses it counts, and how the submission fares in it.
\<close>

section \<open>The baseline and the validation\<close>

lemma correctTrans_ok: "\<exists>C. correctTrans M N A B = Some C \<and> (\<forall>i j. C (i, j) = (if i < M \<and> j < N then A (j, i) else B (i, j)))"
  using copy_block [of 0 N N 0 M M 0 0 A B] by (auto simp: correctTrans_def)

lemma is_transpose_iff: "is_transpose M N A B \<longleftrightarrow> (\<forall>i < N. \<forall>j < M. A (i, j) = B (j, i))"
  by (auto simp: is_transpose_def list_all_iff)

lemma validate_ok: "validate M N A B = Some (is_transpose M N A B)"
proof -
  from correctTrans_ok obtain C where "correctTrans M N A (\<lambda>_. 0) = Some C" "\<forall>i j. i < M \<and> j < N \<longrightarrow> C (i, j) = A (j, i)"
    by (metis (no_types, lifting))
  then show ?thesis by (auto simp: validate_def is_transpose_iff list_all_iff)
qed

lemma loop_total: "(\<And>x s. x \<in> set xs \<Longrightarrow> f x s \<noteq> None) \<Longrightarrow> loop xs f s \<noteq> None"
  by (induction xs arbitrary: s) (auto split: option.split)

lemma initMatrix_ok: "initMatrix rnd M N A B \<noteq> None"
  unfolding initMatrix_def option.map_disc_iff
  by (intro loop_total) (auto simp: wr_ok)

lemma tracegen_one:
  assumes "i < length fs" and "M * N \<le> 256 * 256"
  shows "\<exists>A B. initMatrix rnd M N (\<lambda>_. 0) (\<lambda>_. 0) = Some (A, B) \<and>
    tracegen rnd fs (int i) M N =
      (case func_ptr (fs ! i) M N A B of
         None \<Rightarrow> None
       | Some (A', B') \<Rightarrow> Some (if is_transpose M N A' B' then 0 else i + 1))"
proof -
  obtain A B where AB: "initMatrix rnd M N (\<lambda>_. 0) (\<lambda>_. 0) = Some (A, B)" using initMatrix_ok by fastforce
  then have "tracegen rnd fs (int i) M N =
      (case func_ptr (fs ! i) M N A B of
         None \<Rightarrow> None
       | Some (A', B') \<Rightarrow> Some (if is_transpose M N A' B' then 0 else i + 1))"
    using assms by (auto simp: tracegen_def validate_ok split: option.splits)
  with AB show ?thesis by blast
qed

section \<open>The trace of the function\<close>

definition addr_of :: "string \<Rightarrow> u64" where
  "addr_of l = the (scan_hex (drop 3 l))"

definition through :: "('l \<Rightarrow> bool) \<Rightarrow> 'l list \<Rightarrow> 'l list" where
  "through P ls = takeWhile (\<lambda>l. \<not> P l) ls @ take 1 (dropWhile (\<lambda>l. \<not> P l) ls)"

lemma through_simps [simp]: "through P [] = []" "through P (l # ls) = l # (if P l then [] else through P ls)"
  by (simp_all add: through_def)

definition readable :: "string list \<Rightarrow> bool" where
  "readable tr \<longleftrightarrow> list_all (\<lambda>l. is_access l \<longrightarrow> scan_hex (drop 3 l) \<noteq> None) tr"

lemma cut_trace_closed:
  "readable tr \<Longrightarrow> fst (snd (cut_trace ms me flag a tr)) \<longleftrightarrow> (\<exists>l\<in>set tr. is_access l \<and> addr_of l = me)"
proof (induction tr arbitrary: flag a)
  case (Cons l tr)
  then have tr: "readable tr" by (simp add: readable_def)
  show ?case
  proof (cases "is_access l")
    case True
    then have "scan_hex (drop 3 l) = Some (addr_of l)" using Cons.prems by (auto simp: readable_def addr_of_def)
    with True Cons.IH [OF tr] show ?thesis by (auto simp: Let_def case_prod_beta)
  qed (use Cons.IH [OF tr] in simp)
qed simp

lemma cut_trace_spec:
  "readable tr \<Longrightarrow> fst (cut_trace ms me flag a tr) =
    filter (\<lambda>l. addr_of l < 0xffffffff)
      ((if flag then id else dropWhile (\<lambda>l. addr_of l \<noteq> ms)) (through (\<lambda>l. addr_of l = me) (filter is_access tr)))"
proof (induction tr arbitrary: flag a)
  case (Cons l tr)
  then have tr: "readable tr" by (simp add: readable_def)
  show ?case
  proof (cases "is_access l")
    case True
    then have "scan_hex (drop 3 l) = Some (addr_of l)" using Cons.prems by (auto simp: readable_def addr_of_def)
    with True Cons.IH [OF tr] show ?thesis
      by (auto simp: Let_def case_prod_beta)
  qed (use Cons.IH [OF tr] in simp)
qed simp

section \<open>Properties\<close>

text \<open>C35: \<open>tracegen\<close> accepts a function when what it leaves in the second array is the transpose of what it leaves in
  the first one, which it fills before and compares only afterwards.\<close>

theorem tracegen_judges:
  assumes "i < length fs" and "M * N \<le> 256 * 256"
  shows "\<exists>A B. initMatrix rnd M N (\<lambda>_. 0) (\<lambda>_. 0) = Some (A, B) \<and>
    tracegen rnd fs (int i) M N =
      (case func_ptr (fs ! i) M N A B of
         None \<Rightarrow> None
       | Some (A', B') \<Rightarrow> Some (if is_transpose M N A' B' then 0 else i + 1))"
  by (rule tracegen_one) fact+

text \<open>A function that clears both arrays transposes nothing and is accepted.\<close>

definition clear_both :: trans_func_t where
  "clear_both = \<lparr>func_ptr = (\<lambda>M N A B. Some (\<lambda>_. 0, \<lambda>_. 0)), description = ''clear'', fn_correct = False,
     num_hits = 0, num_misses = 0, num_evictions = 0\<rparr>"

theorem tracegen_judges_witness: "tracegen (\<lambda>k. int k) [clear_both] 0 4 4 = Some 0"
  using tracegen_judges [of 0 "[clear_both]" 4 4 "\<lambda>k. int k"] by (auto simp: clear_both_def is_transpose_iff)

text \<open>C36: on every size the harness admits, except widths of 32 or 64 rows that are not a multiple of 8, the
  submission is found, validated and scored with the misses of the reference simulator on the
  accesses to low addresses from the first marker to the second; the file that holds them is closed when the second
  marker occurs.\<close>

theorem test_trans_scores_submission:
  assumes "0 < M" "M \<le> 256" "0 < N" "N \<le> 256" and "N = 32 \<or> N = 64 \<longrightarrow> 8 dvd M" and "readable (valgrind t 0)"
    and "csim_ref t (\<exists>l\<in>set (valgrind t 0). is_access l \<and> addr_of l = snd (marker t 0))
      (filter (\<lambda>l. addr_of l < 0xffffffff) (dropWhile (\<lambda>l. addr_of l \<noteq> fst (marker t 0))
      (through (\<lambda>l. addr_of l = snd (marker t 0)) (filter is_access (valgrind t 0))))) = (h, m, e)"
  shows "test_trans t M N junk = Some (Inr (1, sint (of_nat m :: u32)))"
proof -
  have "M * N \<le> 256 * 256" using assms(2,4) by (rule mult_le_mono)
  obtain fs where fs: "registerFunctions [] = Some fs" "length fs = 1" "description (fs ! 0) = ''Transpose submission''"
    "func_ptr (fs ! 0) = (\<lambda>M N A B. map_option (Pair A) (transpose_submit M N A B))"
    by (simp add: registerFunctions_def registerTransFunction_def MAX_TRANS_FUNCS_def transpose_submit_desc_def)
  obtain A B where run: "tracegen (rand_of t 0) fs (int 0) M N =
      (case func_ptr (fs ! 0) M N A B of None \<Rightarrow> None | Some (A', B') \<Rightarrow> Some (if is_transpose M N A' B' then 0 else 0 + 1))"
    using tracegen_one [of 0 fs M N "rand_of t 0"] fs(2) \<open>M * N \<le> 256 * 256\<close> by auto
  have "\<exists>B'. transpose_submit M N A B = Some B' \<and> is_transpose M N A B'"
    using transpose_submit_ok [OF assms(5), of A B] by (auto simp: correct_def is_transpose_iff)
  then have g: "tracegen (rand_of t 0) fs 0 M N = Some 0" using run fs(4) by auto
  show ?thesis
    using assms(1-4) g fs(1-3) cut_trace_spec [OF assms(6), of "fst (marker t 0)" "snd (marker t 0)" False junk]
      cut_trace_closed [OF assms(6), of "fst (marker t 0)" "snd (marker t 0)" False junk] assms(7)
    by (auto simp: test_trans_def eval_perf_def eval_func_def Let_def case_prod_beta)
qed

definition tools0 :: tools where
  "tools0 = \<lparr>rand_of = (\<lambda>_ k. int k), marker = (\<lambda>_. (0x404080, 0x404081)),
     valgrind = (\<lambda>_. ['' L 404100,4'', '' S 404080,1'', ''I  400f00,3'', '' L 1ffe000100,8'', '' L 404200,4'', '' S 404081,1'', '' L 404300,4'']),
     csim_ref = (\<lambda>closed ls. if closed then (0, length ls, 0) else (0, 0, 0))\<rparr>"

theorem test_trans_scores_submission_witness: "test_trans tools0 32 32 0 = Some (Inr (1, 3))"
proof -
  have f: "filter is_access (valgrind tools0 0) =
      ['' L 404100,4'', '' S 404080,1'', '' L 1ffe000100,8'', '' L 404200,4'', '' S 404081,1'', '' L 404300,4'']"
    by (simp add: tools0_def)
  have h: "scan_hex ''404100,4'' = Some 0x404100" "scan_hex ''404080,1'' = Some 0x404080" "scan_hex ''1ffe000100,8'' = Some 0x1ffe000100"
    "scan_hex ''404200,4'' = Some 0x404200" "scan_hex ''404081,1'' = Some 0x404081" "scan_hex ''404300,4'' = Some 0x404300"
    by (simp_all add: scan_hex_def hex_digit_def isspace_def Let_def)
  have r: "readable (valgrind tools0 0)" using h by (simp add: readable_def tools0_def)
  have c: "filter (\<lambda>l. addr_of l < 0xffffffff) (dropWhile (\<lambda>l. addr_of l \<noteq> fst (marker tools0 0))
      (through (\<lambda>l. addr_of l = snd (marker tools0 0)) (filter is_access (valgrind tools0 0)))) =
      ['' S 404080,1'', '' L 404200,4'', '' S 404081,1'']"
    unfolding f by (simp add: addr_of_def h tools0_def)
  have e: "(\<exists>l\<in>set (valgrind tools0 0). is_access l \<and> addr_of l = snd (marker tools0 0)) = True"
    using h by (simp add: addr_of_def tools0_def)
  have "csim_ref tools0 (\<exists>l\<in>set (valgrind tools0 0). is_access l \<and> addr_of l = snd (marker tools0 0))
      (filter (\<lambda>l. addr_of l < 0xffffffff) (dropWhile (\<lambda>l. addr_of l \<noteq> fst (marker tools0 0))
      (through (\<lambda>l. addr_of l = snd (marker tools0 0)) (filter is_access (valgrind tools0 0))))) = (0, 3, 0)"
    unfolding c e by (simp add: tools0_def)
  from test_trans_scores_submission [OF _ _ _ _ _ r this, of 32 32 0] show ?thesis by simp
qed

end
