(* ===== verification/MmImplicit.thy ===== *)
theory MmImplicit
  imports MemLib
begin

text \<open>
  The implicit-list allocator \<open>malloclab-handout/mm_implicit.c\<close>: no list of free blocks, the search walks
  over all blocks from the prologue on.  The macros are those of \<open>MemLib\<close>; a \<open>0\<close> at the end of a name
  marks this version.
\<close>

section \<open>The code\<close>

record implicit = arena +
  heap_listp :: nat

definition coalesce0 :: "nat \<Rightarrow> implicit \<Rightarrow> nat \<times> implicit" where
  "coalesce0 bp s =
     (let prev_alloc = GET_ALLOC s (FTRP s (PREV_BLKP s bp));
          next_alloc = GET_ALLOC s (HDRP (NEXT_BLKP s bp));
          sz = GET_SIZE s (HDRP bp)
      in if prev_alloc = 0 \<and> next_alloc = 0 then
           let sz = wrap32 (sz + (GET_SIZE s (HDRP (PREV_BLKP s bp)) + GET_SIZE s (FTRP s (NEXT_BLKP s bp))));
               s = PUT (HDRP (PREV_BLKP s bp)) (PACK sz 0) s;
               s = PUT (FTRP s (NEXT_BLKP s bp)) (PACK sz 0) s
           in (PREV_BLKP s bp, s)
         else if prev_alloc \<noteq> 0 \<and> next_alloc = 0 then
           let sz = wrap32 (sz + GET_SIZE s (FTRP s (NEXT_BLKP s bp)));
               s = PUT (HDRP bp) (PACK sz 0) s;
               s = PUT (FTRP s bp) (PACK sz 0) s
           in (bp, s)
         else if prev_alloc = 0 \<and> next_alloc \<noteq> 0 then
           let sz = wrap32 (sz + GET_SIZE s (HDRP (PREV_BLKP s bp)));
               s = PUT (FTRP s bp) (PACK sz 0) s;
               s = PUT (HDRP (PREV_BLKP s bp)) (PACK sz 0) s
           in (PREV_BLKP s bp, s)
         else (bp, s))"

definition place0 :: "nat \<Rightarrow> nat \<Rightarrow> implicit \<Rightarrow> implicit" where
  "place0 bp bsize s =
     (let initsize = GET_SIZE s (HDRP bp)
      in if sub32 initsize bsize < 2 * DSIZE then
           let s = PUT (HDRP bp) (PACK initsize 1) s
           in PUT (FTRP s bp) (PACK initsize 1) s
         else
           let s = PUT (HDRP bp) (PACK bsize 1) s;
               s = PUT (FTRP s bp) (PACK bsize 1) s;
               bp = NEXT_BLKP s bp;
               s = PUT (HDRP bp) (PACK (sub32 initsize bsize) 0) s
           in PUT (FTRP s bp) (PACK (sub32 initsize bsize) 0) s)"

text \<open>The loop of \<open>find_fit\<close> from \<open>bp\<close> on; \<open>None\<close> if it never ends.\<close>

partial_function (option) find_fit_from0 :: "nat \<Rightarrow> nat \<Rightarrow> implicit \<Rightarrow> nat option" where
  "find_fit_from0 bp bsize s =
     (if \<not> GET_SIZE s (HDRP bp) > 0 then Some NULL
      else if GET_ALLOC s (HDRP bp) = 0 \<and> bsize \<le> GET_SIZE s (HDRP bp) then Some bp
      else find_fit_from0 (NEXT_BLKP s bp) bsize s)"

definition find_fit0 :: "nat \<Rightarrow> implicit \<Rightarrow> nat option" where
  "find_fit0 bsize s = find_fit_from0 (heap_listp s) bsize s"

definition extend_heap0 :: "nat \<Rightarrow> implicit \<Rightarrow> nat \<times> implicit" where
  "extend_heap0 words s =
     (let sz = (if words mod 2 \<noteq> 0 then wrap32 ((words + 1) * WSIZE) else wrap32 (words * WSIZE));
          (bp, s) = mem_sbrk (to_int32 sz) s
      in if bp = MINUS1 then (NULL, s)
         else let s = PUT (HDRP bp) (PACK sz 0) s;
                  s = PUT (FTRP s bp) (PACK sz 0) s;
                  s = PUT (HDRP (NEXT_BLKP s bp)) (PACK 0 1) s
              in coalesce0 bp s)"

definition mm_init0 :: "implicit \<Rightarrow> int \<times> implicit" where
  "mm_init0 s =
     (let (p, s) = mem_sbrk (to_int32 (4 * WSIZE)) s;
          s = s\<lparr>heap_listp := p\<rparr>
      in if p = MINUS1 then (-1, s)
         else
           let s = PUT (heap_listp s) 0 s;
               s = PUT (heap_listp s + 1 * WSIZE) (PACK DSIZE 1) s;
               s = PUT (heap_listp s + 2 * WSIZE) (PACK DSIZE 1) s;
               s = PUT (heap_listp s + 3 * WSIZE) (PACK 0 1) s;
               s = s\<lparr>heap_listp := heap_listp s + 2 * WSIZE\<rparr>;
               (bp, s) = extend_heap0 (CHUNKSIZE div WSIZE) s
           in if bp = NULL then (-1, s) else (0, s))"

definition mm_malloc0 :: "nat \<Rightarrow> implicit \<Rightarrow> (nat \<times> implicit) option" where
  "mm_malloc0 sz s =
     (if sz = 0 then Some (NULL, s)
      else
        let bsize = wrap32 (ALIGN sz + DSIZE)
        in case find_fit0 bsize s of
             None \<Rightarrow> None
           | Some bp \<Rightarrow>
               if bp \<noteq> NULL then Some (bp, place0 bp bsize s)
               else
                 let extendsize = (if bsize > CHUNKSIZE then bsize else CHUNKSIZE);
                     (bp, s) = extend_heap0 (extendsize div WSIZE) s
                 in if bp = NULL then Some (NULL, s)
                    else Some (bp, place0 bp bsize s))"

definition mm_free0 :: "nat \<Rightarrow> implicit \<Rightarrow> implicit" where
  "mm_free0 ptr s =
     (if ptr = NULL then s
      else
        let sz = GET_SIZE s (HDRP ptr);
            s = PUT (HDRP ptr) (PACK sz 0) s;
            s = PUT (FTRP s ptr) (PACK sz 0) s
        in snd (coalesce0 ptr s))"

text \<open>\<open>ptr\<close> is not tested: a null pointer makes the read of its header fault, which is \<open>None\<close> here like a
  call that does not return.\<close>

definition mm_realloc0 :: "nat \<Rightarrow> nat \<Rightarrow> implicit \<Rightarrow> (nat \<times> implicit) option" where
  "mm_realloc0 ptr sz s =
     (case mm_malloc0 sz s of
        None \<Rightarrow> None
      | Some (newptr, s) \<Rightarrow>
          if newptr = NULL then Some (NULL, s)
          else if ptr = NULL then None
          else
            let copysize = GET_SIZE s (HDRP ptr);
                copysize = (if sz < copysize then sz else copysize);
                s = s\<lparr>mem := memmove newptr ptr copysize (mem s)\<rparr>
            in Some (newptr, mm_free0 ptr s))"

end
