(* ===== verification/MmImplicitCorrect.thy ===== *)
theory MmImplicitCorrect
  imports MmImplicit BoundaryTags AllocSpec
begin

text \<open>
  The invariant of \<open>mm_implicit.c\<close>, a tagged heap in which no two free blocks are neighbours, and what the
  internal functions do to it.
\<close>

section \<open>The invariant\<close>

definition iheap :: "nat \<Rightarrow> nat \<Rightarrow> mem \<Rightarrow> implicit \<Rightarrow> block list \<Rightarrow> bool" where
  "iheap lo hi g s bs \<longleftrightarrow> tagged 8 lo hi g s bs \<and> heap_listp s = lo + 8"

definition iinv :: "nat \<Rightarrow> nat \<Rightarrow> mem \<Rightarrow> implicit \<Rightarrow> block list \<Rightarrow> bool" where
  "iinv lo hi g s bs \<longleftrightarrow> iheap lo hi g s bs \<and> noadj bs"

lemma prologue0: "8 + 8 = (16 :: nat)" "4 + 8 = (12 :: nat)"
  by simp_all

lemmas iheap_tagged = iheap_def [THEN iffD1, THEN conjunct1]
lemmas iheap_bounds = tagged_bounds [where k = 8, unfolded prologue0, OF iheap_tagged]
lemmas iheap_blk = tagged_blk [where k = 8, unfolded prologue0, OF iheap_tagged]
lemmas iheap_prev = tagged_prev [where k = 8, unfolded prologue0, OF iheap_tagged]
lemmas iheap_next = tagged_next [where k = 8, unfolded prologue0, OF iheap_tagged]
lemmas iheap_aligned = tagged_aligned [where k = 8, unfolded prologue0, OF iheap_tagged]
lemmas iheap_live = tagged_live [where k = 8, unfolded prologue0, OF iheap_tagged]

lemma iheap_mem: "tagged 8 lo hi g (s\<lparr>mem := m\<rparr>) bs \<Longrightarrow> iheap lo hi g s bs' \<Longrightarrow> iheap lo hi g (s\<lparr>mem := m\<rparr>) bs"
  by (simp add: iheap_def)

lemma iheap_free:
  assumes "iheap lo hi g s (xs @ mid @ ys)" and "q = lo + 16 + len xs" and "len mid = n" "mid \<noteq> []"
  shows "iheap lo hi g (s\<lparr>mem := tags q n 0 (mem s)\<rparr>) (xs @ (n, Free) # ys)"
  by (rule iheap_mem [OF tagged_free [OF iheap_tagged]]) (use assms in auto)

lemma iheap_used:
  assumes "iheap lo hi g s (xs @ (n, st) # ys)" and "q = lo + 16 + len xs"
  shows "iheap lo hi g (s\<lparr>mem := tags q n 1 (mem s)\<rparr>) (xs @ (n, Used (bytes (mem s) q (n - 8))) # ys)"
  by (rule iheap_mem [OF tagged_used [OF iheap_tagged]]) (use assms in auto)

lemma iheap_split:
  assumes "iheap lo hi g s (xs @ (n, st) # ys)" and "q = lo + 16 + len xs"
    and "8 dvd b" "16 \<le> b" "8 dvd r" "16 \<le> r" "n = b + r"
  shows "iheap lo hi g (s\<lparr>mem := tags (q + b) r 0 (tags q b 1 (mem s))\<rparr>)
    (xs @ (b, Used (bytes (mem s) q (b - 8))) # (r, Free) # ys)"
  by (rule iheap_mem [OF tagged_split [OF iheap_tagged]]) (use assms in auto)

section \<open>Coalescing\<close>

text \<open>The tests of \<open>coalesce\<close>.\<close>

lemma coalesce0_bits:
  assumes "iheap lo hi g s (xs @ (sz, st) # ys)" and "q = lo + 16 + len xs"
  shows "GET_ALLOC s (FTRP s (PREV_BLKP s q)) = prev_bit xs" "GET_ALLOC s (HDRP (NEXT_BLKP s q)) = next_bit ys"
  using iheap_prev [OF assms] iheap_next [OF assms] by simp_all

lemma coalesce0_none:
  assumes "iheap lo hi g s (xs @ (sz, Free) # ys)" and "q = lo + 16 + len xs"
    and "xs = [] \<or> snd (last xs) \<noteq> Free" and "ys = [] \<or> snd (hd ys) \<noteq> Free"
  shows "coalesce0 q s = (q, s)"
proof -
  have "prev_bit xs \<noteq> 0" "next_bit ys \<noteq> 0" using assms(3,4) by (auto simp: prev_bit_def next_bit_def)
  then show ?thesis using coalesce0_bits [OF assms(1,2)] by (simp add: coalesce0_def)
qed

lemma coalesce0_next:
  assumes c: "iheap lo hi g s (xs @ (sz, Free) # (n, Free) # ys)" and q: "q = lo + 16 + len xs"
    and prev: "xs = [] \<or> snd (last xs) \<noteq> Free"
  shows "\<exists>s'. coalesce0 q s = (q, s') \<and> iheap lo hi g s' (xs @ (sz + n, Free) # ys)"
proof -
  have "prev_bit xs \<noteq> 0" using prev by (auto simp: prev_bit_def)
  moreover from c have c': "iheap lo hi g s ((xs @ [(sz, Free)]) @ (n, Free) # ys)" by simp
  note b = iheap_bounds [OF c] and b' = iheap_bounds [OF c']
  have "NEXT_BLKP s q = q + sz" "GET_SIZE s (HDRP q) = sz" "GET_SIZE s (FTRP s (q + sz)) = n"
    using iheap_blk [OF c q] iheap_blk(4,5) [OF c', of "q + sz"] q by auto
  moreover have "wrap32 (sz + n) = sz + n" using b b' by simp
  moreover have "PUT (FTRP (PUT (HDRP q) (PACK (sz + n) 0) s) q) (PACK (sz + n) 0)
      (PUT (HDRP q) (PACK (sz + n) 0) s) = s\<lparr>mem := tags q (sz + n) 0 (mem s)\<rparr>"
    by (rule put_tags) (use b b' in auto)
  ultimately have "coalesce0 q s = (q, s\<lparr>mem := tags q (sz + n) 0 (mem s)\<rparr>)"
    using coalesce0_bits [OF c q] by (simp add: coalesce0_def Let_def next_bit_def)
  then show ?thesis using iheap_free [of lo hi g s xs "[(sz, Free), (n, Free)]" ys q "sz + n"] c q by simp
qed

lemma coalesce0_prev:
  assumes c: "iheap lo hi g s (xs @ (k, Free) # (sz, Free) # ys)" and p: "p = lo + 16 + len xs"
    and nxt: "ys = [] \<or> snd (hd ys) \<noteq> Free"
  shows "\<exists>s'. coalesce0 (p + k) s = (p, s') \<and> iheap lo hi g s' (xs @ (k + sz, Free) # ys)"
proof -
  let ?q = "p + k"
  have q: "?q = lo + 16 + len (xs @ [(k, Free)])" by (simp add: p)
  from c have cq: "iheap lo hi g s ((xs @ [(k, Free)]) @ (sz, Free) # ys)" by simp
  have nb: "next_bit ys \<noteq> 0" using nxt by (auto simp: next_bit_def)
  note b = iheap_bounds [OF c] and b' = iheap_bounds [OF cq] and al = iheap_aligned [OF c p]
  have prev: "PREV_BLKP s ?q = p" "GET_SIZE s (?q - 8) = k" using iheap_prev [OF cq q] by (auto simp: before_def)
  have sz: "GET_SIZE s (HDRP ?q) = sz" "GET_SIZE s (HDRP p) = k" "FTRP s ?q = ?q + sz - 8"
    using iheap_blk [OF cq q] iheap_blk [OF c p] by auto
  have d4: "4 dvd ?q + sz - 8" "4 dvd p - 4" "4 dvd ?q - 8"
    using al b b' by (auto elim!: dvdE)
  let ?P = "PACK (k + sz) 0"
  let ?s2 = "PUT (?q + sz - 8) ?P s"
  let ?s3 = "PUT (p - 4) ?P ?s2"
  have "GET_SIZE ?s2 (?q - 8) = k" "GET_SIZE ?s3 (?q - 8) = k"
    using prev(2) d4 al b b' by (simp_all add: GET_SIZE_PUT)
  then have "PREV_BLKP ?s2 ?q = p" "PREV_BLKP ?s3 ?q = p" by (simp_all add: PREV_BLKP_def sizes)
  moreover have "wrap32 (sz + k) = k + sz" using b b' by simp
  ultimately have eq: "coalesce0 ?q s = (p, ?s3)"
    using coalesce0_bits [OF cq q] nb prev sz by (simp add: coalesce0_def Let_def HDRP_def sizes prev_bit_def)
  have apart: "p - 4 + 4 \<le> ?q + sz - 8" using b(1) b'(1) al(2) by linarith
  have "?s3 = s\<lparr>mem := tags p (k + sz) 0 (mem s)\<rparr>"
    unfolding PUT_def tags_def
    using wr32_commute [OF disjI1 [OF apart], of "mem s" ?P ?P] by (simp add: add.assoc)
  then show ?thesis using eq iheap_free [of lo hi g s xs "[(k, Free), (sz, Free)]" ys p "k + sz"] c p by simp
qed

lemma coalesce0_both:
  assumes c: "iheap lo hi g s (xs @ (k, Free) # (sz, Free) # (n, Free) # ys)" and p: "p = lo + 16 + len xs"
  shows "\<exists>s'. coalesce0 (p + k) s = (p, s') \<and> iheap lo hi g s' (xs @ (k + sz + n, Free) # ys)"
proof -
  let ?q = "p + k" and ?r = "p + k + sz"
  have q: "?q = lo + 16 + len (xs @ [(k, Free)])" and r: "?r = lo + 16 + len (xs @ [(k, Free), (sz, Free)])"
    by (simp_all add: p)
  from c have cq: "iheap lo hi g s ((xs @ [(k, Free)]) @ (sz, Free) # (n, Free) # ys)"
    and cr: "iheap lo hi g s ((xs @ [(k, Free), (sz, Free)]) @ (n, Free) # ys)" by simp_all
  note b = iheap_bounds [OF c] and b' = iheap_bounds [OF cq] and b'' = iheap_bounds [OF cr] and al = iheap_aligned [OF c p]
  have prev: "PREV_BLKP s ?q = p" "GET_SIZE s (?q - 8) = k" using iheap_prev [OF cq q] by (auto simp: before_def)
  have sz: "GET_SIZE s (?q - 4) = sz" "GET_SIZE s (p - 4) = k" "GET_SIZE s (?r - 4) = n" "NEXT_BLKP s ?q = ?r"
      "GET_SIZE s (FTRP s ?r) = n"
    using iheap_blk [OF cq q] iheap_blk [OF c p] iheap_blk [OF cr r] by (auto simp: HDRP_def sizes)
  have d4: "4 dvd ?r + n - 8" "4 dvd p - 4" "4 dvd ?q - 8" "4 dvd ?q - 4" "4 dvd ?r - 4"
    using al b b' b'' by (auto elim!: dvdE)
  let ?P = "PACK (k + sz + n) 0"
  let ?s2 = "PUT (p - 4) ?P s"
  let ?s3 = "PUT (?r + n - 8) ?P ?s2"
  have "GET_SIZE ?s2 (?q - 4) = sz" "GET_SIZE ?s2 (?r - 4) = n" "GET_SIZE ?s3 (?q - 8) = k"
    using prev(2) sz d4 al b b' b'' by (simp_all add: GET_SIZE_PUT)
  then have "NEXT_BLKP ?s2 ?q = ?r" "FTRP ?s2 ?r = ?r + n - 8" "PREV_BLKP ?s3 ?q = p" by (simp_all add: macros sizes)
  moreover have "wrap32 (sz + (k + n)) = k + sz + n" using b b' b'' by simp
  ultimately have eq: "coalesce0 ?q s = (p, ?s3)"
    using coalesce0_bits [OF cq q] prev sz by (simp add: coalesce0_def Let_def HDRP_def sizes prev_bit_def next_bit_def)
  have "?s3 = s\<lparr>mem := tags p (k + sz + n) 0 (mem s)\<rparr>"
    by (simp add: PUT_def tags_def add.assoc)
  then show ?thesis using eq iheap_free [of lo hi g s xs "[(k, Free), (sz, Free), (n, Free)]" ys p "k + sz + n"] c p
    by (simp add: add.assoc)
qed

text \<open>Whatever the neighbours are, the block is merged with the free ones: what is left before it is \<open>before_free\<close>.\<close>

definition before_free :: "block list \<Rightarrow> block list" where
  "before_free xs = (if xs \<noteq> [] \<and> snd (last xs) = Free then butlast xs else xs)"

lemma coalesce0_inv:
  assumes c: "iheap lo hi g s (xs @ (sz, Free) # ys)" and q: "q = lo + 16 + len xs" and na: "noadj xs" "noadj ys"
  shows "\<exists>q' s' sz' ys'. coalesce0 q s = (q', s') \<and> iinv lo hi g s' (before_free xs @ (sz', Free) # ys') \<and>
    q' = lo + 16 + len (before_free xs) \<and> sz \<le> sz' \<and>
    live (lo + 16) (before_free xs @ (sz', Free) # ys') = live (lo + 16) (xs @ (sz, Free) # ys)"
proof (cases "xs = [] \<or> snd (last xs) \<noteq> Free")
  case prev: True
  then have b: "before_free xs = xs" by (auto simp: before_free_def)
  show ?thesis
  proof (cases "ys = [] \<or> snd (hd ys) \<noteq> Free")
    case True
    then have "iinv lo hi g s (xs @ (sz, Free) # ys)" using c na prev by (auto simp: iinv_def noadj_append noadj_Cons)
    with coalesce0_none [OF c q prev True] q show ?thesis unfolding b by blast
  next
    case False
    then obtain n zs where ys: "ys = (n, Free) # zs" by (cases ys) (auto intro: prod_eqI)
    from coalesce0_next [OF c [unfolded ys] q prev] obtain s' where
      s': "coalesce0 q s = (q, s')" "iheap lo hi g s' (xs @ (sz + n, Free) # zs)" by blast
    have "iinv lo hi g s' (xs @ (sz + n, Free) # zs)"
      using s'(2) na prev by (auto simp: iinv_def noadj_append noadj_Cons ys)
    moreover have "live (lo + 16) (xs @ (sz + n, Free) # zs) = live (lo + 16) (xs @ (sz, Free) # ys)"
      by (simp add: ys add.assoc)
    ultimately show ?thesis unfolding b using s'(1) q le_add1 by blast
  qed
next
  case False
  then obtain k zs where xs: "xs = zs @ [(k, Free)]" by (cases xs rule: rev_cases) (auto intro: prod_eqI)
  then have b: "before_free xs = zs" by (simp add: before_free_def)
  define p where "p = lo + 16 + len zs"
  have q': "q = p + k" using q by (simp add: xs p_def)
  have c': "iheap lo hi g s (zs @ (k, Free) # (sz, Free) # ys)" using c by (simp add: xs)
  have na': "noadj zs" "zs = [] \<or> snd (last zs) \<noteq> Free" using na(1) by (auto simp: xs noadj_append)
  show ?thesis
  proof (cases "ys = [] \<or> snd (hd ys) \<noteq> Free")
    case True
    from coalesce0_prev [OF c' p_def True] obtain s' where
      s': "coalesce0 q s = (p, s')" "iheap lo hi g s' (zs @ (k + sz, Free) # ys)" by (auto simp: q')
    have "iinv lo hi g s' (zs @ (k + sz, Free) # ys)"
      using s'(2) na(2) na' True by (auto simp: iinv_def noadj_append noadj_Cons)
    moreover have "live (lo + 16) (zs @ (k + sz, Free) # ys) = live (lo + 16) (xs @ (sz, Free) # ys)"
      by (simp add: xs add.assoc)
    ultimately show ?thesis unfolding b using s'(1) p_def le_add2 by blast
  next
    case nf: False
    then obtain n us where ys: "ys = (n, Free) # us" by (cases ys) (auto intro: prod_eqI)
    from coalesce0_both [OF c' [unfolded ys] p_def] obtain s' where
      s': "coalesce0 q s = (p, s')" "iheap lo hi g s' (zs @ (k + sz + n, Free) # us)" by (auto simp: q')
    have "iinv lo hi g s' (zs @ (k + sz + n, Free) # us)"
      using s'(2) na(2) na' by (auto simp: iinv_def noadj_append noadj_Cons ys)
    moreover have "live (lo + 16) (zs @ (k + sz + n, Free) # us) = live (lo + 16) (xs @ (sz, Free) # ys)"
      by (simp add: xs ys add.assoc)
    moreover have "sz \<le> k + sz + n" by simp
    ultimately show ?thesis unfolding b using s'(1) p_def by blast
  qed
qed

section \<open>Freeing and placing\<close>

lemma iinv_chain:
  assumes "iheap lo hi g s bs"
  shows "chain (mem s) (lo + 16) bs" "mem_brk s = lo + 16 + len bs" "0 < lo" "mem_max_addr s = hi" "hi < 2 ^ 32 - 1"
  using assms by (auto simp: iheap_def tagged_def MINUS1_def)

lemma iinv_iheap: "iinv lo hi g s bs \<Longrightarrow> iheap lo hi g s bs"
  by (simp add: iinv_def)

lemma free0_inv:
  assumes i: "iinv lo hi g s (xs @ (sz, Used c) # ys)" and q: "q = lo + 16 + len xs"
  shows "\<exists>bs'. iinv lo hi g (mm_free0 q s) bs' \<and>
    live (lo + 16) bs' = (live (lo + 16) (xs @ (sz, Used c) # ys))(q := None)"
proof -
  note h = iinv_iheap [OF i] and b = iheap_bounds [OF iinv_iheap [OF i]] and ch = iinv_chain [OF iinv_iheap [OF i]]
  from i have na: "noadj xs" "noadj ys" by (auto simp: iinv_def noadj_append noadj_Cons)
  let ?s = "s\<lparr>mem := tags q sz 0 (mem s)\<rparr>"
  have c1: "iheap lo hi g ?s (xs @ (sz, Free) # ys)"
    using iheap_free [of lo hi g s xs "[(sz, Used c)]" ys q sz] h q by simp
  from coalesce0_inv [OF c1 q na] obtain q' s' bs' where
    r: "coalesce0 q ?s = (q', s')" "iinv lo hi g s' bs'" "live (lo + 16) bs' = live (lo + 16) (xs @ (sz, Free) # ys)"
    by blast
  have "GET_SIZE s (HDRP q) = sz" using iheap_blk(1) [OF h q] .
  then have "mm_free0 q s = s'"
    using put_tags [of sz 0 q s] b q r(1) by (simp add: mm_free0_def Let_def)
  moreover have "live (lo + 16) (xs @ (sz, Free) # ys) = (live (lo + 16) (xs @ (sz, Used c) # ys))(q := None)"
    using live_used [OF ch(1)] live_free_None [OF iinv_chain(1) [OF c1]] q by (auto simp: fun_eq_iff)
  ultimately show ?thesis using r(2,3) by auto
qed

lemma place0_inv:
  assumes i: "iinv lo hi g s (xs @ (sz, Free) # ys)" and q: "q = lo + 16 + len xs"
    and b: "8 dvd b" "16 \<le> b" "b \<le> sz"
  shows "\<exists>bs' c. iinv lo hi g (place0 q b s) bs' \<and> b \<le> length c + 8 \<and>
    live (lo + 16) bs' = (live (lo + 16) (xs @ (sz, Free) # ys))(q \<mapsto> c)"
proof -
  note h = iinv_iheap [OF i] and bd = iheap_bounds [OF iinv_iheap [OF i]]
  note al = iheap_aligned [OF h q]
  from i have na: "noadj xs" "noadj ys" "ys = [] \<or> snd (hd ys) \<noteq> Free" by (auto simp: iinv_def noadj_append noadj_Cons)
  have g: "GET_SIZE s (HDRP q) = sz" using iheap_blk(1) [OF h q] .
  have sub: "sub32 sz b = sz - b" "sz < 2 ^ 32" using bd b(3) by auto
  show ?thesis
  proof (cases "sz - b < 16")
    case True
    have p: "place0 q b s = s\<lparr>mem := tags q sz 1 (mem s)\<rparr>"
      using put_tags [of sz 1 q s] bd True sub by (simp add: place0_def Let_def g sizes)
    have h': "iheap lo hi g (s\<lparr>mem := tags q sz 1 (mem s)\<rparr>) (xs @ (sz, Used (bytes (mem s) q (sz - 8))) # ys)"
      by (rule iheap_used [OF h q])
    then have "iinv lo hi g (s\<lparr>mem := tags q sz 1 (mem s)\<rparr>) (xs @ (sz, Used (bytes (mem s) q (sz - 8))) # ys)"
      using na by (auto simp: iinv_def noadj_append noadj_Cons)
    moreover have "live (lo + 16) (xs @ (sz, Used (bytes (mem s) q (sz - 8))) # ys) =
        (live (lo + 16) (xs @ (sz, Free) # ys))(q \<mapsto> bytes (mem s) q (sz - 8))"
      using live_used [OF iinv_chain(1) [OF h']] q by simp
    moreover have "b \<le> length (bytes (mem s) q (sz - 8)) + 8" using b by simp
    ultimately show ?thesis unfolding p by blast
  next
    case False
    define r where "r = sz - b"
    have r: "8 dvd r" "16 \<le> r" "sz = b + r" using False b bd by (auto simp: r_def dvd_diff_nat)
    let ?s1 = "s\<lparr>mem := tags q b 1 (mem s)\<rparr>"
    have 1: "PUT (FTRP (PUT (HDRP q) (PACK b 1) s) q) (PACK b 1) (PUT (HDRP q) (PACK b 1) s) = ?s1"
      by (rule put_tags) (use b sub in auto)
    have 2: "NEXT_BLKP ?s1 q = q + b" by (rule next_tags) (use al b sub in auto)
    have 3: "PUT (FTRP (PUT (HDRP (q + b)) (PACK r 0) ?s1) (q + b)) (PACK r 0) (PUT (HDRP (q + b)) (PACK r 0) ?s1) =
        ?s1\<lparr>mem := tags (q + b) r 0 (mem ?s1)\<rparr>"
      by (rule put_tags) (use r sub in auto)
    have not: "\<not> sub32 sz b < 2 * DSIZE" using False sub by (simp add: sizes)
    have p: "place0 q b s = s\<lparr>mem := tags (q + b) r 0 (tags q b 1 (mem s))\<rparr>"
      unfolding place0_def g Let_def if_not_P [OF not] 1 2 unfolding sub r_def [symmetric] 3 by simp
    let ?c = "bytes (mem s) q (b - 8)"
    have h': "iheap lo hi g (place0 q b s) (xs @ (b, Used ?c) # (r, Free) # ys)"
      unfolding p by (rule iheap_split [OF h q b(1,2) r])
    then have "iinv lo hi g (place0 q b s) (xs @ (b, Used ?c) # (r, Free) # ys)"
      using na by (auto simp: iinv_def noadj_append noadj_Cons)
    moreover have "live (lo + 16) (xs @ (b, Used ?c) # (r, Free) # ys) = (live (lo + 16) (xs @ (sz, Free) # ys))(q \<mapsto> ?c)"
      using live_used [OF iinv_chain(1) [OF h']] q by (simp add: r(3) add.assoc)
    moreover have "b \<le> length ?c + 8" using b by simp
    ultimately show ?thesis unfolding p by blast
  qed
qed

section \<open>First fit\<close>

text \<open>The first free block of at least \<open>b\<close> bytes.\<close>

fun first_fit :: "nat \<Rightarrow> nat \<Rightarrow> block list \<Rightarrow> nat" where
  "first_fit b p [] = NULL"
| "first_fit b p (x # xs) = (if snd x = Free \<and> b \<le> fst x then p else first_fit b (p + fst x) xs)"

lemma first_fit_NULL: "0 < p \<Longrightarrow> first_fit b p bs = NULL \<Longrightarrow> x \<in> set bs \<Longrightarrow> snd x = Free \<Longrightarrow> fst x < b"
proof (induction bs arbitrary: p)
  case (Cons y bs)
  have n: "\<not> (snd y = Free \<and> b \<le> fst y)"
  proof
    assume "snd y = Free \<and> b \<le> fst y"
    then have "first_fit b p (y # bs) = p" by simp
    with Cons.prems(1,2) show False by simp
  qed
  then have "first_fit b (p + fst y) bs = NULL" using Cons.prems(2) by (simp only: first_fit.simps if_False)
  with Cons.IH [of "p + fst y"] Cons.prems(1,3,4) n show ?case by (cases "x = y") auto
qed simp

lemma first_fit_found:
  "first_fit b p bs \<noteq> NULL \<Longrightarrow> \<exists>xs sz ys. bs = xs @ (sz, Free) # ys \<and> first_fit b p bs = p + len xs \<and> b \<le> sz"
proof (induction bs arbitrary: p)
  case (Cons x bs)
  show ?case
  proof (cases "snd x = Free \<and> b \<le> fst x")
    case True
    then have "x # bs = [] @ (fst x, Free) # bs \<and> first_fit b p (x # bs) = p + len [] \<and> b \<le> fst x"
      by (auto intro: prod_eqI)
    then show ?thesis by blast
  next
    case False
    then have e: "first_fit b p (x # bs) = first_fit b (p + fst x) bs" by (simp only: first_fit.simps if_False)
    have "first_fit b (p + fst x) bs \<noteq> NULL" using Cons.prems unfolding e .
    from Cons.IH [OF this] obtain xs sz ys
      where "bs = xs @ (sz, Free) # ys" "first_fit b (p + fst x) bs = p + fst x + len xs" "b \<le> sz" by blast
    then have "x # bs = (x # xs) @ (sz, Free) # ys \<and> first_fit b p (x # bs) = p + len (x # xs) \<and> b \<le> sz" using e by simp
    then show ?thesis by blast
  qed
qed simp

lemma find_fit_from0_blocks:
  "iheap lo hi g s (xs @ ys) \<Longrightarrow> find_fit_from0 (lo + 16 + len xs) b s = Some (first_fit b (lo + 16 + len xs) ys)"
proof (induction ys arbitrary: xs)
  case Nil
  then have "rd32 (mem s) (lo + 12 + len xs) = PACK 0 1" by (simp add: iheap_def tagged_def)
  then have "GET_SIZE s (lo + 12 + len xs) = 0" by (rule GET_PACK) simp_all
  moreover have "HDRP (lo + 16 + len xs) = lo + 12 + len xs" by (simp add: HDRP_def sizes)
  ultimately have "GET_SIZE s (HDRP (lo + 16 + len xs)) = 0" by (simp only:)
  then show ?case by (subst find_fit_from0.simps) simp
next
  case (Cons x ys)
  obtain sz st where x: "x = (sz, st)" by force
  let ?p = "lo + 16 + len xs"
  from Cons.prems have h: "iheap lo hi g s (xs @ (sz, st) # ys)" by (simp add: x)
  have "find_fit_from0 (?p + sz) b s = Some (first_fit b (?p + sz) ys)"
    using Cons.IH [of "xs @ [x]"] Cons.prems by (simp add: x add.assoc)
  moreover have "0 < sz" using iheap_bounds(1) [OF h] by simp
  ultimately show ?case
    using iheap_blk [OF h refl] by (subst find_fit_from0.simps) (auto simp: x)
qed

lemma find_fit0_blocks:
  assumes h: "iheap lo hi g s bs"
  shows "find_fit0 b s = Some (first_fit b (lo + 16) bs)"
proof -
  have p: "heap_listp s = lo + 8" and w: "rd32 (mem s) (lo + 4) = PACK 8 1" using h by (simp_all add: iheap_def tagged_def)
  have a: "HDRP (lo + 8) = lo + 4" by (simp add: HDRP_def sizes)
  have g: "GET_SIZE s (lo + 4) = 8" "GET_ALLOC s (lo + 4) = 1" by (rule GET_PACK [OF w]; simp)+
  have n: "NEXT_BLKP s (lo + 8) = lo + 16" using g(1) a by (simp add: NEXT_BLKP_def HDRP_def)
  have "find_fit_from0 (lo + 16) b s = Some (first_fit b (lo + 16) bs)"
    using find_fit_from0_blocks [of lo hi g s "[]" bs b] h by simp
  then show ?thesis unfolding find_fit0_def p by (subst find_fit_from0.simps) (simp add: a g n)
qed

end
