(* ===== verification/MmImplicitContract.thy ===== *)
theory MmImplicitContract
  imports MmImplicitCorrect NaiveRealloc MdriverCorrect Client
begin

text \<open>
  \<open>mm_implicit.c\<close> provides the interface \<open>AllocSpec.allocator\<close>: growth and allocation, initialisation, and
  \<open>mm_realloc\<close> by the laws of \<open>NaiveRealloc\<close>.
\<close>

section \<open>The break never moves down\<close>

lemma brk_coalesce0 [simp]: "mem_brk (snd (coalesce0 q s)) = mem_brk s"
  by (simp add: coalesce0_def Let_def PUT_def)

lemma brk_place0 [simp]: "mem_brk (place0 q b s) = mem_brk s"
  by (simp add: place0_def Let_def PUT_def)

lemma brk_free0 [simp]: "mem_brk (mm_free0 q s) = mem_brk s"
  by (simp add: mm_free0_def Let_def PUT_def)

lemma brk_extend_heap0: "mem_brk s \<le> mem_brk (snd (extend_heap0 w s))"
  by (auto simp: extend_heap0_def Let_def case_prod_beta mem_sbrk_def PUT_def)

lemma brk_malloc0: "mm_malloc0 n s = Some (p, s') \<Longrightarrow> mem_brk s \<le> mem_brk s'"
  using brk_extend_heap0 [of s]
  by (auto simp: mm_malloc0_def Let_def case_prod_beta split: if_splits option.splits)

section \<open>Growing and allocating\<close>

lemma extend_heap0_inv:
  assumes i: "iinv lo hi g s bs" and w: "even w" "16 \<le> 4 * w" "4 * w < 2 ^ 32"
  shows "(4 * w < 2 ^ 31 \<and> mem_brk s + 4 * w \<le> hi) \<or> extend_heap0 w s = (NULL, s)"
    and "4 * w < 2 ^ 31 \<Longrightarrow> mem_brk s + 4 * w \<le> hi \<Longrightarrow>
      \<exists>q s' sz ys. extend_heap0 w s = (q, s') \<and> q = lo + 16 + len (before_free bs) \<and> mem_brk s' = mem_brk s + 4 * w \<and>
        iinv lo hi g s' (before_free bs @ (sz, Free) # ys) \<and> 4 * w \<le> sz \<and>
        live (lo + 16) (before_free bs @ (sz, Free) # ys) = live (lo + 16) bs"
proof -
  note h = iinv_iheap [OF i] and ch = iinv_chain [OF iinv_iheap [OF i]]
  from i have na: "noadj bs" by (simp add: iinv_def)
  show "(4 * w < 2 ^ 31 \<and> mem_brk s + 4 * w \<le> hi) \<or> extend_heap0 w s = (NULL, s)"
  proof (cases "4 * w < 2 ^ 31 \<and> mem_brk s + 4 * w \<le> hi")
    case False
    then have "2 ^ 31 \<le> 4 * w \<or> mem_max_addr s < mem_brk s + 4 * w" using ch(4) by auto
    from mem_sbrk_fails [OF w(3) this] w(1,3) show ?thesis
      by (simp add: extend_heap0_def Let_def sizes mult.commute even_iff_mod_2_eq_zero)
  qed simp
  assume n: "4 * w < 2 ^ 31" "mem_brk s + 4 * w \<le> hi"
  have "8 dvd 4 * w" using w(1) by auto
  note gr = tagged_grow(1) [OF iheap_tagged [OF h] this w(2) n(2)]
  have "heap_listp (grow (4 * w) s) = heap_listp s" by (simp add: grow_def Let_def PUT_def)
  then have c: "iheap lo hi g (grow (4 * w) s) (bs @ (4 * w, Free) # [])" using gr h by (simp add: iheap_def)
  from coalesce0_inv [OF c ch(2) na] obtain q' s' sz ys where
    r: "coalesce0 (mem_brk s) (grow (4 * w) s) = (q', s')" "iinv lo hi g s' (before_free bs @ (sz, Free) # ys)"
      "q' = lo + 16 + len (before_free bs)" "4 * w \<le> sz"
      "live (lo + 16) (before_free bs @ (sz, Free) # ys) = live (lo + 16) (bs @ [(4 * w, Free)])" by auto
  have brk: "mem_brk s' = mem_brk s + 4 * w"
    using arg_cong [OF r(1), of "\<lambda>x. mem_brk (snd x)"] by (simp add: grow_def Let_def PUT_def)
  have "mem_sbrk (to_int32 (4 * w)) s = (mem_brk s, s\<lparr>mem_brk := mem_brk s + 4 * w\<rparr>)"
    by (rule mem_sbrk_ok) (use n ch in auto)
  moreover have "mem_brk s \<noteq> MINUS1" using n ch(5) w(2) by (simp add: MINUS1_def)
  ultimately have "extend_heap0 w s = (q', s')"
    using r(1) n(1) w(1) by (simp add: extend_heap0_def Let_def sizes mult.commute even_iff_mod_2_eq_zero grow_def)
  moreover have "live (lo + 16) (before_free bs @ (sz, Free) # ys) = live (lo + 16) bs" using r(5) by simp
  ultimately show "\<exists>q s' sz ys. extend_heap0 w s = (q, s') \<and> q = lo + 16 + len (before_free bs) \<and> mem_brk s' = mem_brk s + 4 * w \<and>
        iinv lo hi g s' (before_free bs @ (sz, Free) # ys) \<and> 4 * w \<le> sz \<and>
        live (lo + 16) (before_free bs @ (sz, Free) # ys) = live (lo + 16) bs"
    using r(2,3,4) brk by blast
qed

lemma malloc0_place:
  assumes i: "iinv lo hi g s bs" and b: "8 dvd b" "16 \<le> b" "b \<le> sz"
    and bs: "bs = xs @ (sz, Free) # ys" and q: "q = lo + 16 + len xs"
  shows "q \<noteq> NULL \<and> live (lo + 16) bs q = None \<and>
     (\<exists>bs' c. b \<le> length c + 8 \<and> iinv lo hi g (place0 q b s) bs' \<and> live (lo + 16) bs' = (live (lo + 16) bs)(q \<mapsto> c))"
  using place0_inv [OF i [unfolded bs] q b] live_free_None [OF iinv_chain(1) [OF iinv_iheap [OF i [unfolded bs]]]]
  unfolding bs q by auto

text \<open>A request: the first fit, or else growth by a chunk or by the block.\<close>

lemma malloc0_found:
  assumes i: "iinv lo hi g s bs" and n: "0 < n" and q: "first_fit (bsize_of n) (lo + 16) bs \<noteq> NULL"
  shows "mm_malloc0 n s = Some (first_fit (bsize_of n) (lo + 16) bs, place0 (first_fit (bsize_of n) (lo + 16) bs) (bsize_of n) s)"
  using n q find_fit0_blocks [OF iinv_iheap [OF i], of "bsize_of n"]
  by (simp add: mm_malloc0_def bsize_of_def [symmetric] Let_def)

lemma malloc0_grows:
  assumes i: "iinv lo hi g s bs" and n: "0 < n" "n \<le> 2 ^ 32 - 16" and q: "first_fit (bsize_of n) (lo + 16) bs = NULL"
  obtains w where "4 * w = max (bsize_of n) CHUNKSIZE" "even w" "16 \<le> 4 * w" "4 * w < 2 ^ 32"
    "mm_malloc0 n s = (let (bp, s) = extend_heap0 w s in if bp = NULL then Some (NULL, s) else Some (bp, place0 bp (bsize_of n) s))"
proof
  note b = bsize_of [OF n] and f = find_fit0_blocks [OF iinv_iheap [OF i], of "bsize_of n"]
  let ?w = "max (bsize_of n) CHUNKSIZE div WSIZE"
  show w: "4 * ?w = max (bsize_of n) CHUNKSIZE" "even ?w" using b(1) by (auto simp: sizes max_def elim!: dvdE)
  show "16 \<le> 4 * ?w" "4 * ?w < 2 ^ 32" using b(2,5) unfolding w(1) by (auto simp: CHUNKSIZE_def)
  show "mm_malloc0 n s = (let (bp, s) = extend_heap0 ?w s in if bp = NULL then Some (NULL, s) else Some (bp, place0 bp (bsize_of n) s))"
    using n q f unfolding mm_malloc0_def bsize_of_def max_def Let_def by simp
qed

lemma malloc0_refuses:
  assumes "iinv lo hi g s bs" and "0 < n" "n \<le> 2 ^ 32 - 16" and "first_fit (bsize_of n) (lo + 16) bs = NULL"
    and no: "\<not> (max (bsize_of n) CHUNKSIZE < 2 ^ 31 \<and> mem_brk s + max (bsize_of n) CHUNKSIZE \<le> hi)"
  shows "mm_malloc0 n s = Some (NULL, s)"
proof -
  from malloc0_grows [OF assms(1-4)] obtain w where w: "4 * w = max (bsize_of n) CHUNKSIZE" "even w" "16 \<le> 4 * w" "4 * w < 2 ^ 32"
    "mm_malloc0 n s = (let (bp, s) = extend_heap0 w s in if bp = NULL then Some (NULL, s) else Some (bp, place0 bp (bsize_of n) s))" .
  from extend_heap0_inv(1) [OF assms(1) w(2-4)] no show ?thesis unfolding w(1,5) by auto
qed

lemma malloc0_extends:
  assumes i: "iinv lo hi g s bs" and n: "0 < n" "n \<le> 2 ^ 32 - 16" and f: "first_fit (bsize_of n) (lo + 16) bs = NULL"
    and room: "max (bsize_of n) CHUNKSIZE < 2 ^ 31" "mem_brk s + max (bsize_of n) CHUNKSIZE \<le> hi"
  shows "\<exists>p c s' bs'. mm_malloc0 n s = Some (p, s') \<and> p = lo + 16 + len (before_free bs) \<and>
    mem_brk s' = mem_brk s + max (bsize_of n) CHUNKSIZE \<and> live (lo + 16) bs p = None \<and>
    bsize_of n \<le> length c + 8 \<and> iinv lo hi g s' bs' \<and> live (lo + 16) bs' = (live (lo + 16) bs)(p \<mapsto> c)"
proof -
  from malloc0_grows [OF i n f] obtain w where w: "4 * w = max (bsize_of n) CHUNKSIZE" "even w" "16 \<le> 4 * w" "4 * w < 2 ^ 32"
    "mm_malloc0 n s = (let (bp, s) = extend_heap0 w s in if bp = NULL then Some (NULL, s) else Some (bp, place0 bp (bsize_of n) s))" .
  have "4 * w < 2 ^ 31" "mem_brk s + 4 * w \<le> hi" using room w(1) by simp_all
  from extend_heap0_inv(2) [OF i w(2-4) this] obtain q s' sz ys
    where e: "extend_heap0 w s = (q, s')" "q = lo + 16 + len (before_free bs)" "mem_brk s' = mem_brk s + 4 * w"
      "iinv lo hi g s' (before_free bs @ (sz, Free) # ys)"
      "4 * w \<le> sz" "live (lo + 16) (before_free bs @ (sz, Free) # ys) = live (lo + 16) bs" by blast
  have "bsize_of n \<le> sz" using e(5) w(1) by simp
  note p = malloc0_place [OF e(4) bsize_of(1,2) [OF n] this refl e(2), unfolded e(6)]
  then have "mm_malloc0 n s = Some (q, place0 q (bsize_of n) s')" using e(1) by (simp add: w(5))
  moreover have "mem_brk (place0 q (bsize_of n) s') = mem_brk s + max (bsize_of n) CHUNKSIZE" using e(3) w(1) by simp
  ultimately show ?thesis using p e(2) by blast
qed

lemma malloc0_serves:
  assumes i: "iinv lo hi g s bs" and n: "0 < n" "n \<le> 2 ^ 32 - 16"
    and room: "first_fit (bsize_of n) (lo + 16) bs \<noteq> NULL \<or>
      max (bsize_of n) CHUNKSIZE < 2 ^ 31 \<and> mem_brk s + max (bsize_of n) CHUNKSIZE \<le> hi"
  shows "\<exists>p c s' bs'. mm_malloc0 n s = Some (p, s') \<and> p \<noteq> NULL \<and> live (lo + 16) bs p = None \<and>
    bsize_of n \<le> length c + 8 \<and> iinv lo hi g s' bs' \<and> live (lo + 16) bs' = (live (lo + 16) bs)(p \<mapsto> c)"
proof (cases "first_fit (bsize_of n) (lo + 16) bs = NULL")
  case False
  from first_fit_found [OF this] obtain xs sz ys where x: "bs = xs @ (sz, Free) # ys"
    "first_fit (bsize_of n) (lo + 16) bs = lo + 16 + len xs" "bsize_of n \<le> sz" by blast
  from malloc0_place [OF i bsize_of(1,2) [OF n] x(3,1,2)] malloc0_found [OF i n(1) False] show ?thesis by blast
next
  case True
  with malloc0_extends [OF i n True] room show ?thesis by fastforce
qed

section \<open>mm\_init\<close>

lemma init0_inv:
  assumes f: "fresh lo hi s" and lo: "8 dvd lo" "0 < lo" and hi: "lo + 16 + CHUNKSIZE \<le> hi" "hi < MINUS1"
  shows "\<exists>s' bs. mm_init0 s = (0, s') \<and> iinv lo hi (mem s) s' bs \<and> live (lo + 16) bs = Map.empty"
proof -
  have sb: "mem_sbrk (to_int32 (4 * WSIZE)) s = (lo, s\<lparr>mem_brk := lo + 16\<rparr>)"
    using mem_sbrk_ok [of 16 s] f hi by (simp add: fresh_def sizes)
  let ?m = "wr32 (wr32 (wr32 (wr32 (mem s) lo 0) (lo + 4) (PACK 8 1)) (lo + 8) (PACK 8 1)) (lo + 12) (PACK 0 1)"
  let ?s = "s\<lparr>mem_brk := lo + 16, mem := ?m, heap_listp := lo + 8\<rparr>"
  have "rd32 ?m (lo + 4) = PACK 8 1" "rd32 ?m (lo + 8) = PACK 8 1" "rd32 ?m (lo + 12) = PACK 0 1"
    by (simp_all add: rd32_wr32_far rd32_wr32_same)
  moreover have "\<And>x. x < lo \<or> hi \<le> x \<Longrightarrow> ?m x = mem s x" using hi by (auto simp: wr32_outside)
  ultimately have i: "iinv lo hi (mem s) ?s []"
    using f lo hi by (simp add: iinv_def iheap_def tagged_def fresh_def add.commute)
  have m: "mm_init0 s = (let (bp, s) = extend_heap0 (CHUNKSIZE div WSIZE) ?s in if bp = NULL then (-1, s) else (0, s))"
    using sb hi by (simp add: mm_init0_def Let_def PUT_def sizes)
  have w: "even (1024 :: nat)" "16 \<le> 4 * (1024 :: nat)" "4 * (1024 :: nat) < 2 ^ 32" "4 * 1024 < (2 :: nat) ^ 31"
    "mem_brk ?s + 4 * 1024 \<le> hi" using hi by (simp_all add: CHUNKSIZE_def)
  from extend_heap0_inv(2) [OF i w] obtain q s' bs where
    "extend_heap0 1024 ?s = (q, s')" "q \<noteq> NULL" "iinv lo hi (mem s) s' bs" "live (lo + 16) bs = Map.empty" by auto
  then show ?thesis by (auto simp: m sizes)
qed

section \<open>The contract\<close>

definition irel :: "nat \<Rightarrow> nat \<Rightarrow> implicit \<Rightarrow> (nat \<rightharpoonup> byte list) \<Rightarrow> bool" where
  "irel lo hi s L \<longleftrightarrow> (\<exists>g bs. iinv lo hi g s bs \<and> L = live (lo + 16) bs)"

lemma irelI: "iinv lo hi g s bs \<Longrightarrow> live (lo + 16) bs = L \<Longrightarrow> irel lo hi s L"
  by (auto simp: irel_def)

lemma irel_used:
  assumes "irel lo hi s L" and "L p = Some c"
  obtains g xs sz ys where "iinv lo hi g s (xs @ (sz, Used c) # ys)" "p = lo + 16 + len xs"
    "L = live (lo + 16) (xs @ (sz, Used c) # ys)"
proof -
  from assms obtain g bs where i: "iinv lo hi g s bs" and L: "L = live (lo + 16) bs" and "live (lo + 16) bs p = Some c"
    by (auto simp: irel_def)
  from live_split [OF this(3)] obtain xs sz ys where "bs = xs @ (sz, Used c) # ys" "p = lo + 16 + len xs" by blast
  with i L that show thesis by blast
qed

text \<open>No memory for \<open>n\<close> bytes, as in \<open>MmContract\<close>.\<close>

definition ifull :: "nat \<Rightarrow> nat \<Rightarrow> implicit \<Rightarrow> nat \<Rightarrow> bool" where
  "ifull lo hi s n \<longleftrightarrow> (\<exists>g bs. iinv lo hi g s bs \<and> no_fit hi s bs n)"

lemma malloc0_full:
  assumes i: "iinv lo hi g s bs" and f: "first_fit (bsize_of n) (lo + 16) bs = NULL"
    and no: "\<not> (max (bsize_of n) CHUNKSIZE < 2 ^ 31 \<and> mem_brk s + max (bsize_of n) CHUNKSIZE \<le> hi)"
  shows "ifull lo hi s n"
proof -
  have "sz < bsize_of n" if "(sz, Free) \<in> set bs" for sz using first_fit_NULL [OF _ f that] by simp
  moreover have "hi < mem_brk s + max (bsize_of n) CHUNKSIZE \<or> 2 ^ 31 \<le> bsize_of n"
    using no by (auto simp: max_def CHUNKSIZE_def split: if_splits)
  ultimately show ?thesis using i by (auto simp: ifull_def no_fit_def)
qed

lemma irel_malloc:
  assumes r: "irel lo hi s L" and n: "0 < n" "n \<le> 2 ^ 32 - 16"
  shows "\<exists>p s'. mm_malloc0 n s = Some (p, s') \<and> mem_brk s \<le> mem_brk s' \<and> (p = NULL \<longrightarrow> irel lo hi s' L \<and> ifull lo hi s' n) \<and>
        (p \<noteq> NULL \<longrightarrow> p \<notin> dom L \<and> (\<exists>c. n \<le> length c \<and> irel lo hi s' (L(p \<mapsto> c))))"
proof -
  from r obtain g bs where i: "iinv lo hi g s bs" and L: "L = live (lo + 16) bs" by (auto simp: irel_def)
  consider "mm_malloc0 n s = Some (NULL, s)" "ifull lo hi s n"
    | p c s' bs' where "mm_malloc0 n s = Some (p, s')" "p \<noteq> NULL" "live (lo + 16) bs p = None"
        "bsize_of n \<le> length c + 8" "iinv lo hi g s' bs'" "live (lo + 16) bs' = (live (lo + 16) bs)(p \<mapsto> c)"
    using malloc0_serves [OF i n] malloc0_refuses [OF i n] malloc0_full [OF i] by blast
  then show ?thesis
  proof cases
    case m: 2
    have "n \<le> length c" using bsize_of(3) [OF n] m(4) by simp
    with brk_malloc0 [OF m(1)] m show ?thesis by (auto simp: L dom_def intro: irelI)
  qed (use r in simp)
qed

lemma irel_free:
  assumes "irel lo hi s L" and "p \<in> dom L"
  shows "irel lo hi (mm_free0 p s) (L(p := None))"
proof -
  from assms(2) obtain c where "L p = Some c" by blast
  from irel_used [OF assms(1) this] obtain g xs sz ys where i: "iinv lo hi g s (xs @ (sz, Used c) # ys)"
    and q: "p = lo + 16 + len xs" and L: "L = live (lo + 16) (xs @ (sz, Used c) # ys)" by blast
  from free0_inv [OF i q] show ?thesis unfolding L by (blast intro: irelI)
qed

lemma irel_write:
  assumes r: "irel lo hi s L" and p: "L p = Some c" and m: "\<And>x. x < p \<or> p + length c \<le> x \<Longrightarrow> m' x = mem s x"
  shows "irel lo hi (s\<lparr>mem := m'\<rparr>) (L(p \<mapsto> bytes m' p (length c)))"
proof -
  from irel_used [OF r p] obtain g xs sz ys where i: "iinv lo hi g s (xs @ (sz, Used c) # ys)"
    and q: "p = lo + 16 + len xs" and L: "L = live (lo + 16) (xs @ (sz, Used c) # ys)" by blast
  have t: "tagged 8 lo hi g (s\<lparr>mem := m'\<rparr>) (xs @ (sz, Used (bytes m' p (length c))) # ys)"
    by (rule tagged_write [OF iheap_tagged [OF iinv_iheap [OF i]]]) (use q m in auto)
  have i': "iinv lo hi g (s\<lparr>mem := m'\<rparr>) (xs @ (sz, Used (bytes m' p (length c))) # ys)"
    using iheap_mem [OF t iinv_iheap [OF i]] i by (auto simp: iinv_def noadj_append noadj_Cons)
  show ?thesis
    by (rule irelI [OF i'])
       (use live_used [OF iinv_chain(1) [OF iinv_iheap [OF i']]] live_used [OF iinv_chain(1) [OF iinv_iheap [OF i]]] q
        in \<open>simp add: L\<close>)
qed

lemma irel_live:
  assumes r: "irel lo hi s L" and p: "L p = Some c"
  shows "8 dvd p" "lo + 16 \<le> p" "p + length c \<le> mem_brk s" "c = bytes (mem s) p (length c)"
    "GET_SIZE s (HDRP p) = length c + 8"
proof -
  from irel_used [OF r p] obtain g xs sz ys where i: "iinv lo hi g s (xs @ (sz, Used c) # ys)"
    and q: "p = lo + 16 + len xs" and L: "L = live (lo + 16) (xs @ (sz, Used c) # ys)" by blast
  note h = iinv_iheap [OF i]
  from iheap_live [OF h, of p c] p show "8 dvd p" "lo + 16 \<le> p" "p + length c \<le> mem_brk s" "c = bytes (mem s) p (length c)"
    by (simp_all add: L)
  from iheap_blk(1) [OF h q] iheap_bounds(1) [OF h] iinv_chain(1) [OF h] show "GET_SIZE s (HDRP p) = length c + 8"
    by (simp add: blk_ok_def)
qed

interpretation implicit_ops: malloc_free mm_malloc0 mm_free0 irel ifull "2 ^ 32 - 16"
proof (unfold_locales, goal_cases)
  case (1 lo hi s L n)
  then show ?case by (rule irel_malloc)
next
  case (2 lo hi s L p)
  then show ?case by (simp add: irel_free)
next
  case (3 lo hi s L p c m')
  then show ?case by (rule irel_write)
next
  case (4 lo hi s L p c)
  from irel_live [OF this] show ?case by simp
qed

lemma mm_realloc0_copies: "mm_realloc0 = copy_realloc mm_malloc0 mm_free0"
  by (intro ext) (simp only: mm_realloc0_def copy_realloc_def)

definition mm_implicit_c :: "unit implicit_ext mm_ops" where
  "mm_implicit_c = \<lparr>op_init = mm_init0, op_malloc = mm_malloc0, op_free = (\<lambda>p s. Some (mm_free0 p s)),
     op_realloc = mm_realloc0\<rparr>"

definition implicit_room :: "nat \<Rightarrow> nat \<Rightarrow> bool" where
  "implicit_room lo hi \<longleftrightarrow> 8 dvd lo \<and> 0 < lo \<and> lo + 16 + CHUNKSIZE \<le> hi \<and> hi < MINUS1"

interpretation implicit_wide: allocator mm_implicit_c implicit_room irel ifull "2 ^ 32 - 32"
proof (unfold_locales, goal_cases)
  case (1 lo hi s)
  then show ?case using init0_inv [of lo hi s] by (auto simp: mm_implicit_c_def implicit_room_def intro: irelI)
next
  case (2 lo hi s L n)
  then show ?case using irel_malloc [of lo hi s L n] by (simp add: mm_implicit_c_def)
next
  case (3 lo hi s L p)
  then show ?case by (simp add: mm_implicit_c_def irel_free)
next
  case (4 lo hi s L p c n)
  then have "n \<le> 2 ^ 32 - 16" by simp
  from implicit_ops.copy_realloc_ok [OF 4(1-3) this] show ?case by (simp add: mm_implicit_c_def mm_realloc0_copies)
next
  case (5 lo hi s L p c m')
  then show ?case by (rule irel_write)
next
  case (6 lo hi s L p c)
  from irel_live [OF this] show ?case by simp
next
  case (7 lo hi s L p c q d)
  then show ?case using live_disjoint iinv_chain(1) iinv_iheap by (fastforce simp: irel_def)
next
  case (8 lo hi s L)
  then show ?case by (auto simp: irel_def iinv_def iheap_def tagged_def)
qed

interpretation implicit: allocator mm_implicit_c implicit_room irel ifull "2 ^ 31 - 1"
  by (rule allocator_smaller_limit [OF implicit_wide.allocator_axioms]) simp

end
