(* ===== verification/MmImplicitProps.thy ===== *)
theory MmImplicitProps
  imports MmImplicitContract MdriverRunProps
begin

text \<open>
  What the allocator \<open>mm_implicit.c\<close> promises: first fit in address order, and that the driver accepts it as it
  accepts the explicit-list versions.
\<close>

section \<open>The arena stays where it is\<close>

lemma arena_heap_listp [simp]: "same_arena s (t\<lparr>heap_listp := r\<rparr>) = same_arena s t"
  by (simp add: same_arena_def)

lemma arena_coalesce0 [simp]: "same_arena s (snd (coalesce0 q t)) = same_arena s t"
  by (simp add: coalesce0_def Let_def)

lemma arena_place0 [simp]: "same_arena s (place0 q b t) = same_arena s t"
  by (simp add: place0_def Let_def)

lemma arena_extend_heap0: "same_arena s t \<Longrightarrow> same_arena s (snd (extend_heap0 w t))"
  by (simp add: extend_heap0_def Let_def case_prod_beta arena_sbrk)

lemma arena_init0: "same_arena s (snd (mm_init0 s))"
  by (simp add: mm_init0_def Let_def case_prod_beta arena_sbrk arena_extend_heap0)

lemma arena_free0 [simp]: "same_arena s (mm_free0 q t) = same_arena s t"
  by (simp add: mm_free0_def Let_def)

lemma arena_malloc0: "mm_malloc0 n t = Some (p, s') \<Longrightarrow> same_arena s t \<Longrightarrow> same_arena s s'"
  using arena_extend_heap0 [of s t]
  by (auto simp: mm_malloc0_def Let_def case_prod_beta split: if_splits option.splits)

lemma arena_realloc0: "mm_realloc0 p n t = Some (q, s') \<Longrightarrow> same_arena s t \<Longrightarrow> same_arena s s'"
  by (auto simp: mm_realloc0_def Let_def dest!: arena_malloc0 split: if_splits option.splits prod.splits)

interpretation implicit_run: arena_allocator mm_implicit_c implicit_room irel ifull "2 ^ 31 - 1"
proof (unfold_locales, goal_cases)
  case (1 s r s')
  then show ?case using arena_init0 [of s] by (simp add: mm_implicit_c_def)
qed (auto simp: mm_implicit_c_def dest: arena_malloc0 [OF _ same_arena_refl(1)] arena_realloc0 [OF _ same_arena_refl(1)])

section \<open>A concrete arena\<close>

definition arena1 :: implicit where
  "arena1 = \<lparr>mem = (\<lambda>_. 0), mem_start_brk = 8, mem_brk = 8, mem_max_addr = 65544, heap_listp = 0\<rparr>"

definition driver1 :: "unit implicit_ext driver" where
  "driver1 = \<lparr>heap = arena1, ranges = [], blocks = replicate 256 0, block_sizes = replicate 256 0, log = []\<rparr>"

lemma driver1_arena:
  "mem_start_brk (heap driver1) = 8" "mem_max_addr (heap driver1) = 65544" "implicit_room 8 65544"
  "length (block_sizes driver1) = length (blocks driver1)" "driver.log driver1 = []"
  by (simp_all add: driver1_def arena1_def implicit_room_def MINUS1_def CHUNKSIZE_def)

lemma trace0_ok1: "trace_ok (length (blocks driver1)) (2 ^ 31 - 1) {} trace0"
  by (simp add: trace0_def driver1_def)

lemma heap1: "\<exists>s bs. mm_init0 arena1 = (0, s) \<and> iinv 8 65544 (\<lambda>_. 0) s bs"
  using init0_inv [of 8 65544 arena1] by (auto simp: fresh_def arena1_def MINUS1_def CHUNKSIZE_def)

section \<open>Properties\<close>

lemma first_fit_takeWhile:
  "first_fit b p bs = (let xs = takeWhile (\<lambda>x. \<not> (snd x = Free \<and> b \<le> fst x)) bs in if xs = bs then NULL else p + len xs)"
  by (induction bs arbitrary: p) (auto simp: Let_def)





text \<open>A whole run over well-formed trace files prints an index between 0 and 100 unless the arena is exhausted.\<close>

theorem mm_implicit_reports_index:
  assumes "implicit_room lo hi" and "mem_start_brk (heap d) = lo" and "mem_max_addr (heap d) = hi" and "driver.log d = []"
    and "list_all (good_run (2 ^ 31 - 1)) rs" and "rs \<noteq> []"
  shows "mdriver_main mm_implicit_c rs d = Inl AppError \<or>
    (\<exists>k idx. mdriver_main mm_implicit_c rs d = Inr (k, Some idx) \<and> k \<le> length rs \<and> 0 \<le> idx \<and> idx \<le> 100)"
  using implicit_run.main_ok [OF assms] by simp

text \<open>The blocks of a client of \<open>mm_implicit.c\<close> are aligned, lie in the heap, never overlap, and hold what the client
  left in them.\<close>

theorem mm_implicit_blocks_apart:
  assumes "implicit_room lo hi" and "client mm_implicit_c (2 ^ 32 - 32) lo hi s own" and "own p = Some c"
  shows "8 dvd p \<and> lo \<le> p \<and> p + length c \<le> mem_brk s \<and> bytes (mem s) p (length c) = c \<and>
    (\<forall>q d. q \<noteq> p \<and> own q = Some d \<longrightarrow> q + length d \<le> p \<or> p + length c \<le> q)"
  by (rule implicit_wide.client_blocks [OF assms])

text \<open>As in \<open>mm_explicit.c\<close>, reallocating to size 0 returns without freeing the block, and reallocating a null
  pointer faults as soon as there is memory for the new block.\<close>

theorem mm_realloc0_edges:
  "mm_realloc0 p 0 s = Some (NULL, s)"
  "mm_malloc0 n s = Some (q, s') \<Longrightarrow> q \<noteq> NULL \<Longrightarrow> mm_realloc0 NULL n s = None"
  by (simp_all add: mm_realloc0_def mm_malloc0_def)

end
