(* ===== verification/Sockets.thy ===== *)
theory Sockets
  imports Decimal
begin

text \<open>
  The connections of the proxy: \<open>open_clientfd\<close>, \<open>open_listenfd\<close> and their wrappers in \<open>csapp.c\<close>, and of \<open>proxy.c\<close> the loop of
  \<open>main\<close> and the end of a thread.  The answers of the kernel are arguments; what is kept is which descriptors are
  open, which address lists were not freed, and the messages, without the host, port and error text they quote.
\<close>

section \<open>Descriptors\<close>

text \<open>The open descriptors of the process, the address lists of \<open>getaddrinfo\<close> not freed yet, and what was
  written to the standard error output.\<close>

record net =
  fds :: "nat list"
  ai_lists :: nat
  stderr :: "string list"

text \<open>An address that \<open>getaddrinfo\<close> lists, as what the kernel answers to the calls made for it.\<close>

record addrinfo =
  socket_ok :: bool
  connect_ok :: bool
  bind_ok :: bool
  close_ok :: bool

definition complain :: "string \<Rightarrow> net \<Rightarrow> net" where
  "complain msg s = s\<lparr>stderr := stderr s @ [msg]\<rparr>"

text \<open>A new descriptor is the lowest one that is not open.\<close>

definition lowest_free :: "nat list \<Rightarrow> nat" where
  "lowest_free fs = hd (filter (\<lambda>n. n \<notin> set fs) [0..<Suc (length fs)])"

definition new_fd :: "bool \<Rightarrow> net \<Rightarrow> int \<times> net" where
  "new_fd ok s = (if ok then (int (lowest_free (fds s)), s\<lparr>fds := lowest_free (fds s) # fds s\<rparr>) else (-1, s))"

text \<open>\<open>close\<close> releases an open descriptor also when it reports an error.\<close>

definition close_fd :: "bool \<Rightarrow> int \<Rightarrow> net \<Rightarrow> int \<times> net" where
  "close_fd ok fd s =
     (if 0 \<le> fd \<and> nat fd \<in> set (fds s) then (if ok then 0 else -1, s\<lparr>fds := remove1 (nat fd) (fds s)\<rparr>)
      else (-1, s))"

section \<open>The helper functions\<close>

text \<open>\<open>unix_error\<close> prints its message; the \<open>exit\<close> behind it is commented out.\<close>

definition unix_error :: "string \<Rightarrow> net \<Rightarrow> net" where
  "unix_error msg s = complain msg s"

datatype addr_walk = Found int | Exhausted | Stuck

fun connect_loop :: "addrinfo list \<Rightarrow> net \<Rightarrow> addr_walk \<times> net" where
  "connect_loop [] s = (Exhausted, s)"
| "connect_loop (p # ps) s =
     (let (clientfd, s) = new_fd (socket_ok p) s in
      if clientfd < 0 then connect_loop ps s
      else if connect_ok p then (Found clientfd, s)
      else let (rc, s) = close_fd (close_ok p) clientfd s in
        if rc < 0 then (Stuck, complain ''open_clientfd: close failed'' s)
        else connect_loop ps s)"

text \<open>The argument is the result of \<open>getaddrinfo\<close>, \<open>None\<close> for an error code.\<close>

definition open_clientfd :: "addrinfo list option \<Rightarrow> net \<Rightarrow> int \<times> net" where
  "open_clientfd gai s =
     (case gai of
        None \<Rightarrow> (-2, complain ''getaddrinfo failed'' s)
      | Some listp \<Rightarrow>
          let s = s\<lparr>ai_lists := Suc (ai_lists s)\<rparr>;
              (p, s) = connect_loop listp s
          in case p of
               Stuck \<Rightarrow> (-1, s)
             | Exhausted \<Rightarrow> (-1, s\<lparr>ai_lists := ai_lists s - 1\<rparr>)
             | Found clientfd \<Rightarrow> (clientfd, s\<lparr>ai_lists := ai_lists s - 1\<rparr>))"

fun bind_loop :: "addrinfo list \<Rightarrow> net \<Rightarrow> addr_walk \<times> net" where
  "bind_loop [] s = (Exhausted, s)"
| "bind_loop (p # ps) s =
     (let (listenfd, s) = new_fd (socket_ok p) s in
      if listenfd < 0 then bind_loop ps s
      else if bind_ok p then (Found listenfd, s)
      else let (rc, s) = close_fd (close_ok p) listenfd s in
        if rc < 0 then (Stuck, complain ''open_listenfd close failed'' s)
        else bind_loop ps s)"

text \<open>\<open>listen_ok\<close>: what \<open>listen\<close> and the \<open>close\<close> behind it answer.\<close>

definition open_listenfd :: "addrinfo list option \<Rightarrow> bool \<Rightarrow> bool \<Rightarrow> net \<Rightarrow> int \<times> net" where
  "open_listenfd gai listen_ok closed s =
     (case gai of
        None \<Rightarrow> (-2, complain ''getaddrinfo failed'' s)
      | Some listp \<Rightarrow>
          let s = s\<lparr>ai_lists := Suc (ai_lists s)\<rparr>;
              (p, s) = bind_loop listp s
          in case p of
               Stuck \<Rightarrow> (-1, s)
             | Exhausted \<Rightarrow> (-1, s\<lparr>ai_lists := ai_lists s - 1\<rparr>)
             | Found listenfd \<Rightarrow>
                 let s = s\<lparr>ai_lists := ai_lists s - 1\<rparr>
                 in if listen_ok then (listenfd, s) else (-1, snd (close_fd closed listenfd s)))"

definition Open_clientfd :: "addrinfo list option \<Rightarrow> net \<Rightarrow> int \<times> net" where
  "Open_clientfd gai s =
     (let (rc, s) = open_clientfd gai s in (rc, if rc < 0 then unix_error ''Open_clientfd error'' s else s))"

definition Open_listenfd :: "addrinfo list option \<Rightarrow> bool \<Rightarrow> bool \<Rightarrow> net \<Rightarrow> int \<times> net" where
  "Open_listenfd gai listen_ok closed s =
     (let (rc, s) = open_listenfd gai listen_ok closed s
      in (rc, if rc < 0 then unix_error ''Open_listenfd error'' s else s))"

definition Close :: "bool \<Rightarrow> int \<Rightarrow> net \<Rightarrow> net" where
  "Close ok fd s = (let (rc, s) = close_fd ok fd s in if rc < 0 then unix_error ''Close error'' s else s)"

text \<open>The message of \<open>Accept\<close> is commented out as well.\<close>

definition Accept :: "bool \<Rightarrow> int \<Rightarrow> net \<Rightarrow> int \<times> net" where
  "Accept ok fd s = new_fd (ok \<and> 0 \<le> fd \<and> nat fd \<in> set (fds s)) s"

section \<open>The proxy\<close>

text \<open>The end of every thread.\<close>

definition end_thread :: "bool \<Rightarrow> bool \<Rightarrow> int \<Rightarrow> int \<Rightarrow> net \<Rightarrow> net" where
  "end_thread ok1 ok2 clientfd serverfd s =
     (let s = (if 0 \<le> serverfd then Close ok1 serverfd s else s) in Close ok2 clientfd s)"

text \<open>The loop of \<open>main\<close>, one round for every answer of \<open>accept\<close>: the descriptors handed to the threads.  What
  the threads do to the descriptors in between is a function of the round.\<close>

fun accept_loop :: "(nat \<Rightarrow> net \<Rightarrow> net) \<Rightarrow> int \<Rightarrow> bool list \<Rightarrow> net \<Rightarrow> int list \<times> net" where
  "accept_loop threads listenfd [] s = ([], s)"
| "accept_loop threads listenfd (ok # oks) s =
     (let (connfd, s) = Accept ok listenfd s;
          (connfds, s) = accept_loop threads listenfd oks (threads (length oks) s)
      in (connfd # connfds, s))"

definition atoi_port :: "string \<Rightarrow> int" where
  "atoi_port s = (case scan_num s of None \<Rightarrow> 0 | Some (n, _) \<Rightarrow> n)"

datatype refusal = Usage | Port_range

definition proxy_main :: "string list \<Rightarrow> addrinfo list option \<Rightarrow> bool \<Rightarrow> bool \<Rightarrow> (nat \<Rightarrow> net \<Rightarrow> net) \<Rightarrow> bool list \<Rightarrow> net \<Rightarrow>
    refusal + (int list \<times> net)" where
  "proxy_main argv gai listen_ok closed threads oks s =
     (if length argv \<noteq> 2 then Inl Usage
      else
        let port = atoi_port (argv ! 1)
        in if port < 0 \<or> port > 65535 then Inl Port_range
           else let (listenfd, s) = Open_listenfd gai listen_ok closed s
                in Inr (accept_loop threads listenfd oks s))"

section \<open>What the searches find\<close>

lemma lowest_free:
  "lowest_free fs \<notin> set fs" "\<And>n. n < lowest_free fs \<Longrightarrow> n \<in> set fs"
proof -
  let ?xs = "filter (\<lambda>n. n \<notin> set fs) [0..<Suc (length fs)]"
  have ne: "?xs \<noteq> []"
  proof
    assume "?xs = []"
    then have "set [0..<Suc (length fs)] \<subseteq> set fs" by (auto simp: filter_empty_conv simp del: upt_Suc)
    then have "card (set [0..<Suc (length fs)]) \<le> card (set fs)" by (intro card_mono) simp_all
    also have "\<dots> \<le> length fs" by (rule card_length)
    finally show False by simp
  qed
  then have "lowest_free fs \<in> set ?xs" unfolding lowest_free_def by (rule hd_in_set)
  then show "lowest_free fs \<notin> set fs" by (simp del: upt_Suc)
  have "sorted ?xs" by (rule sorted_wrt_filter) (simp del: upt_Suc)
  moreover have "hd xs \<le> x" if "sorted xs" "x \<in> set xs" for x and xs :: "nat list"
    using that by (cases xs) auto
  ultimately have least: "x \<in> set ?xs \<Longrightarrow> lowest_free fs \<le> x" for x
    unfolding lowest_free_def by blast
  fix n assume n: "n < lowest_free fs"
  with \<open>lowest_free fs \<in> set ?xs\<close> least [of n] show "n \<in> set fs" by (force simp del: upt_Suc)
qed

lemma close_new [simp]:
  "close_fd ok (int (lowest_free (fds s))) (s\<lparr>fds := lowest_free (fds s) # fds s\<rparr>) = (if ok then 0 else -1, s)"
  by (simp add: close_fd_def)

definition stuck :: "addrinfo list \<Rightarrow> bool" where
  "stuck tried \<longleftrightarrow> (\<exists>p\<in>set tried. socket_ok p \<and> \<not> close_ok p)"

lemma connect_loop_spec:
  "connect_loop ps s =
     (let tried = takeWhile (\<lambda>p. \<not> (socket_ok p \<and> connect_ok p)) ps in
      if stuck tried then (Stuck, complain ''open_clientfd: close failed'' s)
      else if tried = ps then (Exhausted, s)
      else (Found (int (lowest_free (fds s))), s\<lparr>fds := lowest_free (fds s) # fds s\<rparr>))"
  by (induction ps arbitrary: s) (auto simp: new_fd_def stuck_def Let_def)

lemma bind_loop_spec:
  "bind_loop ps s =
     (let tried = takeWhile (\<lambda>p. \<not> (socket_ok p \<and> bind_ok p)) ps in
      if stuck tried then (Stuck, complain ''open_listenfd close failed'' s)
      else if tried = ps then (Exhausted, s)
      else (Found (int (lowest_free (fds s))), s\<lparr>fds := lowest_free (fds s) # fds s\<rparr>))"
  by (induction ps arbitrary: s) (auto simp: new_fd_def stuck_def Let_def)

text \<open>The result is the lowest free descriptor, connected to the first address that answers; the list of addresses is
  freed unless a \<open>close\<close> fails.\<close>

theorem open_clientfd_spec:
  "open_clientfd (Some ps) s =
     (let tried = takeWhile (\<lambda>p. \<not> (socket_ok p \<and> connect_ok p)) ps in
      if stuck tried then (-1, complain ''open_clientfd: close failed'' (s\<lparr>ai_lists := Suc (ai_lists s)\<rparr>))
      else if tried = ps then (-1, s)
      else (int (lowest_free (fds s)), s\<lparr>fds := lowest_free (fds s) # fds s\<rparr>))"
  by (auto simp: open_clientfd_def connect_loop_spec Let_def complain_def)

theorem open_listenfd_spec:
  "open_listenfd (Some ps) True c s =
     (let tried = takeWhile (\<lambda>p. \<not> (socket_ok p \<and> bind_ok p)) ps in
      if stuck tried then (-1, complain ''open_listenfd close failed'' (s\<lparr>ai_lists := Suc (ai_lists s)\<rparr>))
      else if tried = ps then (-1, s)
      else (int (lowest_free (fds s)), s\<lparr>fds := lowest_free (fds s) # fds s\<rparr>))"
  by (auto simp: open_listenfd_def bind_loop_spec Let_def complain_def)

text \<open>What the callers rely on: a failing call leaves the descriptors alone, a successful one adds its result.\<close>

lemma open_clientfd_fds:
  assumes "open_clientfd gai s = (fd, s')"
  shows "fd < 0 \<and> fds s' = fds s \<or> fd = int (lowest_free (fds s)) \<and> fds s' = lowest_free (fds s) # fds s"
proof (cases gai)
  case (Some ps)
  then show ?thesis using assms unfolding Some open_clientfd_spec by (auto simp: Let_def complain_def split: if_splits)
qed (use assms in \<open>auto simp: open_clientfd_def complain_def\<close>)

lemma open_listenfd_fds:
  assumes "open_listenfd gai l c s = (fd, s')"
  shows "fd < 0 \<and> fds s' = fds s \<or> fd = int (lowest_free (fds s)) \<and> fds s' = lowest_free (fds s) # fds s"
  using assms by (auto simp: open_listenfd_def bind_loop_spec complain_def close_fd_def Let_def split: option.splits if_splits)

lemma Open_clientfd_fds:
  assumes "Open_clientfd gai s = (fd, s')"
  shows "fd < 0 \<and> fds s' = fds s \<or> fd = int (lowest_free (fds s)) \<and> fds s' = lowest_free (fds s) # fds s"
  using assms open_clientfd_fds [of gai s] by (auto simp: Open_clientfd_def unix_error_def complain_def split: prod.splits)

lemma Close_fds: "fds (Close ok (int fd) s) = remove1 fd (fds s)"
  by (auto simp: Close_def close_fd_def unix_error_def complain_def remove1_idem)

text \<open>C39: a thread of the proxy leaves no descriptor behind.  Whether it ends before it contacts the server, or its
  \<open>Open_clientfd\<close> succeeds or fails in any way, \<open>end_thread\<close> closes the connection to the client and the one to
  the server and nothing else.\<close>

theorem thread_leaves_no_descriptor:
  assumes "fd \<in> set (fds s)" and "distinct (fds s)"
    and "(serverfd, s') = (-1, s) \<or> (serverfd, s') = Open_clientfd gai s"
  shows "fds (end_thread ok1 ok2 (int fd) serverfd s') = remove1 fd (fds s)"
proof -
  have "serverfd < 0 \<and> fds s' = fds s \<or>
    serverfd = int (lowest_free (fds s)) \<and> fds s' = lowest_free (fds s) # fds s"
    using assms(3) Open_clientfd_fds [of gai s serverfd s'] by auto
  then show ?thesis by (auto simp: end_thread_def Close_fds)
qed

theorem thread_leaves_no_descriptor_witness:
  "let s = \<lparr>fds = [4, 3, 2, 1, 0], ai_lists = 0, stderr = []\<rparr>;
       down = \<lparr>socket_ok = True, connect_ok = False, bind_ok = True, close_ok = True\<rparr>;
       up = \<lparr>socket_ok = True, connect_ok = True, bind_ok = True, close_ok = True\<rparr>;
       (serverfd, s') = Open_clientfd (Some [down, up]) s
   in serverfd = 5 \<and> fds (end_thread True True 4 serverfd s') = [3, 2, 1, 0]"
proof -
  let ?s = "\<lparr>fds = [4, 3, 2, 1, 0], ai_lists = 0, stderr = []\<rparr>"
  let ?ps = "[\<lparr>socket_ok = True, connect_ok = False, bind_ok = True, close_ok = True\<rparr>,
       \<lparr>socket_ok = True, connect_ok = True, bind_ok = True, close_ok = True\<rparr>]"
  obtain fd s' where e: "Open_clientfd (Some ?ps) ?s = (fd, s')" by force
  have "lowest_free [4, 3, 2, 1, 0] = 5" by (simp add: lowest_free_def upt_rec)
  then have "fst (Open_clientfd (Some ?ps) ?s) = 5"
    by (simp add: Open_clientfd_def open_clientfd_def new_fd_def close_fd_def Let_def)
  then have "fd = 5" unfolding e fst_conv .
  then show ?thesis using thread_leaves_no_descriptor [of 4 ?s fd s' "Some ?ps" True True] e by simp
qed

text \<open>A listening socket that could not be opened does not stop the server: every round starts a thread for the
  descriptor -1.\<close>

lemma accept_loop_dead: "listenfd < 0 \<Longrightarrow> fst (accept_loop threads listenfd oks s) = replicate (length oks) (-1)"
proof (induction oks arbitrary: s)
  case (Cons ok oks)
  then have "Accept ok listenfd s = (-1, s)" by (simp add: Accept_def new_fd_def)
  then show ?case using Cons by (simp add: case_prod_beta Let_def)
qed simp

theorem proxy_main_without_socket:
  assumes "fst (Open_listenfd gai l c s) < 0" and "length argv = 2" and "0 \<le> atoi_port (argv ! 1)" "atoi_port (argv ! 1) \<le> 65535"
  shows "\<exists>s'. proxy_main argv gai l c threads oks s = Inr (replicate (length oks) (-1), s')"
proof -
  obtain fd s1 where o: "Open_listenfd gai l c s = (fd, s1)" by force
  then have "fst (accept_loop threads fd oks s1) = replicate (length oks) (-1)" using assms(1) by (intro accept_loop_dead) simp
  then show ?thesis using assms(2-4) o by (cases "accept_loop threads fd oks s1") (simp add: proxy_main_def)
qed

end
