(* ===== verification/Spec2Isabelle.thy ===== *)
theory Spec2Isabelle
  imports MmClient DriverProps CacheLru TransposeCorrect MemTraceProps CsappProps ProxyProps TshProps MmVersionsProps TimingProps MdriverRunProps DbfsProps HarnessProps MmImplicitProps Sockets
begin

text \<open>
  A verification library for the system programming labs of this repository: six independent C programs
  and the libraries and drivers that come with them.  Every definition that models code translates a function,
  macro, type or loop under \<open>src/\<close> and keeps its name; a digit at the end marks the version of a file
  (\<open>mm_malloc0\<close> is that of \<open>mm_implicit.c\<close>, \<open>mm_malloc1\<close> that of \<open>mm_explicit.c\<close>, \<open>free3\<close> that of part 3 of the linklab).

  \<^bold>\<open>Parts and theories.\<close>

    \<^item> \<^bold>\<open>Shared.\<close>  \<open>Prelude\<close>: the machine types, memory as a map from addresses to bytes with
      its 32-bit accesses, \<open>memmove\<close> and \<open>memset\<close>, checked loops, and the rewrite collections.

    \<^item> \<^bold>\<open>malloclab.\<close>  \<open>MemLib\<close> is the simulated memory system (\<open>memlib.c\<close>: arena, \<open>mem_sbrk\<close>) and the
      word macros of the allocators.  \<open>MmExplicit\<close> is \<open>mm.c\<close>: \<open>mm_init\<close>, \<open>mm_malloc\<close>, \<open>mm_free\<close>,
      \<open>mm_realloc\<close>, the internal functions and \<open>mm_check\<close>.  \<open>HeapModel\<close> and \<open>FreeList\<close> say what the bytes of
      a heap mean (a chain of blocks, a doubly linked list through the free ones), \<open>MmInv\<close> states the
      invariant over the tags that every version shares (\<open>BoundaryTags\<close>), \<open>MmOps\<close>, \<open>MmGrow\<close>, \<open>MmCorrect\<close> and \<open>MmRealloc\<close> show what each function does to it, and
      \<open>MmContract\<close> puts it into the interface \<open>AllocSpec.allocator\<close>, which \<open>mm.h\<close> promises its clients: a
      heap refines a map from block addresses to payloads, and a request fails only on a \<open>full\<close> heap.  \<open>Client\<close>
      is the client of any such allocator, as a relation on reachable states.  \<open>MmProps\<close> and \<open>MmClient\<close> hold the properties,
      \<open>MmVersions\<close> and \<open>MmVersionsProps\<close> the two earlier explicit-list versions.  \<open>MmImplicit\<close> is the
      implicit-list version \<open>mm_implicit.c\<close>, \<open>MmImplicitCorrect\<close>, \<open>MmImplicitContract\<close> and \<open>MmImplicitProps\<close> put it into
      the same interface; the allocate-copy-free \<open>mm_realloc\<close> of the first versions is proved once, in \<open>NaiveRealloc\<close>.
      \<open>Mdriver\<close>, \<open>MdriverMain\<close> are the driver \<open>mdriver.c\<close>: reading a trace, the range list, the
      interpreters of a trace, the results and the loop of \<open>main\<close>.  \<open>MdriverCorrect\<close>, \<open>MdriverRun\<close> prove
      about the driver what holds for every provider of the interface (locales \<open>allocator\<close> and
      \<open>arena_allocator\<close>); \<open>DriverProps\<close>, \<open>TraceFile\<close> and \<open>MdriverRunProps\<close> apply it to the allocators.
      \<open>Timing\<close> and \<open>TimingProps\<close> are the timing package (\<open>clock.c\<close>, \<open>ftimer.c\<close>, \<open>fcyc.c\<close>, \<open>fsecs.c\<close>).

    \<^item> \<^bold>\<open>cachelab.\<close>  \<open>CacheSim\<close> is the simulator \<open>csim.c\<close>, \<open>CacheLru\<close> shows that it computes what an LRU
      cache computes, from any state with distinct tags and timestamps.  \<open>Transpose\<close> is \<open>trans.c\<close>, \<open>TransposeCorrect\<close> shows that every branch transposes.
      \<open>Harness\<close> and \<open>HarnessProps\<close> are the programs that validate and score it (\<open>cachelab.c\<close>, \<open>tracegen.c\<close>,
      \<open>test-trans.c\<close>).

    \<^item> \<^bold>\<open>linklab.\<close>  \<open>Memlist\<close> is the list of blocks of \<open>utils/memlist.c\<close> with its contract (locale
      \<open>block_table\<close>), \<open>MemTrace\<close> the tracers of the three parts, parametric in the libc they wrap;
      \<open>MemTraceCorrect\<close> and \<open>MemTraceProps\<close> relate the tracer to the blocks libc has allocated, for any
      libc that behaves as documented: it may refuse requests and move blocks.

    \<^item> \<^bold>\<open>proxylab.\<close>  \<open>Csapp\<close> and \<open>CsappProps\<close> are the Sio and Rio packages of \<open>csapp.c\<close>, \<open>ProxyCache\<close> and
      \<open>ProxyCacheProps\<close> the object cache \<open>cache.c\<close>, \<open>Proxy\<close> and \<open>ProxyProps\<close> the thread of \<open>proxy.c\<close>, which uses
      both.  \<open>Sockets\<close> is what opens and closes their descriptors: the helper functions of \<open>csapp.c\<close>, the loop of
      \<open>main\<close>, the end of a thread.

    \<^item> \<^bold>\<open>shlab.\<close>  \<open>Tsh\<close> is the shell \<open>tsh.c\<close>: job list, parser, built-in commands, \<open>eval\<close>, and the signal
      handlers, which run at every point where signals are not blocked.  \<open>TshCorrect\<close> proves its
      invariants, \<open>TshProps\<close> its properties.

    \<^item> \<^bold>\<open>kernellab.\<close>  \<open>Dbfs\<close> and \<open>DbfsProps\<close> are the file operations of the two debugfs modules, which
      translate an address and list the ancestors of a process; the specification of the translation is a relation
      of its own, \<open>translates\<close>.

  \<^bold>\<open>How the code is modelled.\<close>  State is passed explicitly in records that have the fields of the C
  structs and globals.  \<open>size_t\<close> and \<open>int\<close> values are numbers with their wrap-around written out
  (\<open>wrap32\<close>, \<open>sub32\<close>, \<open>size_t\<close>, \<open>to_int32\<close>) or words; memory words are \<open>32 word\<close>.  The lab builds the allocators for 32 bit.
  Errors are values: a driver that exits or violates an assertion is \<open>Inl\<close>, an access outside an array
  is \<open>BadAccess\<close>, \<open>Fault\<close>, \<open>Undef\<close> or \<open>None\<close>.  \<open>double\<close> numbers are rationals.  What is not under
  \<open>src/\<close> is an argument: libc behind the tracers, the bytes and errors the kernel delivers to \<open>read\<close>,
  the times, counter readings and process ids, and the moments at which signals arrive.

  \<^bold>\<open>Loops and fuel.\<close>  Loops that run over data are structural recursion or have a termination proof.  The searches of
  the allocator and the checker follow pointers and may not end on a corrupted heap: they are \<open>partial_function\<close>s, and the
  properties of \<open>mm_malloc\<close> and \<open>mm_check\<close> prove that they return on every heap that satisfies the
  invariant.  The search of the proxy cache takes a number of steps and yields \<open>Running\<close> when they are
  used up; \<open>cache_finds_latest\<close> needs no more steps than the cache has items, and the loop found there
  is \<open>Running\<close> for every number.  \<open>waitfg\<close> of the shell runs over the signals still to come and yields
  \<open>Block\<close> when there are none left; \<open>waitfg_returns\<close> says when it does not.  \<open>clear_loop\<close> of the timing package is a
  \<open>partial_function\<close>, because a block size below four bytes makes it run for ever.

  \<^bold>\<open>Groups of properties.\<close>  Functional contracts of the allocators over the abstract map of blocks, and
  the driver accepting them (refinement); LRU equivalence of the simulator; correctness of every branch of the
  transposition; the tracer's books against libc, and equivalence of its parts; byte streams read
  independently of their delivery; the object cache and what the proxy sends; the shell's invariant at
  its prompt; the K-best scheme; trace files read back, the type of what the reader accepts and the bounds of the performance index; the descriptors
  a thread of the proxy holds.  Several
  properties state what goes wrong: each names the state or input that shows it.

  \<^bold>\<open>Not modelled.\<close>  The error-checking wrappers of \<open>csapp.c\<close> apart from those of \<open>Sockets\<close>, each of
  which makes one system call; option parsing and
  usage texts; the registration of the debugfs files and their test program; the programs under \<open>linklab/test\<close> and
  \<open>myspin.c\<close>, \<open>mysplit.c\<close>, \<open>myint.c\<close>, \<open>mystop.c\<close>, which only exercise the tools; the Python and Perl drivers.

  \<^bold>\<open>Limits.\<close>  An operation of the proxy cache is one step: the window of \<open>cache_lookup\<close> between its two locks is not
  modelled.  SIGINT and SIGTSTP that arrive while the shell blocks SIGCHLD alone count as signals of the neighbouring
  window (\<open>deliver_all\<close>).  The two running totals of \<open>eval_mm_util\<close> are unbounded.  One evaluation of
  \<open>eval_mm_speed\<close> stands for the repeated runs of \<open>fsecs\<close>.  What the reference simulator finds of a trace
  file without the end marker, which is not closed, is its own (\<open>csim_ref\<close>).
\<close>

end
